(* ===== verification/Proc.thy ===== *)
theory Proc
  imports Main "HOL-Library.Multiset"
begin

text \<open>
  Goroutines as resumptions: a goroutine has come to its end with a result, or it is about to take
  an atomic step on the state that it shares with others. A step can be blocked; what comes after it
  depends on the state in which it was taken. Loops of the program are recursions that build the
  resumption, so that every resumption is finite in depth, and the order in which goroutines
  take steps is not part of it.
\<close>

datatype ('s, 'a) proc = Ret 'a | Act "'s \<Rightarrow> 's option" "'s \<Rightarrow> ('s, 'a) proc"

section \<open>Steps\<close>

fun proc_step :: "('s, 'a) proc \<Rightarrow> 's \<Rightarrow> (('s, 'a) proc \<times> 's) option" where
  "proc_step (Ret a) s = None"
| "proc_step (Act f k) s = map_option (\<lambda>s'. (k s, s')) (f s)"

text \<open>Without company: the result and the state, \<open>None\<close> if it gets stuck.\<close>

primrec proc_run :: "('s, 'a) proc \<Rightarrow> 's \<Rightarrow> ('a \<times> 's) option" where
  "proc_run (Ret a) s = Some (a, s)"
| "proc_run (Act f k) s = (case f s of None \<Rightarrow> None | Some s' \<Rightarrow> proc_run (k s) s')"

text \<open>A step that is never blocked and returns a value, and one that waits for a condition.\<close>

definition act :: "('s \<Rightarrow> 'x \<times> 's) \<Rightarrow> ('x \<Rightarrow> ('s, 'a) proc) \<Rightarrow> ('s, 'a) proc" where
  "act f k = Act (\<lambda>s. Some (snd (f s))) (\<lambda>s. k (fst (f s)))"

definition await :: "('s \<Rightarrow> bool) \<Rightarrow> ('s \<Rightarrow> 's) \<Rightarrow> ('s, 'a) proc \<Rightarrow> ('s, 'a) proc" where
  "await b f k = Act (\<lambda>s. if b s then Some (f s) else None) (\<lambda>_. k)"

lemma run_act [simp]: "proc_run (act f k) s = proc_run (k (fst (f s))) (snd (f s))"
  by (simp add: act_def)

lemma run_await [simp]: "proc_run (await b f k) s = (if b s then proc_run k (f s) else None)"
  by (simp add: await_def)

section \<open>What every schedule keeps\<close>

text \<open>
  \<open>keeps I G Q p\<close>: in states with \<open>I\<close>, each step of \<open>p\<close> is a move in \<open>G\<close>, whatever the others have done
  to the state since the step before as long as \<open>I\<close> holds, and the result is in \<open>Q\<close>.
\<close>

primrec keeps :: "('s \<Rightarrow> bool) \<Rightarrow> ('s \<Rightarrow> 's \<Rightarrow> bool) \<Rightarrow> ('a \<Rightarrow> bool) \<Rightarrow> ('s, 'a) proc \<Rightarrow> bool" where
  "keeps I G Q (Ret a) = Q a"
| "keeps I G Q (Act f k) = (\<forall>s s'. I s \<longrightarrow> f s = Some s' \<longrightarrow> G s s' \<and> keeps I G Q (k s))"

lemma keeps_act [simp]:
  "keeps I G Q (act f k) \<longleftrightarrow> (\<forall>s. I s \<longrightarrow> G s (snd (f s)) \<and> keeps I G Q (k (fst (f s))))"
  by (simp add: act_def)

lemma keeps_await [simp]:
  "keeps I G Q (await b f k) \<longleftrightarrow> (\<forall>s. I s \<longrightarrow> b s \<longrightarrow> G s (f s) \<and> keeps I G Q k)"
  by (auto simp: await_def)

lemma keeps_step: "keeps I G Q p \<Longrightarrow> I s \<Longrightarrow> proc_step p s = Some (p', s') \<Longrightarrow> G s s' \<and> keeps I G Q p'"
  by (cases p) auto

section \<open>One lock\<close>

text \<open>
  \<open>disciplined locked full data dead p h\<close>: \<open>p\<close>, which holds the lock if \<open>h\<close>, is never blocked
  while it does, waits for nothing but the lock and the end of \<open>full\<close>, changes \<open>data\<close> only while
  it holds the lock, does not touch the lock when another has it, and has given it back at its
  end, unless the result is one of \<open>dead\<close>.
\<close>

primrec disciplined ::
  "('s \<Rightarrow> bool) \<Rightarrow> ('s \<Rightarrow> bool) \<Rightarrow> ('s \<Rightarrow> 'd) \<Rightarrow> ('a \<Rightarrow> bool) \<Rightarrow> ('s, 'a) proc \<Rightarrow> bool \<Rightarrow> bool" where
  "disciplined locked full data dead (Ret a) h = (h \<longrightarrow> dead a)"
| "disciplined locked full data dead (Act f k) h =
     (\<forall>s. (h \<longrightarrow> locked s) \<longrightarrow>
        (case f s of
           None \<Rightarrow> \<not> h \<and> (locked s \<or> full s)
         | Some s' \<Rightarrow>
             if h then disciplined locked full data dead (k s) (locked s')
             else data s' = data s \<and>
               (if locked s then locked s' \<and> disciplined locked full data dead (k s) False
                else disciplined locked full data dead (k s) (locked s'))))"

lemma disciplined_act:
  assumes "\<And>s. locked (snd (f s)) = locked s" "h \<or> (\<forall>s. data (snd (f s)) = data s)"
    and "\<And>x. disciplined locked full data dead (k x) h"
  shows "disciplined locked full data dead (act f k) h"
  using assms by (auto simp: act_def)

lemma disciplined_await:
  assumes "\<And>s. \<not> b s \<Longrightarrow> locked s \<or> full s" "\<And>s. b s \<Longrightarrow> locked (f s) = locked s"
    and "\<And>s. data (f s) = data s"
    and "disciplined locked full data dead k False"
  shows "disciplined locked full data dead (await b f k) False"
  using assms by (auto simp: await_def)

text \<open>Taking the lock, and giving it back.\<close>

lemma disciplined_lock:
  assumes "\<And>s. b s = (\<not> locked s)" "\<And>s. locked (f s)" "\<And>s. data (f s) = data s"
    and "disciplined locked full data dead k True"
  shows "disciplined locked full data dead (await b f k) False"
  using assms by (auto simp: await_def)

lemma disciplined_unlock:
  assumes "\<And>s. \<not> locked (snd (f s))" "\<And>x. disciplined locked full data dead (k x) False"
  shows "disciplined locked full data dead (act f k) True"
  using assms by (auto simp: act_def)

text \<open>A state with goroutines: at most one of them holds the lock, and somebody does if it is locked.\<close>

definition one_holder ::
  "('s \<Rightarrow> bool) \<Rightarrow> ('s \<Rightarrow> bool) \<Rightarrow> ('s \<Rightarrow> 'd) \<Rightarrow> ('a \<Rightarrow> bool) \<Rightarrow> ('s, 'a) proc list \<Rightarrow> 's \<Rightarrow> bool" where
  "one_holder locked full data dead ps s \<longleftrightarrow>
     (if locked s then \<exists>i < length ps. disciplined locked full data dead (ps ! i) True \<and>
          (\<forall>j < length ps. j \<noteq> i \<longrightarrow> disciplined locked full data dead (ps ! j) False)
      else \<forall>p \<in> set ps. disciplined locked full data dead p False)"

lemma disciplined_step:
  assumes "disciplined locked full data dead p h" "h \<longrightarrow> locked s" "proc_step p s = Some (q, s')"
  shows "if h then disciplined locked full data dead q (locked s')
    else data s' = data s \<and>
      (if locked s then locked s' \<and> disciplined locked full data dead q False
       else disciplined locked full data dead q (locked s'))"
proof (cases p)
  case (Act f k)
  then have q: "f s = Some s'" "q = k s" using assms(3) by auto
  have "case f s of None \<Rightarrow> \<not> h \<and> (locked s \<or> full s)
    | Some s' \<Rightarrow> if h then disciplined locked full data dead (k s) (locked s')
        else data s' = data s \<and>
          (if locked s then locked s' \<and> disciplined locked full data dead (k s) False
           else disciplined locked full data dead (k s) (locked s'))"
    using assms(1,2) unfolding Act disciplined.simps by blast
  then show ?thesis by (simp add: q)
qed (use assms(3) in simp)

lemma can_move:
  assumes "disciplined locked full data dead (Act f k) h" "h = locked s" "\<not> full s"
  shows "f s \<noteq> None"
proof
  assume "f s = None"
  moreover have "case f s of None \<Rightarrow> \<not> h \<and> (locked s \<or> full s) | Some s' \<Rightarrow> True"
    using assms unfolding disciplined.simps by (auto split: option.splits)
  ultimately show False using assms(2,3) by simp
qed

lemma one_holder_step:
  assumes "one_holder locked full data dead ps s" "i < length ps" "proc_step (ps ! i) s = Some (q, s')"
  shows "one_holder locked full data dead (ps[i := q]) s'"
proof (cases "locked s")
  case True
  then obtain m where m: "m < length ps" "disciplined locked full data dead (ps ! m) True"
    "\<And>j. j < length ps \<Longrightarrow> j \<noteq> m \<Longrightarrow> disciplined locked full data dead (ps ! j) False"
    using assms(1) by (auto simp: one_holder_def)
  show ?thesis
  proof (cases "i = m")
    case i: True
    have q: "disciplined locked full data dead q (locked s')"
      using disciplined_step [OF m(2) _ assms(3) [unfolded i]] True by simp
    show ?thesis
    proof (cases "locked s'")
      case True
      then show ?thesis
        using q m i unfolding one_holder_def by (auto simp: nth_list_update intro: exI [of _ m])
    next
      case False
      then show ?thesis using q m i unfolding one_holder_def by (auto simp: in_set_conv_nth nth_list_update)
    qed
  next
    case False
    then have "locked s' \<and> disciplined locked full data dead q False"
      using disciplined_step [OF m(3) [OF assms(2)] _ assms(3)] True by simp
    then show ?thesis
      using m False assms(2) unfolding one_holder_def by (auto simp: nth_list_update intro!: exI [of _ m])
  qed
next
  case False
  then have all: "\<And>j. j < length ps \<Longrightarrow> disciplined locked full data dead (ps ! j) False"
    using assms(1) by (auto simp: one_holder_def)
  then have q: "disciplined locked full data dead q (locked s')"
    using disciplined_step [OF all [OF assms(2)] _ assms(3)] False by simp
  show ?thesis
  proof (cases "locked s'")
    case True
    then show ?thesis
      using q all assms(2) unfolding one_holder_def by (auto simp: nth_list_update intro!: exI [of _ i])
  next
    case False
    then show ?thesis
      using q all assms(2) unfolding one_holder_def by (auto simp: in_set_conv_nth nth_list_update)
  qed
qed

text \<open>
  Who changes \<open>data\<close> has the lock, and whatever step another takes instead changes neither.
\<close>

lemma one_holder_data:
  assumes "one_holder locked full data dead ps s" "i < length ps" "proc_step (ps ! i) s = Some (q, s')"
    and "data s' \<noteq> data s" "j < length ps" "j \<noteq> i" "proc_step (ps ! j) s = Some (r, t)"
  shows "locked s \<and> locked t \<and> data t = data s"
proof -
  have "locked s"
  proof (rule ccontr)
    assume "\<not> locked s"
    then have "disciplined locked full data dead (ps ! i) False" using assms(1,2) by (simp add: one_holder_def)
    then show False using disciplined_step [OF _ _ assms(3)] assms(4) by fastforce
  qed
  then obtain m where m: "\<And>l. l < length ps \<Longrightarrow> l \<noteq> m \<Longrightarrow> disciplined locked full data dead (ps ! l) False"
    using assms(1) by (auto simp: one_holder_def)
  have "i = m" using m [OF assms(2)] disciplined_step [OF _ _ assms(3)] assms(4) by fastforce
  then have "disciplined locked full data dead (ps ! j) False" using m assms(5,6) by blast
  from disciplined_step [OF this _ assms(7)] show ?thesis using \<open>locked s\<close> by simp
qed

lemma one_holder_spawn:
  assumes "one_holder locked full data dead ps s" "disciplined locked full data dead p False"
  shows "one_holder locked full data dead (ps @ [p]) s"
proof (cases "locked s")
  case True
  then obtain m where "m < length ps" "disciplined locked full data dead (ps ! m) True"
    "\<forall>j < length ps. j \<noteq> m \<longrightarrow> disciplined locked full data dead (ps ! j) False"
    using assms(1) by (auto simp: one_holder_def)
  then show ?thesis
    using True assms(2) unfolding one_holder_def by (auto simp: nth_append less_Suc_eq intro!: exI [of _ m])
qed (use assms in \<open>auto simp: one_holder_def\<close>)

fun returned :: "('s, 'a) proc \<Rightarrow> bool" where
  "returned (Ret _) = True"
| "returned (Act _ _) = False"

text \<open>Unless all have returned or one has died with the lock, one of them can take a step.\<close>

lemma someone_moves:
  assumes "one_holder locked full data dead ps s" "\<exists>p \<in> set ps. \<not> returned p" "\<forall>a. Ret a \<in> set ps \<longrightarrow> \<not> dead a"
    and "\<not> full s"
  shows "\<exists>i < length ps. proc_step (ps ! i) s \<noteq> None"
proof (cases "locked s")
  case True
  then obtain m where m: "m < length ps" "disciplined locked full data dead (ps ! m) True"
    using assms(1) unfolding one_holder_def by auto
  have "proc_step (ps ! m) s \<noteq> None"
  proof (cases "ps ! m")
    case (Ret a)
    then show ?thesis using m(2) assms(3) nth_mem [OF m(1)] by auto
  next
    case (Act f k)
    then show ?thesis using can_move [of locked full data dead f k True s] m(2) True assms(4) by simp
  qed
  then show ?thesis using m(1) by blast
next
  case False
  obtain i where i: "i < length ps" "\<not> returned (ps ! i)" using assms(2) by (auto simp: in_set_conv_nth)
  have d: "disciplined locked full data dead (ps ! i) False" using False assms(1) i(1) by (simp add: one_holder_def)
  have "proc_step (ps ! i) s \<noteq> None"
  proof (cases "ps ! i")
    case (Act f k)
    then have "disciplined locked full data dead (Act f k) False" using d by simp
    then show ?thesis using can_move [of locked full data dead f k False s] False Act assms(4) by simp
  qed (use i(2) in simp)
  then show ?thesis using i(1) by blast
qed

section \<open>Every schedule ends\<close>

definition follows :: "(('s, 'a) proc \<times> ('s, 'a) proc) set" where
  "follows = {(k s, Act f k) | f k s. True}"

lemma wf_follows: "wf (follows :: (('s, 'a) proc \<times> ('s, 'a) proc) set)"
proof (rule wfUNIVI)
  fix P :: "('s, 'a) proc \<Rightarrow> bool" and p
  assume "\<forall>p. (\<forall>q. (q, p) \<in> follows \<longrightarrow> P q) \<longrightarrow> P p"
  then have step: "(\<And>q. (q, p) \<in> follows \<Longrightarrow> P q) \<Longrightarrow> P p" for p by blast
  show "P p"
  proof (induction p)
    case (Act f k)
    show ?case
    proof (rule step)
      fix q
      assume "(q, Act f k) \<in> follows"
      then obtain s where "q = k s" unfolding follows_def by blast
      then show "P q" using Act by simp
    qed
  next
    case (Ret a)
    show ?case by (rule step) (simp add: follows_def)
  qed
qed

lemma step_follows: "proc_step p s = Some (q, s') \<Longrightarrow> (q, p) \<in> follows"
  by (cases p) (auto simp: follows_def)

text \<open>The goroutines that are left, as a multiset, after one of them took a step or was dropped.\<close>

definition progress :: "(('s, 'a) proc multiset \<times> ('s, 'a) proc multiset) set" where
  "progress = mult follows"

lemma wf_progress: "wf progress"
  unfolding progress_def by (rule wf_mult [OF wf_follows])

lemma progress_step:
  "i < length ps \<Longrightarrow> (q, ps ! i) \<in> follows \<Longrightarrow> (mset (ps[i := q]), mset ps) \<in> progress"
proof -
  assume i: "i < length ps" "(q, ps ! i) \<in> follows"
  have "mset ps = add_mset (ps ! i) (mset ps - {#ps ! i#})" using i(1) by simp
  moreover have "mset (ps[i := q]) = add_mset q (mset ps - {#ps ! i#})" using i(1) by (simp add: mset_update)
  ultimately show ?thesis
    unfolding progress_def
    using one_step_implies_mult [of "{#ps ! i#}" "{#q#}" follows "mset ps - {#ps ! i#}"] i(2)
    by (simp add: add_mset_commute)
qed

end
