(* ===== verification/GoLib.thy ===== *)
theory GoLib
  imports Main "HOL-Library.AList" "HOL-Library.Sublist" "HOL-Library.List_Lexorder"
    "HOL-Library.Char_ord" "HOL-Library.Monad_Syntax"
begin

text \<open>
  Prelude of the development: the part of the Go language and of its standard library that the
  hmnfd sources use. A Go \<open>string\<close> is a sequence of bytes, here a \<open>char list\<close>.

  \<^item> A run-time panic (an index or a slice bound out of range) is the value \<open>None\<close>; a function
    that can panic has type \<open>'a option\<close> and panics are propagated by the option monad.
  \<^item> \<open>strings.ToLower\<close>, \<open>strings.Split\<close>, \<open>strings.Index\<close>, \<open>strings.Contains\<close> and slicing are
    the functions \<open>to_lower\<close>, \<open>split_on\<close>, \<open>index_of\<close>, \<open>go_contains\<close>, \<open>slice_from\<close>,
    \<open>slice\<close>. Lower-casing is the ASCII one; bytes above 127 are left alone.
  \<^item> A Go \<open>map\<close> is an association list with distinct keys (\<open>gm_get\<close>, \<open>gm_put\<close>,
    \<open>gm_del\<close>), whose order stands for one iteration order of the map.
\<close>

named_theorems go_simps \<open>characteristic equations of the Go run-time functions\<close>
named_theorems go_panic \<open>when a Go operation does not panic\<close>

section \<open>Strings\<close>

definition lower_char :: "char \<Rightarrow> char" where
  "lower_char c =
     (if CHR ''A'' \<le> c \<and> c \<le> CHR ''Z'' then char_of (of_char c + (32 :: nat)) else c)"

definition to_lower :: "string \<Rightarrow> string" where
  "to_lower s = map lower_char s"

fun split_on :: "char \<Rightarrow> string \<Rightarrow> string list" where
  "split_on d [] = [[]]"
| "split_on d (c # cs) =
     (if c = d then [] # split_on d cs
      else (case split_on d cs of [] \<Rightarrow> [[c]] | t # ts \<Rightarrow> (c # t) # ts))"

fun index_of :: "string \<Rightarrow> string \<Rightarrow> int" where
  "index_of [] sub = (if sub = [] then 0 else - 1)"
| "index_of (c # cs) sub =
     (if prefix sub (c # cs) then 0
      else (let r = index_of cs sub in if r < 0 then - 1 else r + 1))"

definition go_contains :: "string \<Rightarrow> string \<Rightarrow> bool" where
  "go_contains s sub \<longleftrightarrow> 0 \<le> index_of s sub"

definition slice_from :: "string \<Rightarrow> int \<Rightarrow> string option" where
  "slice_from s i = (if 0 \<le> i \<and> i \<le> int (length s) then Some (drop (nat i) s) else None)"

definition slice :: "string \<Rightarrow> int \<Rightarrow> int \<Rightarrow> string option" where
  "slice s i j =
     (if 0 \<le> i \<and> i \<le> j \<and> j \<le> int (length s)
      then Some (take (nat j - nat i) (drop (nat i) s)) else None)"

definition go_nth :: "'a list \<Rightarrow> nat \<Rightarrow> 'a option" where
  "go_nth xs i = (if i < length xs then Some (xs ! i) else None)"

subsection \<open>Lower-casing\<close>

lemma lower_char_range:
  assumes "CHR ''A'' \<le> c" "c \<le> CHR ''Z''"
  shows "of_char (lower_char c) = (of_char c + 32 :: nat)"
proof -
  have "of_char c \<le> (90 :: nat)"
    using assms(2) by (simp add: less_eq_char_def)
  then show ?thesis
    using assms by (simp add: lower_char_def)
qed

lemma lower_char_idem [simp]: "lower_char (lower_char c) = lower_char c"
proof (cases "CHR ''A'' \<le> c \<and> c \<le> CHR ''Z''")
  case True
  then have "of_char (lower_char c) = (of_char c + 32 :: nat)" by (simp add: lower_char_range)
  moreover have "(65 :: nat) \<le> of_char c" using True by (simp add: less_eq_char_def)
  ultimately have "\<not> lower_char c \<le> CHR ''Z''" by (simp add: less_eq_char_def)
  then show ?thesis by (simp add: lower_char_def [of "lower_char c"])
next
  case False
  then have "lower_char c = c" by (auto simp: lower_char_def)
  then show ?thesis by simp
qed

text \<open>Only the upper-case letters are moved, and a letter is only reached from a letter.\<close>

lemma lower_char_eq_iff:
  assumes "\<not> (CHR ''a'' \<le> d \<and> d \<le> CHR ''z'')" "\<not> (CHR ''A'' \<le> d \<and> d \<le> CHR ''Z'')"
  shows "lower_char c = d \<longleftrightarrow> c = d"
proof (cases "CHR ''A'' \<le> c \<and> c \<le> CHR ''Z''")
  case True
  then have eq: "of_char (lower_char c) = (of_char c + 32 :: nat)" by (simp add: lower_char_range)
  moreover have "(65 :: nat) \<le> of_char c" "of_char c \<le> (90 :: nat)"
    using True by (simp_all add: less_eq_char_def)
  ultimately have "CHR ''a'' \<le> lower_char c \<and> lower_char c \<le> CHR ''z''"
    by (simp add: less_eq_char_def)
  then have "lower_char c \<noteq> d" using assms(1) by blast
  moreover have "c \<noteq> d" using True assms(2) by blast
  ultimately show ?thesis by blast
next
  case False
  then show ?thesis by (auto simp: lower_char_def)
qed

lemma to_lower_idem [simp]: "to_lower (to_lower s) = to_lower s"
  by (simp add: to_lower_def)

lemma to_lower_Nil [simp]: "to_lower [] = []"
  by (simp add: to_lower_def)

lemma to_lower_eq_Nil [simp]: "to_lower s = [] \<longleftrightarrow> s = []"
  by (simp add: to_lower_def)

lemma to_lower_append [simp]: "to_lower (s @ t) = to_lower s @ to_lower t"
  by (simp add: to_lower_def)

lemma to_lower_Cons: "to_lower (c # s) = lower_char c # to_lower s"
  by (simp add: to_lower_def)

lemma length_to_lower [simp]: "length (to_lower s) = length s"
  by (simp add: to_lower_def)

subsection \<open>Splitting\<close>

lemma split_on_not_Nil [simp]: "split_on d s \<noteq> []"
  by (induction d s rule: split_on.induct) (auto split: list.splits)

lemma split_on_no_delim: "d \<notin> set t \<Longrightarrow> split_on d t = [t]"
  by (induction t) auto

lemma split_on_append: "d \<notin> set t \<Longrightarrow> split_on d (t @ d # s) = t # split_on d s"
  by (induction t) auto

lemma split_on_parts: "t \<in> set (split_on d s) \<Longrightarrow> d \<notin> set t"
proof (induction d s arbitrary: t rule: split_on.induct)
  case (1 d)
  then show ?case by simp
next
  case (2 d c cs)
  then show ?case by (cases "c = d"; cases "split_on d cs") auto
qed

text \<open>\<open>join d\<close> is what the key builders of the sources do with \<open>+\<close>; it inverts \<open>split_on d\<close>.\<close>

fun join :: "char \<Rightarrow> string list \<Rightarrow> string" where
  "join d [] = []"
| "join d [t] = t"
| "join d (t # u # ts) = t @ d # join d (u # ts)"

lemma join_Cons: "ts \<noteq> [] \<Longrightarrow> join d (t # ts) = t @ d # join d ts"
  by (cases ts) auto

lemma join_append: "ts \<noteq> [] \<Longrightarrow> us \<noteq> [] \<Longrightarrow> join d (ts @ us) = join d ts @ d # join d us"
  by (induction ts rule: induct_list012) (auto simp: join_Cons)

lemma join_eq_concat: "join d (t # ts) = t @ concat (map (\<lambda>u. d # u) ts)"
  by (induction ts arbitrary: t) auto

lemma split_on_join:
  "ts \<noteq> [] \<Longrightarrow> \<forall>t \<in> set ts. d \<notin> set t \<Longrightarrow> split_on d (join d ts) = ts"
  by (induction d ts rule: join.induct) (auto simp: split_on_no_delim split_on_append)

lemma join_split_on: "join d (split_on d s) = s"
proof (induction d s rule: split_on.induct)
  case (1 d)
  then show ?case by simp
next
  case (2 d c cs)
  show ?case
  proof (cases "c = d")
    case True
    then show ?thesis using "2.IH"(1) by (simp add: join_Cons)
  next
    case False
    obtain t ts where "split_on d cs = t # ts" by (cases "split_on d cs") auto
    with False "2.IH"(2) show ?thesis by (cases ts) auto
  qed
qed

lemma split_on_eq_join: "split_on d s = ts \<Longrightarrow> s = join d ts"
  using join_split_on by metis

lemma length_split_on_ge2: "d \<in> set s \<Longrightarrow> 2 \<le> length (split_on d s)"
proof (induction d s rule: split_on.induct)
  case (2 d c cs)
  then show ?case by (cases "split_on d cs") (auto simp: Suc_le_eq)
qed simp

subsection \<open>Searching and slicing\<close>

lemma index_of_ge_m1: "- 1 \<le> index_of s sub"
  by (induction s) (auto simp: Let_def)

lemma index_of_Nil_sub [simp]: "index_of s [] = 0"
  by (cases s) auto

lemma index_of_nonneg_iff: "0 \<le> index_of s sub \<longleftrightarrow> sublist sub s"
proof (induction s)
  case Nil
  then show ?case by auto
next
  case (Cons c cs)
  then show ?case by (auto simp: Let_def sublist_Cons_right)
qed

lemma go_contains_iff: "go_contains s sub \<longleftrightarrow> sublist sub s"
  by (simp add: go_contains_def index_of_nonneg_iff)

lemma index_of_neg_iff: "index_of s sub < 0 \<longleftrightarrow> index_of s sub = - 1"
  using index_of_ge_m1 [of s sub] by linarith

lemma index_of_m1_iff [simp]: "index_of s sub = - 1 \<longleftrightarrow> \<not> sublist sub s"
  using index_of_nonneg_iff [of s sub] index_of_neg_iff [of s sub] by linarith

lemma index_of_char: "c \<notin> set s \<Longrightarrow> index_of s [c] = - 1"
  using set_mono_sublist [of "[c]" s] by (simp only: index_of_m1_iff) auto

text \<open>The index returned is a place where \<open>sub\<close> occurs.\<close>

lemma index_of_split:
  "0 \<le> index_of s sub \<Longrightarrow> \<exists>u v. s = u @ sub @ v \<and> int (length u) = index_of s sub"
proof (induction s)
  case Nil
  then show ?case by (auto split: if_splits)
next
  case (Cons c cs)
  show ?case
  proof (cases "prefix sub (c # cs)")
    case True
    then show ?thesis by (auto simp: prefix_def)
  next
    case False
    with Cons.prems have ge: "0 \<le> index_of cs sub" and
      eq: "index_of (c # cs) sub = index_of cs sub + 1"
      by (auto simp: Let_def split: if_splits)
    obtain u v where "cs = u @ sub @ v" "int (length u) = index_of cs sub"
      using Cons.IH [OF ge] by blast
    then have "c # cs = (c # u) @ sub @ v" "int (length (c # u)) = index_of (c # cs) sub"
      using eq by simp_all
    then show ?thesis by blast
  qed
qed

lemma index_of_bound:
  assumes "0 \<le> index_of s sub"
  shows "index_of s sub + int (length sub) \<le> int (length s)"
proof -
  obtain u v where "s = u @ sub @ v" "int (length u) = index_of s sub"
    using index_of_split [OF assms] by blast
  then show ?thesis by (metis append_assoc le_add1 length_append of_nat_add of_nat_le_iff)
qed

text \<open>\<open>index_of\<close> gives the first place: nothing before the occurrence it reports starts one.\<close>

lemma index_of_append_first:
  assumes "sub \<noteq> []" "prefix sub b"
    and "\<And>u v. a = u @ v \<Longrightarrow> v \<noteq> [] \<Longrightarrow> \<not> prefix sub (v @ b)"
  shows "index_of (a @ b) sub = int (length a)"
  using assms
proof (induction a)
  case Nil
  then show ?case by (cases b) auto
next
  case (Cons x a)
  have "\<not> prefix sub (x # a @ b)" using Cons.prems(3) [of "[]" "x # a"] by simp
  moreover have "index_of (a @ b) sub = int (length a)"
  proof (rule Cons.IH [OF Cons.prems(1,2)])
    fix u v
    assume "a = u @ v" "v \<noteq> []"
    then show "\<not> prefix sub (v @ b)" using Cons.prems(3) [of "x # u" v] by simp
  qed
  ultimately show ?case by (simp add: Let_def)
qed

lemma slice_from_append [simp]: "slice_from (a @ b) (int (length a)) = Some b"
  by (simp add: slice_from_def)

lemma slice_from_None_iff: "slice_from s i = None \<longleftrightarrow> i < 0 \<or> int (length s) < i"
  by (auto simp: slice_from_def)

lemma go_nth_Some [go_simps]: "i < length xs \<Longrightarrow> go_nth xs i = Some (xs ! i)"
  by (simp add: go_nth_def)

lemma go_nth_None_iff: "go_nth xs i = None \<longleftrightarrow> length xs \<le> i"
  by (simp add: go_nth_def)

section \<open>Maps\<close>

type_synonym ('k, 'v) gomap = "('k \<times> 'v) list"

abbreviation gm_get :: "('k, 'v) gomap \<Rightarrow> 'k \<Rightarrow> 'v option" where
  "gm_get m k \<equiv> map_of m k"

abbreviation gm_put :: "'k \<Rightarrow> 'v \<Rightarrow> ('k, 'v) gomap \<Rightarrow> ('k, 'v) gomap" where
  "gm_put \<equiv> AList.update"

abbreviation gm_del :: "'k \<Rightarrow> ('k, 'v) gomap \<Rightarrow> ('k, 'v) gomap" where
  "gm_del \<equiv> AList.delete"

definition gm_ok :: "('k, 'v) gomap \<Rightarrow> bool" where
  "gm_ok m \<longleftrightarrow> distinct (map fst m)"

text \<open>A Go \<open>map[string]bool\<close> read as \<open>m[k]\<close>: the zero value when the key is absent.\<close>

definition gm_flag :: "('k, bool) gomap \<Rightarrow> 'k \<Rightarrow> bool" where
  "gm_flag m k = (gm_get m k = Some True)"

lemma gm_ok_Nil [simp]: "gm_ok []"
  by (simp add: gm_ok_def)

lemma gm_ok_put [simp]: "gm_ok m \<Longrightarrow> gm_ok (gm_put k v m)"
  by (simp add: gm_ok_def distinct_update)

lemma gm_ok_del [simp]: "gm_ok m \<Longrightarrow> gm_ok (gm_del k m)"
  by (simp add: gm_ok_def distinct_delete)

lemma gm_ok_filter [simp]: "gm_ok m \<Longrightarrow> gm_ok (filter P m)"
  by (simp add: gm_ok_def distinct_map_filter)

lemma gm_get_put [simp]: "map_of (AList.update k v m) = (map_of m)(k \<mapsto> v)"
  by (rule update_conv')

lemma gm_get_del [simp]: "map_of (AList.delete k m) = (map_of m)(k := None)"
  by (rule delete_conv')

lemma gm_get_filter_key:
  "map_of (filter (\<lambda>kv. P (fst kv)) m) k = (if P k then map_of m k else None)"
  by (induction m) auto

lemma gm_flag_Nil [simp]: "gm_flag [] k = False"
  by (simp add: gm_flag_def)

lemma gm_flag_put [simp]: "gm_flag (gm_put k v m) j = (if j = k then v else gm_flag m j)"
  by (simp add: gm_flag_def)

text \<open>For a computed option: the value and what holds of it.\<close>

lemma computed_Some: "(case x of Some p \<Rightarrow> P p | None \<Rightarrow> False) \<Longrightarrow> \<exists>p. x = Some p \<and> P p"
  by (simp split: option.splits)

end
