(* ===== verification/Json.thy ===== *)
theory Json
  imports GoLib
begin

text \<open>
  The part of Go's \<open>encoding/json\<close> that hmnfd relies on: \<open>json.Unmarshal\<close> of a request body or of
  a stored value (\<open>parse_json\<close>, then a decoder per struct), and \<open>json.Marshal\<close> (\<open>jprint\<close>,
  compact, with Go's HTML-safe escapes). Numbers keep their literal. Objects keep the order and the
  duplicates of their members. Go's limit of 10000 nested values is not modelled. Bytes above
  127 are copied as they are, which is right for text in valid UTF-8 (but for U+2028 and U+2029,
  which Go writes as escapes that read back the same); bytes that are not
  valid UTF-8 become U+FFFD in Go, so that what is said here of strings is said of valid ones.

  The parser spends one unit of fuel per nested value; \<open>jvalue_fuel\<close> shows that the length of
  the text is enough, and \<open>parse_jprint\<close> is the round trip every record codec rests on.
\<close>

section \<open>Values and lexer\<close>

datatype json =
    JNull
  | JBool bool
  | JNum string
  | JStr string
  | JArr "json list"
  | JObj "(string \<times> json) list"

definition is_ws :: "char \<Rightarrow> bool" where
  "is_ws c \<longleftrightarrow> c \<in> {CHR '' '', CHR 0x09, CHR 0x0A, CHR 0x0D}"

definition skip_ws :: "string \<Rightarrow> string" where
  "skip_ws s = dropWhile is_ws s"

definition expect :: "char \<Rightarrow> string \<Rightarrow> string option" where
  "expect d s = (case skip_ws s of [] \<Rightarrow> None | c # cs \<Rightarrow> if c = d then Some cs else None)"

definition is_digit :: "char \<Rightarrow> bool" where
  "is_digit c \<longleftrightarrow> CHR ''0'' \<le> c \<and> c \<le> CHR ''9''"

definition hex_val :: "char \<Rightarrow> nat option" where
  "hex_val c =
     (let n = of_char c in
      if 48 \<le> n \<and> n \<le> 57 then Some (n - 48)
      else if 97 \<le> n \<and> n \<le> 102 then Some (n - 87)
      else if 65 \<le> n \<and> n \<le> 70 then Some (n - 55)
      else None)"

definition utf8 :: "nat \<Rightarrow> string" where
  "utf8 n =
     (if n < 0x80 then [char_of n]
      else if n < 0x800 then [char_of (0xC0 + n div 64), char_of (0x80 + n mod 64)]
      else if n < 0x10000 then
        [char_of (0xE0 + n div 4096), char_of (0x80 + (n div 64) mod 64), char_of (0x80 + n mod 64)]
      else
        [char_of (0xF0 + n div 262144), char_of (0x80 + (n div 4096) mod 64),
         char_of (0x80 + (n div 64) mod 64), char_of (0x80 + n mod 64)])"

fun hex4 :: "string \<Rightarrow> (nat \<times> string) option" where
  "hex4 (a # b # c # d # r) =
     do { a' \<leftarrow> hex_val a; b' \<leftarrow> hex_val b; c' \<leftarrow> hex_val c; d' \<leftarrow> hex_val d;
          Some (((a' * 16 + b') * 16 + c') * 16 + d', r) }"
| "hex4 _ = None"

definition low_surrogate :: "string \<Rightarrow> (nat \<times> string) option" where
  "low_surrogate s =
     (case s of a # b # r \<Rightarrow>
        if a = CHR 0x5C \<and> b = CHR ''u'' then
          (case hex4 r of Some (v, r') \<Rightarrow>
             if 0xDC00 \<le> v \<and> v < 0xE000 then Some (v, r') else None
           | None \<Rightarrow> None)
        else None
      | _ \<Rightarrow> None)"

text \<open>\<open>\uXXXX\<close>: a surrogate pair is one code point, a lone surrogate is U+FFFD.\<close>

definition unicode_step :: "string \<Rightarrow> (string \<times> string) option" where
  "unicode_step s =
     (case hex4 s of None \<Rightarrow> None
      | Some (u, r) \<Rightarrow>
          if 0xD800 \<le> u \<and> u < 0xE000 then
            (case (if u < 0xDC00 then low_surrogate r else None) of
               Some (v, r') \<Rightarrow> Some (utf8 (0x10000 + (u - 0xD800) * 1024 + (v - 0xDC00)), r')
             | None \<Rightarrow> Some (utf8 0xFFFD, r))
          else Some (utf8 u, r))"

fun esc_step :: "string \<Rightarrow> (string \<times> string) option" where
  "esc_step [] = None"
| "esc_step (e # r) =
     (if e = CHR 0x22 \<or> e = CHR 0x5C \<or> e = CHR 0x2F then Some ([e], r)
      else if e = CHR ''b'' then Some ([CHR 0x08], r)
      else if e = CHR ''f'' then Some ([CHR 0x0C], r)
      else if e = CHR ''n'' then Some ([CHR 0x0A], r)
      else if e = CHR ''r'' then Some ([CHR 0x0D], r)
      else if e = CHR ''t'' then Some ([CHR 0x09], r)
      else if e = CHR ''u'' then unicode_step r
      else None)"

lemma hex4_length: "hex4 s = Some (n, r) \<Longrightarrow> length r < length s"
  by (induction s rule: hex4.induct) (auto split: bind_splits)

lemma low_surrogate_length: "low_surrogate s = Some (n, r) \<Longrightarrow> length r < length s"
  by (auto simp: low_surrogate_def dest!: hex4_length split: list.splits if_splits option.splits)

lemma unicode_step_length: "unicode_step s = Some (t, r) \<Longrightarrow> length r < length s"
  by (fastforce simp: unicode_step_def dest: hex4_length low_surrogate_length
      split: if_splits option.splits)

lemma esc_step_length: "esc_step s = Some (t, r) \<Longrightarrow> length r < length s"
  by (cases s) (auto dest!: unicode_step_length split: if_splits)

text \<open>The body of a string literal, up to its closing quote.\<close>

function lex_str :: "string \<Rightarrow> (string \<times> string) option" where
  "lex_str [] = None"
| "lex_str (c # cs) =
     (if c = CHR 0x22 then Some ([], cs)
      else if of_char c < (32 :: nat) then None
      else if c = CHR 0x5C then
        (case esc_step cs of None \<Rightarrow> None
         | Some (t, r) \<Rightarrow> (case lex_str r of None \<Rightarrow> None | Some (u, r') \<Rightarrow> Some (t @ u, r')))
      else (case lex_str cs of None \<Rightarrow> None | Some (u, r') \<Rightarrow> Some (c # u, r')))"
  by pat_completeness auto
termination
  by (relation "measure length") (auto dest: esc_step_length)

lemma lex_str_length: "lex_str s = Some (t, r) \<Longrightarrow> length r < length s"
proof (induction s arbitrary: t r rule: lex_str.induct)
  case (2 c cs)
  then show ?case
    by (fastforce dest: esc_step_length split: if_splits option.splits)
qed simp

definition int_part :: "string \<Rightarrow> (string \<times> string) option" where
  "int_part s =
     (case s of [] \<Rightarrow> None
      | c # cs \<Rightarrow>
          if c = CHR ''0'' then Some ([c], cs)
          else if is_digit c then Some (takeWhile is_digit s, dropWhile is_digit s)
          else None)"

definition digits1 :: "string \<Rightarrow> string \<Rightarrow> (string \<times> string) option" where
  "digits1 pre s =
     (if takeWhile is_digit s = [] then None
      else Some (pre @ takeWhile is_digit s, dropWhile is_digit s))"

definition frac_part :: "string \<Rightarrow> (string \<times> string) option" where
  "frac_part s =
     (case s of c # cs \<Rightarrow> if c = CHR ''.'' then digits1 [c] cs else Some ([], s)
      | [] \<Rightarrow> Some ([], []))"

definition exp_part :: "string \<Rightarrow> (string \<times> string) option" where
  "exp_part s =
     (case s of c # cs \<Rightarrow>
        if c = CHR ''e'' \<or> c = CHR ''E'' then
          (case cs of d # ds \<Rightarrow>
             if d = CHR ''+'' \<or> d = CHR ''-'' then digits1 [c, d] ds else digits1 [c] cs
           | [] \<Rightarrow> None)
        else Some ([], s)
      | [] \<Rightarrow> Some ([], []))"

definition lex_num :: "string \<Rightarrow> (string \<times> string) option" where
  "lex_num s =
     do { let (sg, s1) = (case s of c # cs \<Rightarrow> if c = CHR ''-'' then ([c], cs) else ([], s)
                          | [] \<Rightarrow> ([], []));
          (ip, s2) \<leftarrow> int_part s1;
          (fp, s3) \<leftarrow> frac_part s2;
          (ep, s4) \<leftarrow> exp_part s3;
          Some (sg @ ip @ fp @ ep, s4) }"

section \<open>Parser\<close>

definition strip :: "string \<Rightarrow> string \<Rightarrow> string option" where
  "strip w s = (if prefix w s then Some (drop (length w) s) else None)"

fun jvalue :: "nat \<Rightarrow> string \<Rightarrow> (json \<times> string) option"
  and jelems :: "nat \<Rightarrow> string \<Rightarrow> (json list \<times> string) option"
  and jmembers :: "nat \<Rightarrow> string \<Rightarrow> ((string \<times> json) list \<times> string) option"
  and jmember :: "nat \<Rightarrow> string \<Rightarrow> ((string \<times> json) \<times> string) option" where
  "jvalue 0 s = None"
| "jvalue (Suc n) s =
     (case skip_ws s of [] \<Rightarrow> None
      | c # cs \<Rightarrow>
          if c = CHR 0x22 then do { (t, r) \<leftarrow> lex_str cs; Some (JStr t, r) }
          else if c = CHR ''{'' then
            (case expect (CHR ''}'') cs of Some r \<Rightarrow> Some (JObj [], r)
             | None \<Rightarrow> do { (m, r) \<leftarrow> jmember n cs; (ms, r') \<leftarrow> jmembers n r;
                            Some (JObj (m # ms), r') })
          else if c = CHR ''['' then
            (case expect (CHR '']'') cs of Some r \<Rightarrow> Some (JArr [], r)
             | None \<Rightarrow> do { (v, r) \<leftarrow> jvalue n cs; (vs, r') \<leftarrow> jelems n r;
                            Some (JArr (v # vs), r') })
          else if c = CHR ''t'' then do { r \<leftarrow> strip ''true'' (c # cs); Some (JBool True, r) }
          else if c = CHR ''f'' then do { r \<leftarrow> strip ''false'' (c # cs); Some (JBool False, r) }
          else if c = CHR ''n'' then do { r \<leftarrow> strip ''null'' (c # cs); Some (JNull, r) }
          else do { (t, r) \<leftarrow> lex_num (c # cs); Some (JNum t, r) })"
| "jelems 0 s = None"
| "jelems (Suc n) s =
     (case skip_ws s of [] \<Rightarrow> None
      | c # cs \<Rightarrow>
          if c = CHR '']'' then Some ([], cs)
          else if c = CHR '','' then
            do { (v, r) \<leftarrow> jvalue n cs; (vs, r') \<leftarrow> jelems n r; Some (v # vs, r') }
          else None)"
| "jmembers 0 s = None"
| "jmembers (Suc n) s =
     (case skip_ws s of [] \<Rightarrow> None
      | c # cs \<Rightarrow>
          if c = CHR ''}'' then Some ([], cs)
          else if c = CHR '','' then
            do { (m, r) \<leftarrow> jmember n cs; (ms, r') \<leftarrow> jmembers n r; Some (m # ms, r') }
          else None)"
| "jmember 0 s = None"
| "jmember (Suc n) s =
     do { r0 \<leftarrow> expect (CHR 0x22) s; (k, r1) \<leftarrow> lex_str r0; r2 \<leftarrow> expect (CHR '':'') r1;
          (v, r3) \<leftarrow> jvalue n r2; Some ((k, v), r3) }"

definition parse_json :: "string \<Rightarrow> json option" where
  "parse_json s =
     (case jvalue (Suc (length s)) s of
        Some (j, r) \<Rightarrow> if skip_ws r = [] then Some j else None
      | None \<Rightarrow> None)"

subsection \<open>Every parser consumes input, and the fuel given is enough\<close>

lemma skip_ws_length: "length (skip_ws s) \<le> length s"
  by (simp add: skip_ws_def length_dropWhile_le)

lemma skip_ws_Cons_length: "skip_ws s = c # cs \<Longrightarrow> length cs < length s"
  using skip_ws_length [of s] by simp

lemma expect_length: "expect d s = Some r \<Longrightarrow> length r < length s"
  by (auto simp: expect_def dest: skip_ws_Cons_length split: list.splits if_splits)

lemma strip_length: "strip w s = Some r \<Longrightarrow> w \<noteq> [] \<Longrightarrow> length r < length s"
  by (auto simp: strip_def prefix_def split: if_splits)

lemma int_part_length: "int_part s = Some (t, r) \<Longrightarrow> length r < length s"
  by (auto simp: int_part_def le_imp_less_Suc length_dropWhile_le split: list.splits if_splits)

lemma digits1_length: "digits1 p s = Some (t, r) \<Longrightarrow> length r \<le> length s"
  by (auto simp: digits1_def length_dropWhile_le split: if_splits)

lemma frac_part_length: "frac_part s = Some (t, r) \<Longrightarrow> length r \<le> length s"
  by (auto simp: frac_part_def dest!: digits1_length split: list.splits if_splits)

lemma exp_part_length: "exp_part s = Some (t, r) \<Longrightarrow> length r \<le> length s"
  by (auto simp: exp_part_def dest!: digits1_length split: list.splits if_splits)

lemma lex_num_length: "lex_num s = Some (t, r) \<Longrightarrow> length r < length s"
  unfolding lex_num_def
  by (fastforce simp: Let_def dest: int_part_length frac_part_length exp_part_length
      split: list.splits if_splits bind_splits prod.splits)

lemmas lex_lengths = lex_str_length lex_num_length expect_length strip_length skip_ws_Cons_length

lemma jparse_length:
  "jvalue n s = Some (j, r) \<Longrightarrow> length r < length s"
  "jelems n s = Some (js, r) \<Longrightarrow> length r < length s"
  "jmembers n s = Some (ms, r) \<Longrightarrow> length r < length s"
  "jmember n s = Some (m, r) \<Longrightarrow> length r < length s"
proof (induction n s and n s and n s and n s arbitrary: j r and js r and ms r and m r
    rule: jvalue_jelems_jmembers_jmember.induct)
  case (2 n s)
  then show ?case
    by (fastforce dest: lex_lengths split: list.splits if_splits option.splits bind_splits)
next
  case (4 n s)
  then show ?case
    by (fastforce dest: lex_lengths split: list.splits if_splits option.splits bind_splits)
next
  case (6 n s)
  then show ?case
    by (fastforce dest: lex_lengths split: list.splits if_splits option.splits bind_splits)
next
  case (8 n s)
  then show ?case
    by (fastforce dest: lex_lengths split: list.splits if_splits option.splits bind_splits)
qed simp_all

text \<open>
  One level of nesting, for any two amounts of fuel left for the inner values: if the smaller one
  parses them, so does the other. The induction on the fuel then needs no case analysis.
\<close>

lemma jparse_enough_aux:
  "(\<forall>s j r m. jvalue n s = Some (j, r) \<longrightarrow> length s < m \<longrightarrow> jvalue m s = Some (j, r)) \<and>
   (\<forall>s js r m. jelems n s = Some (js, r) \<longrightarrow> length s < m \<longrightarrow> jelems m s = Some (js, r)) \<and>
   (\<forall>s ms r m. jmembers n s = Some (ms, r) \<longrightarrow> length s < m \<longrightarrow> jmembers m s = Some (ms, r)) \<and>
   (\<forall>s mb r m. jmember n s = Some (mb, r) \<longrightarrow> length s < m \<longrightarrow> jmember m s = Some (mb, r))"
proof (induction n)
  case 0
  then show ?case by simp
next
  case (Suc n)
  then have V: "\<And>s j r m. jvalue n s = Some (j, r) \<Longrightarrow> length s < m \<Longrightarrow> jvalue m s = Some (j, r)"
    and E: "\<And>s js r m. jelems n s = Some (js, r) \<Longrightarrow> length s < m \<Longrightarrow> jelems m s = Some (js, r)"
    and M: "\<And>s ms r m. jmembers n s = Some (ms, r) \<Longrightarrow> length s < m \<Longrightarrow> jmembers m s = Some (ms, r)"
    and B: "\<And>s mb r m. jmember n s = Some (mb, r) \<Longrightarrow> length s < m \<Longrightarrow> jmember m s = Some (mb, r)"
    by blast+
  have "jvalue m s = Some (j, r)" if p: "jvalue (Suc n) s = Some (j, r)" "length s < m" for s j r m
  proof -
    obtain m' where m: "m = Suc m'" using p(2) by (cases m) auto
    obtain c cs where cs: "skip_ws s = c # cs" using p(1) by (cases "skip_ws s") auto
    have len: "length cs < m'" using skip_ws_Cons_length [OF cs] p(2) m by simp
    show ?thesis
    proof (cases "c = CHR ''{'' \<and> expect (CHR ''}'') cs = None")
      case True
      then obtain mb r1 ms where a: "jmember n cs = Some (mb, r1)" "jmembers n r1 = Some (ms, r)"
        "j = JObj (mb # ms)" using p(1) cs by (auto split: bind_splits)
      have "length r1 < m'" using jparse_length(4) [OF a(1)] len by simp
      then show ?thesis using True cs m B [OF a(1) len] M [OF a(2)] a(3) by simp
    next
      case False
      show ?thesis
      proof (cases "c = CHR ''['' \<and> expect (CHR '']'') cs = None")
        case True
        then obtain v r1 vs where a: "jvalue n cs = Some (v, r1)" "jelems n r1 = Some (vs, r)"
          "j = JArr (v # vs)" using p(1) cs by (auto split: bind_splits)
        have "length r1 < m'" using jparse_length(1) [OF a(1)] len by simp
        then show ?thesis using True cs m V [OF a(1) len] E [OF a(2)] a(3) by simp
      next
        case False2: False
        have "jvalue (Suc m') s = jvalue (Suc n) s"
          using cs False False2
          by (cases "expect (CHR ''}'') cs"; cases "expect (CHR '']'') cs") auto
        then show ?thesis using p(1) m by simp
      qed
    qed
  qed
  moreover have "jelems m s = Some (js, r)"
    if p: "jelems (Suc n) s = Some (js, r)" "length s < m" for s js r m
  proof -
    obtain m' where m: "m = Suc m'" using p(2) by (cases m) auto
    obtain c cs where cs: "skip_ws s = c # cs" using p(1) by (cases "skip_ws s") auto
    have len: "length cs < m'" using skip_ws_Cons_length [OF cs] p(2) m by simp
    show ?thesis
    proof (cases "c = CHR '','' ")
      case True
      then obtain v r1 vs where a: "jvalue n cs = Some (v, r1)" "jelems n r1 = Some (vs, r)"
        "js = v # vs" using p(1) cs by (auto split: bind_splits)
      have "length r1 < m'" using jparse_length(1) [OF a(1)] len by simp
      then show ?thesis using True cs m V [OF a(1) len] E [OF a(2)] a(3) by simp
    next
      case False
      then show ?thesis using p(1) cs m by (simp split: if_splits)
    qed
  qed
  moreover have "jmembers m s = Some (ms, r)"
    if p: "jmembers (Suc n) s = Some (ms, r)" "length s < m" for s ms r m
  proof -
    obtain m' where m: "m = Suc m'" using p(2) by (cases m) auto
    obtain c cs where cs: "skip_ws s = c # cs" using p(1) by (cases "skip_ws s") auto
    have len: "length cs < m'" using skip_ws_Cons_length [OF cs] p(2) m by simp
    show ?thesis
    proof (cases "c = CHR '','' ")
      case True
      then obtain mb r1 ms' where a: "jmember n cs = Some (mb, r1)" "jmembers n r1 = Some (ms', r)"
        "ms = mb # ms'" using p(1) cs by (auto split: bind_splits)
      have "length r1 < m'" using jparse_length(4) [OF a(1)] len by simp
      then show ?thesis using True cs m B [OF a(1) len] M [OF a(2)] a(3) by simp
    next
      case False
      then show ?thesis using p(1) cs m by (simp split: if_splits)
    qed
  qed
  moreover have "jmember m s = Some (mb, r)"
    if p: "jmember (Suc n) s = Some (mb, r)" "length s < m" for s mb r m
  proof -
    obtain m' where m: "m = Suc m'" using p(2) by (cases m) auto
    from p(1) obtain r0 k r1 r2 v where steps:
      "expect (CHR 0x22) s = Some r0" "lex_str r0 = Some (k, r1)" "expect (CHR '':'') r1 = Some r2"
      "jvalue n r2 = Some (v, r)" "mb = (k, v)"
      by (auto split: bind_splits)
    have "length r2 < m'"
      using expect_length [OF steps(1)] lex_str_length [OF steps(2)] expect_length [OF steps(3)]
        p(2) m by simp
    then have "jvalue m' r2 = Some (v, r)" by (rule V [OF steps(4)])
    then show ?thesis using steps m by simp
  qed
  ultimately show ?case by blast
qed

lemma jvalue_enough: "jvalue n s = Some (j, r) \<Longrightarrow> length s < m \<Longrightarrow> jvalue m s = Some (j, r)"
  using jparse_enough_aux by blast

lemma jvalue_fuel:
  assumes "length s < n" "length s < m"
  shows "jvalue n s = jvalue m s"
proof (cases "jvalue n s")
  case None
  have "jvalue m s = None"
  proof (cases "jvalue m s")
    case (Some x)
    then have "jvalue n s = Some x" using jvalue_enough [of m s _ _ n] assms(1) by (cases x) blast
    with None show ?thesis by simp
  qed
  with None show ?thesis by simp
next
  case (Some x)
  then have "jvalue m s = Some x" using jvalue_enough [of n s _ _ m] assms(2) by (cases x) blast
  with Some show ?thesis by simp
qed

section \<open>Printer\<close>

definition hex_digit :: "nat \<Rightarrow> char" where
  "hex_digit n = (if n < 10 then char_of (48 + n) else char_of (87 + n))"

definition esc_char :: "char \<Rightarrow> string" where
  "esc_char c =
     (if c = CHR 0x22 \<or> c = CHR 0x5C then [CHR 0x5C, c]
      else if c = CHR 0x08 then [CHR 0x5C, CHR ''b'']
      else if c = CHR 0x0C then [CHR 0x5C, CHR ''f'']
      else if c = CHR 0x0A then [CHR 0x5C, CHR ''n'']
      else if c = CHR 0x0D then [CHR 0x5C, CHR ''r'']
      else if c = CHR 0x09 then [CHR 0x5C, CHR ''t'']
      else if of_char c < (32 :: nat) \<or> c \<in> {CHR ''<'', CHR ''>'', CHR ''&''} then
        [CHR 0x5C, CHR ''u'', CHR ''0'', CHR ''0'',
         hex_digit (of_char c div 16), hex_digit (of_char c mod 16)]
      else [c])"

definition jquote :: "string \<Rightarrow> string" where
  "jquote s = CHR 0x22 # concat (map esc_char s) @ [CHR 0x22]"

fun jprint :: "json \<Rightarrow> string"
  and jprint_elems :: "json list \<Rightarrow> string"
  and jprint_members :: "(string \<times> json) list \<Rightarrow> string" where
  "jprint JNull = ''null''"
| "jprint (JBool b) = (if b then ''true'' else ''false'')"
| "jprint (JNum t) = t"
| "jprint (JStr s) = jquote s"
| "jprint (JArr []) = ''[]''"
| "jprint (JArr (v # vs)) = CHR ''['' # jprint v @ jprint_elems vs"
| "jprint (JObj []) = ''{}''"
| "jprint (JObj ((k, v) # ms)) = CHR ''{'' # jquote k @ CHR '':'' # jprint v @ jprint_members ms"
| "jprint_elems [] = '']''"
| "jprint_elems (v # vs) = CHR '','' # jprint v @ jprint_elems vs"
| "jprint_members [] = ''}''"
| "jprint_members ((k, v) # ms) = CHR '','' # jquote k @ CHR '':'' # jprint v @ jprint_members ms"

subsection \<open>Round trip\<close>

lemma hex_val_digit: "n < 16 \<Longrightarrow> hex_val (hex_digit n) = Some n"
  by (simp add: hex_val_def hex_digit_def Let_def)

lemma lex_str_esc: "lex_str (esc_char c @ x) =
    (case lex_str x of None \<Rightarrow> None | Some (u, r) \<Rightarrow> Some (c # u, r))"
proof (cases "c \<in> {CHR 0x22, CHR 0x5C, CHR 0x08, CHR 0x0C, CHR 0x0A, CHR 0x0D, CHR 0x09}")
  case True
  then show ?thesis by (elim insertE emptyE) (simp_all add: esc_char_def split: option.split)
next
  case False
  show ?thesis
  proof (cases "of_char c < (32 :: nat) \<or> c \<in> {CHR ''<'', CHR ''>'', CHR ''&''}")
    case True
    let ?n = "of_char c :: nat"
    have lt: "?n < 128" using True by auto
    have "hex4 (CHR ''0'' # CHR ''0'' # hex_digit (?n div 16) # hex_digit (?n mod 16) # x) =
        Some (?n, x)"
      using lt by (simp add: hex_val_digit hex_val_def [of "CHR ''0''"] Let_def)
    moreover have "utf8 ?n = [c]" using lt by (simp add: utf8_def)
    ultimately have "unicode_step
        (CHR ''0'' # CHR ''0'' # hex_digit (?n div 16) # hex_digit (?n mod 16) # x) = Some ([c], x)"
      using lt by (simp add: unicode_step_def del: hex4.simps)
    with True False show ?thesis by (auto simp: esc_char_def split: option.splits)
  next
    case False2: False
    with False show ?thesis by (auto simp: esc_char_def split: option.splits)
  qed
qed

lemma lex_str_jquote: "lex_str (concat (map esc_char s) @ CHR 0x22 # r) = Some (s, r)"
  by (induction s) (simp_all add: lex_str_esc)

text \<open>What can follow a number in a printed value.\<close>

definition delim :: "string \<Rightarrow> bool" where
  "delim r \<longleftrightarrow> r = [] \<or> hd r \<in> {CHR '','', CHR '']'', CHR ''}''}"

lemma delim_digits:
  assumes "delim r"
  shows "takeWhile is_digit (s @ r) = takeWhile is_digit s"
    and "dropWhile is_digit (s @ r) = dropWhile is_digit s @ r"
proof -
  have r: "takeWhile is_digit r = [] \<and> dropWhile is_digit r = r"
    using assms by (cases r) (auto simp: delim_def is_digit_def less_eq_char_def)
  show "takeWhile is_digit (s @ r) = takeWhile is_digit s" using r by (induction s) auto
  show "dropWhile is_digit (s @ r) = dropWhile is_digit s @ r" using r by (induction s) auto
qed

lemma delim_head: "delim (c # r) \<Longrightarrow> c \<in> {CHR '','', CHR '']'', CHR ''}''}"
  by (simp add: delim_def)

lemma int_part_delim: "delim r \<Longrightarrow> int_part (s @ r) = map_option (\<lambda>(t, u). (t, u @ r)) (int_part s)"
proof (cases s)
  case Nil
  then show "delim r \<Longrightarrow> ?thesis"
    by (cases r) (auto simp: int_part_def is_digit_def less_eq_char_def dest!: delim_head)
next
  case (Cons c cs)
  assume "delim r"
  then show ?thesis using Cons delim_digits [of r "c # cs"] by (auto simp: int_part_def)
qed

lemma digits1_delim:
  "delim r \<Longrightarrow> digits1 p (s @ r) = map_option (\<lambda>(t, u). (t, u @ r)) (digits1 p s)"
  by (simp add: digits1_def delim_digits)

lemma frac_part_delim: "delim r \<Longrightarrow> frac_part (s @ r) = map_option (\<lambda>(t, u). (t, u @ r)) (frac_part s)"
  by (cases s; cases r) (auto simp: frac_part_def digits1_delim option.map_id dest: delim_head)

lemma exp_part_delim:
  assumes "delim r"
  shows "exp_part (s @ r) = map_option (\<lambda>(t, u). (t, u @ r)) (exp_part s)"
proof (cases s)
  case Nil
  then show ?thesis using assms by (cases r) (auto simp: exp_part_def dest: delim_head)
next
  case (Cons c cs)
  have none: "digits1 q r = None" for q
    using digits1_delim [OF assms, of q "[]"] by (simp add: digits1_def)
  show ?thesis
  proof (cases cs)
    case Nil2: Nil
    show ?thesis
    proof (cases r)
      case Nil
      then show ?thesis by (cases "exp_part s") auto
    next
      case (Cons d ds)
      then have "d \<notin> {CHR ''+'', CHR ''-''}" using delim_head assms by fastforce
      then show ?thesis using Cons \<open>s = c # cs\<close> Nil2 none [of "[c]"] by (auto simp: exp_part_def)
    qed
  next
    case (Cons d ds)
    then show ?thesis using \<open>s = c # cs\<close> digits1_delim [OF assms, of _ "d # ds"]
        digits1_delim [OF assms, of _ ds] by (auto simp: exp_part_def)
  qed
qed

definition num_lit :: "string \<Rightarrow> bool" where
  "num_lit t \<longleftrightarrow> lex_num t = Some (t, [])"

lemma lex_num_delim:
  assumes "num_lit t" "delim r"
  shows "lex_num (t @ r) = Some (t, r)"
proof -
  obtain c cs where t: "t = c # cs" using assms(1) by (cases t) (auto simp: num_lit_def lex_num_def int_part_def)
  define sg s1 where "sg = (if c = CHR ''-'' then [c] else [])"
    and "s1 = (if c = CHR ''-'' then cs else t)"
  obtain ip s2 fp s3 ep where steps: "int_part s1 = Some (ip, s2)" "frac_part s2 = Some (fp, s3)"
    "exp_part s3 = Some (ep, [])" "sg @ ip @ fp @ ep = t"
    using assms(1) t by (auto simp: num_lit_def lex_num_def sg_def s1_def split: bind_splits if_splits)
  have "int_part (s1 @ r) = Some (ip, s2 @ r)" "frac_part (s2 @ r) = Some (fp, s3 @ r)"
    "exp_part (s3 @ r) = Some (ep, r)"
    using steps int_part_delim frac_part_delim exp_part_delim assms(2) by fastforce+
  then show ?thesis using t steps(4) by (auto simp: lex_num_def sg_def s1_def)
qed

lemma num_lit_head:
  assumes "num_lit t"
  shows "\<exists>c cs. t = c # cs \<and> (c = CHR ''-'' \<or> is_digit c)"
proof (cases t)
  case Nil
  then show ?thesis using assms by (simp add: num_lit_def lex_num_def int_part_def)
next
  case (Cons c cs)
  then show ?thesis using assms
    by (auto simp: num_lit_def lex_num_def int_part_def is_digit_def split: if_splits)
qed

fun jok :: "json \<Rightarrow> bool" where
  "jok (JNum t) = num_lit t"
| "jok (JArr js) = (\<forall>j \<in> set js. jok j)"
| "jok (JObj ms) = (\<forall>m \<in> set ms. jok (snd m))"
| "jok _ = True"

lemma skip_ws_non_ws: "\<not> is_ws c \<Longrightarrow> skip_ws (c # cs) = c # cs"
  by (simp add: skip_ws_def)

lemma expect_hit: "\<not> is_ws d \<Longrightarrow> expect d (d # cs) = Some cs"
  by (simp add: expect_def skip_ws_non_ws)

lemma expect_miss: "\<not> is_ws c \<Longrightarrow> c \<noteq> d \<Longrightarrow> expect d (c # cs) = None"
  by (simp add: expect_def skip_ws_non_ws)

lemma ws_punct [simp]:
  "\<not> is_ws (CHR 0x22)" "\<not> is_ws (CHR '':'')" "\<not> is_ws (CHR '','')" "\<not> is_ws (CHR ''{'')"
  "\<not> is_ws (CHR ''}'')" "\<not> is_ws (CHR ''['')" "\<not> is_ws (CHR '']'')" "\<not> is_ws (CHR ''t'')"
  "\<not> is_ws (CHR ''f'')" "\<not> is_ws (CHR ''n'')" "\<not> is_ws (CHR ''-'')"
  by (simp_all add: is_ws_def)

lemma digit_not_ws: "is_digit c \<Longrightarrow> \<not> is_ws c"
  by (auto simp: is_digit_def is_ws_def less_eq_char_def)

lemma delim_tails [simp]: "delim (CHR '','' # r)" "delim (CHR '']'' # r)" "delim (CHR ''}'' # r)"
  by (simp_all add: delim_def)

lemma delim_print [simp]: "delim (jprint_elems js @ r)" "delim (jprint_members ms @ r)"
  by (cases js; simp) (cases ms; auto)

text \<open>The first character of a printed value is never white space, nor a closing bracket.\<close>

lemma jprint_head:
  assumes "jok j"
  shows "\<exists>c cs. jprint j = c # cs \<and> \<not> is_ws c \<and> c \<noteq> CHR '']'' \<and> c \<noteq> CHR ''}''"
proof (cases j)
  case (JNum t)
  then obtain c cs where "t = c # cs" "c = CHR ''-'' \<or> is_digit c"
    using assms num_lit_head [of t] by auto
  then show ?thesis using JNum by (auto simp: digit_not_ws is_digit_def less_eq_char_def)
next
  case (JArr js)
  then show ?thesis by (cases js) auto
next
  case (JObj ms)
  then show ?thesis by (cases ms) auto
qed (auto simp: jquote_def)

lemma jvalue_num:
  assumes "num_lit t" "delim r"
  shows "jvalue (Suc n) (t @ r) = Some (JNum t, r)"
proof -
  obtain c cs where t: "t = c # cs" "c = CHR ''-'' \<or> is_digit c" using num_lit_head assms by blast
  have "c \<notin> {CHR 0x22, CHR ''{'', CHR ''['', CHR ''t'', CHR ''f'', CHR ''n''} \<and> \<not> is_ws c"
    using t(2) digit_not_ws by (auto simp: is_digit_def less_eq_char_def)
  then show ?thesis using lex_num_delim [OF assms] t(1) by (simp add: skip_ws_non_ws)
qed

lemma expect_jprint:
  assumes "jok j" "d = CHR '']'' \<or> d = CHR ''}''"
  shows "expect d (jprint j @ r) = None"
  using jprint_head [OF assms(1)] assms(2) by (auto simp: expect_miss)

lemma jmember_print:
  "jvalue m (jprint v @ x) = Some (v, x) \<Longrightarrow>
   jmember (Suc m) (jquote k @ CHR '':'' # jprint v @ x) = Some ((k, v), x)"
  by (simp add: jquote_def expect_hit lex_str_jquote)

lemma jparse_jprint:
  "jok j \<Longrightarrow> delim r \<Longrightarrow> length (jprint j) \<le> n \<Longrightarrow> jvalue n (jprint j @ r) = Some (j, r)"
  "\<forall>j \<in> set js. jok j \<Longrightarrow> length (jprint_elems js) \<le> n \<Longrightarrow>
     jelems n (jprint_elems js @ r) = Some (js, r)"
  "\<forall>m \<in> set ms. jok (snd m) \<Longrightarrow> length (jprint_members ms) \<le> n \<Longrightarrow>
     jmembers n (jprint_members ms @ r) = Some (ms, r)"
proof (induction j and js and ms arbitrary: n r and n r and n r
    rule: jprint_jprint_elems_jprint_members.induct)
  case 1
  then show ?case by (cases n) (auto simp: skip_ws_non_ws strip_def)
next
  case (2 b)
  then show ?case by (cases n) (auto simp: skip_ws_non_ws strip_def split: if_splits)
next
  case (3 t)
  then show ?case using num_lit_head [of t] by (cases n) (auto simp del: jvalue.simps simp: jvalue_num)
next
  case (4 s)
  then show ?case
    by (cases n) (auto simp: jquote_def skip_ws_non_ws lex_str_jquote)
next
  case 5
  then show ?case by (cases n) (auto simp: skip_ws_non_ws expect_hit)
next
  case (6 v vs)
  obtain m where n: "n = Suc m" using "6.prems" by (cases n) auto
  have "expect (CHR '']'') (jprint v @ jprint_elems vs @ r) = None"
    using "6.prems" by (intro expect_jprint) auto
  then show ?case using "6.IH" "6.prems" n by (simp add: skip_ws_non_ws)
next
  case 7
  then show ?case by (cases n) (auto simp: skip_ws_non_ws expect_hit)
next
  case (8 k v ms)
  obtain m1 m where n: "n = Suc m1" and m1: "m1 = Suc m" using "8.prems"
    by (cases n; cases "n - 1") (auto simp: jquote_def)
  have "jvalue m (jprint v @ jprint_members ms @ r) = Some (v, jprint_members ms @ r)"
    by (rule "8.IH"(1)) (use "8.prems" n m1 in auto)
  then have "jmember m1 (jquote k @ CHR '':'' # jprint v @ jprint_members ms @ r) =
      Some ((k, v), jprint_members ms @ r)"
    unfolding m1 by (rule jmember_print)
  moreover have "expect (CHR ''}'') (jquote k @ CHR '':'' # jprint v @ jprint_members ms @ r) = None"
    by (simp add: jquote_def expect_miss)
  moreover have "jmembers m1 (jprint_members ms @ r) = Some (ms, r)"
    by (rule "8.IH"(2)) (use "8.prems" n m1 in auto)
  ultimately show ?case using n by (simp add: skip_ws_non_ws)
next
  case 9
  then show ?case by (cases n) (auto simp: skip_ws_non_ws)
next
  case (10 v vs)
  obtain m where n: "n = Suc m" using "10.prems" by (cases n) auto
  then show ?case using "10.IH" "10.prems" by (simp add: skip_ws_non_ws)
next
  case 11
  then show ?case by (cases n) (auto simp: skip_ws_non_ws)
next
  case (12 k v ms)
  obtain m1 m where n: "n = Suc m1" and m1: "m1 = Suc m" using "12.prems"
    by (cases n; cases "n - 1") (auto simp: jquote_def)
  have "jvalue m (jprint v @ jprint_members ms @ r) = Some (v, jprint_members ms @ r)"
    by (rule "12.IH"(1)) (use "12.prems" n m1 in auto)
  then have "jmember m1 (jquote k @ CHR '':'' # jprint v @ jprint_members ms @ r) =
      Some ((k, v), jprint_members ms @ r)"
    unfolding m1 by (rule jmember_print)
  moreover have "jmembers m1 (jprint_members ms @ r) = Some (ms, r)"
    by (rule "12.IH"(2)) (use "12.prems" n m1 in auto)
  ultimately show ?case using n by (simp add: skip_ws_non_ws)
qed

theorem parse_jprint: "jok j \<Longrightarrow> parse_json (jprint j) = Some j"
  using jparse_jprint(1) [of j "[]" "Suc (length (jprint j))"]
  by (simp add: parse_json_def delim_def skip_ws_def)

section \<open>Decoding into structs\<close>

text \<open>
  \<open>json.Unmarshal\<close> into a struct visits the members in order; a member sets the field its key
  names up to case, an unknown key is skipped, a \<open>null\<close> leaves a string or a number alone and
  makes a slice or a pointer nil. A value of the wrong type is an error, reported at the end. A
  decoder returns whether there was such an error, and the field's new value. Nil and empty slices
  are both \<open>[]\<close>.
\<close>

fun dec_string :: "json \<Rightarrow> string \<Rightarrow> bool \<times> string" where
  "dec_string (JStr s) _ = (False, s)"
| "dec_string JNull old = (False, old)"
| "dec_string _ old = (True, old)"

fun dec_strings :: "json \<Rightarrow> string list \<Rightarrow> bool \<times> string list" where
  "dec_strings (JArr js) _ =
     (\<exists>j \<in> set js. fst (dec_string j []), map (\<lambda>j. snd (dec_string j [])) js)"
| "dec_strings JNull _ = (False, [])"
| "dec_strings _ old = (True, old)"

fun dec_bool_ptr :: "json \<Rightarrow> bool option \<Rightarrow> bool \<times> bool option" where
  "dec_bool_ptr (JBool b) _ = (False, Some b)"
| "dec_bool_ptr JNull _ = (False, None)"
| "dec_bool_ptr _ old = (True, old)"

text \<open>Sets a field of a record with a decoder of its type.\<close>

definition dec_into :: "(json \<Rightarrow> 'f \<Rightarrow> bool \<times> 'f) \<Rightarrow> ('r \<Rightarrow> 'f) \<Rightarrow> ('f \<Rightarrow> 'r \<Rightarrow> 'r) \<Rightarrow> json \<Rightarrow> 'r \<Rightarrow> bool \<times> 'r" where
  "dec_into d get put j r = (let (e, x) = d j (get r) in (e, put x r))"

type_synonym 'r field_table = "(string \<times> (json \<Rightarrow> 'r \<Rightarrow> bool \<times> 'r)) list"

text \<open>\<open>tbl\<close> lists the fields by their lower-case names.\<close>

fun dec_members :: "'r field_table \<Rightarrow> (string \<times> json) list \<Rightarrow> bool \<times> 'r \<Rightarrow> bool \<times> 'r" where
  "dec_members tbl [] acc = acc"
| "dec_members tbl ((k, v) # ms) (e, r) =
     (case map_of tbl (to_lower k) of
        None \<Rightarrow> dec_members tbl ms (e, r)
      | Some d \<Rightarrow> (case d v r of (e', r') \<Rightarrow> dec_members tbl ms (e \<or> e', r')))"

definition dec_struct :: "'r field_table \<Rightarrow> 'r \<Rightarrow> json \<Rightarrow> 'r option" where
  "dec_struct tbl zero j =
     (case j of
        JObj ms \<Rightarrow> (case dec_members tbl ms (False, zero) of (e, r) \<Rightarrow> if e then None else Some r)
      | JNull \<Rightarrow> Some zero
      | _ \<Rightarrow> None)"

definition unmarshal :: "'r field_table \<Rightarrow> 'r \<Rightarrow> string \<Rightarrow> 'r option" where
  "unmarshal tbl zero s = (case parse_json s of None \<Rightarrow> None | Some j \<Rightarrow> dec_struct tbl zero j)"

lemma dec_strings_JStr [simp]: "dec_strings (JArr (map JStr xs)) old = (False, xs)"
  by (auto simp: comp_def)

lemma unmarshal_jprint: "jok j \<Longrightarrow> unmarshal tbl zero (jprint j) = dec_struct tbl zero j"
  by (simp add: unmarshal_def parse_jprint)

text \<open>\<open>json.Unmarshal\<close> into a \<open>map[string]interface{}\<close>.\<close>

definition unmarshal_generic :: "string \<Rightarrow> (string \<times> json) list option" where
  "unmarshal_generic s =
     (case parse_json s of Some (JObj ms) \<Rightarrow> Some ms | Some JNull \<Rightarrow> Some [] | _ \<Rightarrow> None)"

section \<open>Codecs\<close>

text \<open>
  What the components that store records in the key/value store rely on: \<open>Unmarshal\<close> reads back
  what \<open>Marshal\<close> wrote.
\<close>

locale codec =
  fixes enc :: "'a \<Rightarrow> string" and dec :: "string \<Rightarrow> 'a option" and wf :: "'a \<Rightarrow> bool"
  assumes dec_enc: "wf x \<Longrightarrow> dec (enc x) = Some x"
begin

lemma enc_inj: "wf x \<Longrightarrow> wf y \<Longrightarrow> enc x = enc y \<longleftrightarrow> x = y"
  by (metis dec_enc option.inject)

lemma dec_update:
  "wf x \<Longrightarrow> (\<lambda>k. Option.bind ((m(k' \<mapsto> enc x)) k) dec) = (\<lambda>k. Option.bind (m k) dec)(k' \<mapsto> x)"
  by (auto simp: dec_enc)

end

end
