(* ===== verification/KvStore.thy ===== *)
theory KvStore
  imports Json
begin

text \<open>
  The key/value store behind \<open>kvHandle\<close> (interface \<open>hmetcd.Kvi\<close>). The contents and the operations
  are those of the memory back end (\<open>Kvs_mem\<close> in vendor/.../hms-hmetcd/kvs_etcd.go), each as one
  step. With etcd a call is atomic; in memory it is so only as long as no range is read beside a write,
  which the theory MemStore shows, where the calls are taken apart. With etcd
  behind the interface a call may fail; \<open>kv_script\<close> says what the calls to come will do, in
  order, a call beyond its end succeeds. A call that fails returns a non-nil error; a failed write
  may have been lost (\<open>KV_lost\<close>) or applied, when only the answer was late (\<open>KV_late\<close>). Every
  statement below holds for every script, so for every behaviour of the store. \<open>kv_errmsg\<close> is the
  text of the errors the store returns.

  The locale \<open>kv_iface\<close> is what the rest of the program relies on, \<open>kv_records\<close> adds a codec
  for the values. Both are interpreted on the model's store at the end.
\<close>

section \<open>Operations\<close>

datatype kv_outcome = KV_ok | KV_lost | KV_late

datatype kv_error = KvError

record kvs =
  kv_mem :: "(string, string) gomap"
  kv_script :: "kv_outcome list"
  kv_errmsg :: string

definition kv_next :: "kvs \<Rightarrow> kv_outcome \<times> kvs" where
  "kv_next s =
     (case kv_script s of [] \<Rightarrow> (KV_ok, s) | x # xs \<Rightarrow> (x, s\<lparr>kv_script := xs\<rparr>))"

definition kvGet :: "string \<Rightarrow> kvs \<Rightarrow> (kv_error + string option) \<times> kvs" where
  "kvGet k s =
     (case kv_next s of (x, s') \<Rightarrow>
        (if x = KV_ok then Inr (gm_get (kv_mem s) k) else Inl KvError, s'))"

definition kvGetRange :: "string \<Rightarrow> string \<Rightarrow> kvs \<Rightarrow> (kv_error + (string \<times> string) list) \<times> kvs" where
  "kvGetRange lo hi s =
     (case kv_next s of (x, s') \<Rightarrow>
        (if x = KV_ok then Inr (filter (\<lambda>kv. lo \<le> fst kv \<and> fst kv \<le> hi) (kv_mem s))
         else Inl KvError, s'))"

text \<open>\<open>Store\<close> and \<open>Delete\<close> return whether the Go function returned an error.\<close>

definition kvStore :: "string \<Rightarrow> string \<Rightarrow> kvs \<Rightarrow> bool \<times> kvs" where
  "kvStore k v s =
     (case kv_next s of (x, s') \<Rightarrow>
        (x \<noteq> KV_ok, if x = KV_lost then s' else s'\<lparr>kv_mem := gm_put k v (kv_mem s)\<rparr>))"

definition kvDelete :: "string \<Rightarrow> kvs \<Rightarrow> bool \<times> kvs" where
  "kvDelete k s =
     (case kv_next s of (x, s') \<Rightarrow>
        (x \<noteq> KV_ok, if x = KV_lost then s' else s'\<lparr>kv_mem := gm_del k (kv_mem s)\<rparr>))"

definition kv_content :: "kvs \<Rightarrow> string \<rightharpoonup> string" where
  "kv_content s = map_of (kv_mem s)"

definition kv_ok :: "kvs \<Rightarrow> bool" where
  "kv_ok s \<longleftrightarrow> gm_ok (kv_mem s)"

text \<open>No call to come fails.\<close>

definition kv_reliable :: "kvs \<Rightarrow> bool" where
  "kv_reliable s \<longleftrightarrow> set (kv_script s) \<subseteq> {KV_ok}"

definition kv_open :: "kvs" where
  "kv_open = \<lparr>kv_mem = [], kv_script = [], kv_errmsg = []\<rparr>"

section \<open>The interface\<close>

locale kv_iface =
  fixes content :: "'s \<Rightarrow> string \<rightharpoonup> string"
    and ok :: "'s \<Rightarrow> bool"
    and reliable :: "'s \<Rightarrow> bool"
    and kget :: "string \<Rightarrow> 's \<Rightarrow> ('e + string option) \<times> 's"
    and krange :: "string \<Rightarrow> string \<Rightarrow> 's \<Rightarrow> ('e + (string \<times> string) list) \<times> 's"
    and kput :: "string \<Rightarrow> string \<Rightarrow> 's \<Rightarrow> bool \<times> 's"
    and kdel :: "string \<Rightarrow> 's \<Rightarrow> bool \<times> 's"
  assumes get_val: "kget k s = (Inr w, s') \<Longrightarrow> w = content s k"
    and get_frame: "content (snd (kget k s)) = content s"
    and range_val: "ok s \<Longrightarrow> krange lo hi s = (Inr kvs, s') \<Longrightarrow>
      distinct (map fst kvs) \<and> map_of kvs = content s |` {k. lo \<le> k \<and> k \<le> hi}"
    and range_frame: "content (snd (krange lo hi s)) = content s"
    and store_ok: "kput k v s = (False, s') \<Longrightarrow> content s' = (content s)(k \<mapsto> v)"
    and store_err: "kput k v s = (True, s') \<Longrightarrow> content s' \<in> {content s, (content s)(k \<mapsto> v)}"
    and delete_ok: "kdel k s = (False, s') \<Longrightarrow> content s' = (content s)(k := None)"
    and delete_err: "kdel k s = (True, s') \<Longrightarrow> content s' \<in> {content s, (content s)(k := None)}"
    and ok_keep: "ok s \<Longrightarrow> ok (snd (kget k s))" "ok s \<Longrightarrow> ok (snd (krange lo hi s))"
      "ok s \<Longrightarrow> ok (snd (kput k v s))" "ok s \<Longrightarrow> ok (snd (kdel k s))"
    and reliable_get: "reliable s \<Longrightarrow> fst (kget k s) = Inr (content s k)"
    and reliable_range: "reliable s \<Longrightarrow> \<exists>kvs. fst (krange lo hi s) = Inr kvs"
    and reliable_store: "reliable s \<Longrightarrow> \<not> fst (kput k v s)"
    and reliable_delete: "reliable s \<Longrightarrow> \<not> fst (kdel k s)"
    and reliable_keep: "reliable s \<Longrightarrow> reliable (snd (kget k s))"
      "reliable s \<Longrightarrow> reliable (snd (krange lo hi s))"
      "reliable s \<Longrightarrow> reliable (snd (kput k v s))" "reliable s \<Longrightarrow> reliable (snd (kdel k s))"
begin

lemma store_frame: "j \<noteq> k \<Longrightarrow> content (snd (kput k v s)) j = content s j"
  using store_ok [of k v s] store_err [of k v s] by (cases "kput k v s"; cases "fst (kput k v s)") auto

lemma delete_frame: "j \<noteq> k \<Longrightarrow> content (snd (kdel k s)) j = content s j"
  using delete_ok [of k s] delete_err [of k s] by (cases "kdel k s"; cases "fst (kdel k s)") auto

lemma delete_keeps_none: "content s j = None \<Longrightarrow> content (snd (kdel k s)) j = None"
  using delete_ok [of k s] delete_err [of k s] by (cases "kdel k s"; cases "fst (kdel k s)") auto

lemma delete_submap: "content (snd (kdel k s)) \<subseteq>\<^sub>m content s"
  using delete_ok [of k s] delete_err [of k s]
  by (cases "kdel k s"; cases "fst (kdel k s)") (auto simp: map_le_def split: if_splits)

lemma reliable_delete_content: "reliable s \<Longrightarrow> content (snd (kdel k s)) = (content s)(k := None)"
  using reliable_delete [of s k] delete_ok [of k s] by (cases "kdel k s") auto

lemma reliable_store_content: "reliable s \<Longrightarrow> content (snd (kput k v s)) = (content s)(k \<mapsto> v)"
  using reliable_store [of s k v] store_ok [of k v s] by (cases "kput k v s") auto

text \<open>Reading a range and finding a key in it are the same as looking the key up.\<close>

lemma range_mem_iff:
  assumes "ok s" "krange lo hi s = (Inr kvs, s')"
  shows "(k, v) \<in> set kvs \<longleftrightarrow> content s k = Some v \<and> lo \<le> k \<and> k \<le> hi"
proof -
  have d: "distinct (map fst kvs)" and m: "map_of kvs = content s |` {k. lo \<le> k \<and> k \<le> hi}"
    using range_val [OF assms] by blast+
  have "(k, v) \<in> set kvs \<longleftrightarrow> map_of kvs k = Some v" using d by (simp add: map_of_eq_Some_iff)
  then show ?thesis by (simp add: m restrict_map_def)
qed

text \<open>The other operations of a store that answers.\<close>

lemma range_read:
  assumes "ok s" "reliable s"
  shows "\<exists>kvs s'. krange lo hi s = (Inr kvs, s') \<and> content s' = content s \<and> ok s' \<and> reliable s' \<and>
    distinct (map fst kvs) \<and> (\<forall>k v. (k, v) \<in> set kvs \<longleftrightarrow> content s k = Some v \<and> lo \<le> k \<and> k \<le> hi)"
proof -
  obtain kvs s' where r: "krange lo hi s = (Inr kvs, s')"
    using reliable_range [OF assms(2), of lo hi] by (cases "krange lo hi s") auto
  then show ?thesis
    using range_frame [of lo hi s] ok_keep(2) [OF assms(1), of lo hi]
      reliable_keep(2) [OF assms(2), of lo hi] range_val [OF assms(1) r] range_mem_iff [OF assms(1) r]
    by auto
qed

text \<open>Deleting keys one after the other.\<close>

lemma delete_many_submap: "content (fold (\<lambda>k s. snd (kdel k s)) ks s) \<subseteq>\<^sub>m content s"
proof (induction ks arbitrary: s)
  case (Cons k ks)
  show ?case using Cons [of "snd (kdel k s)"] delete_submap [of k s] by (simp add: map_le_trans)
qed simp

lemma delete_many_frame:
  "j \<notin> set ks \<Longrightarrow> content (fold (\<lambda>k s. snd (kdel k s)) ks s) j = content s j"
  by (induction ks arbitrary: s) (simp_all add: delete_frame)

lemma reliable_delete_many:
  "reliable s \<Longrightarrow> content (fold (\<lambda>k s. snd (kdel k s)) ks s) = content s |` (- set ks)"
proof (induction ks arbitrary: s)
  case (Cons k ks)
  have "content s |` (- set (k # ks)) = (content s)(k := None) |` (- set ks)"
    by (rule ext) (simp add: restrict_map_def)
  note eq = this
  show ?case
    unfolding fold_simps(2) Cons.IH [OF reliable_keep(4) [OF Cons.prems]]
      reliable_delete_content [OF Cons.prems] eq ..
qed (simp add: restrict_map_def)

end

text \<open>A store whose values are records.\<close>

locale kv_records = kv_iface + codec
begin

definition records :: "'a \<Rightarrow> string \<rightharpoonup> 'c" where
  "records s k = Option.bind (content s k) dec"

lemma records_update: "wf x \<Longrightarrow> content s' = (content s)(k \<mapsto> enc x) \<Longrightarrow> records s' = (records s)(k \<mapsto> x)"
  by (auto simp: records_def dec_enc)

lemma records_move:
  "wf x \<Longrightarrow> content s' = ((content s)(k := None))(k' \<mapsto> enc x) \<Longrightarrow>
   records s' = ((records s)(k := None))(k' \<mapsto> x)"
  by (auto simp: records_def dec_enc)

lemma records_restrict: "content s' = content s |` A \<Longrightarrow> records s' = records s |` A"
  by (auto simp: records_def restrict_map_def)

lemma store_record:
  "wf x \<Longrightarrow> kput k (enc x) s = (False, s') \<Longrightarrow> records s' = (records s)(k \<mapsto> x)"
  using store_ok [of k "enc x" s s'] by (auto simp: records_def dec_enc)

lemma store_then_get:
  "wf x \<Longrightarrow> kput k (enc x) s = (False, s') \<Longrightarrow> kget k s' = (Inr (Some v), s'') \<Longrightarrow> dec v = Some x"
  using store_ok [of k "enc x" s s'] get_val [of k s' "Some v" s''] by (simp add: dec_enc)

lemma delete_record: "kdel k s = (False, s') \<Longrightarrow> records s' = (records s)(k := None)"
  using delete_ok [of k s s'] by (auto simp: records_def)

end

section \<open>The model's store provides it\<close>

lemmas kv_defs = kvGet_def kvGetRange_def kvStore_def kvDelete_def kv_next_def kv_content_def
  kv_ok_def kv_reliable_def

interpretation kv: kv_iface kv_content kv_ok kv_reliable kvGet kvGetRange kvStore kvDelete
proof
  fix s s' lo hi kvs
  assume "kv_ok s" "kvGetRange lo hi s = (Inr kvs, s')"
  then have ok: "distinct (map fst (kv_mem s))" and
    kvs: "kvs = filter (\<lambda>kv. lo \<le> fst kv \<and> fst kv \<le> hi) (kv_mem s)"
    by (auto simp: kv_defs gm_ok_def split: list.splits if_splits)
  have "map_of kvs = map_of (kv_mem s) |` {k. lo \<le> k \<and> k \<le> hi}"
    by (rule ext) (simp add: kvs gm_get_filter_key [of "\<lambda>k. lo \<le> k \<and> k \<le> hi"] restrict_map_def)
  then show "distinct (map fst kvs) \<and> map_of kvs = kv_content s |` {k. lo \<le> k \<and> k \<le> hi}"
    using ok by (simp add: kvs kv_content_def distinct_map_filter)
qed (auto simp: kv_defs split: list.splits if_splits)

end
