(* ===== verification/ScnTypes.thy ===== *)
theory ScnTypes
  imports KvStore
begin

text \<open>
  The data structures of cmd/hmi-nfd/api.go and their JSON codecs: the notification \<open>Scn\<close>, the
  subscription \<open>ScnSubscribe\<close>, the record \<open>SubData\<close> stored under a subscription's key, and the
  deletion request of the v1 API. Field names carry the prefix of their struct. A pointer to a
  bool is a \<open>bool option\<close>.
\<close>

section \<open>Structs\<close>

record Scn =
  scnComponents :: "string list"
  scnEnabled :: "bool option"
  scnFlag :: string
  scnRole :: string
  scnSubRole :: string
  scnSoftwareStatus :: string
  scnState :: string
  scnTimestamp :: string

record ScnSubscribe =
  subComponents :: "string list"
  subSubscriber :: string
  subSubscriberComponent :: string
  subSubscriberAgent :: string
  subEnabled :: "bool option"
  subRoles :: "string list"
  subSubRoles :: "string list"
  subSoftwareStatus :: "string list"
  subStates :: "string list"
  subUrl :: string

record NodeSubscriptionDelete =
  nsdSubscriber :: string
  nsdUrl :: string

record SubData =
  sdUrl :: string
  sdScnNodes :: "string list"

text \<open>The zero values, Go's \<open>var x T\<close>.\<close>

definition Scn0 :: Scn where
  "Scn0 = \<lparr>scnComponents = [], scnEnabled = None, scnFlag = [], scnRole = [], scnSubRole = [],
     scnSoftwareStatus = [], scnState = [], scnTimestamp = []\<rparr>"

definition ScnSubscribe0 :: ScnSubscribe where
  "ScnSubscribe0 = \<lparr>subComponents = [], subSubscriber = [], subSubscriberComponent = [],
     subSubscriberAgent = [], subEnabled = None, subRoles = [], subSubRoles = [],
     subSoftwareStatus = [], subStates = [], subUrl = []\<rparr>"

definition NodeSubscriptionDelete0 :: NodeSubscriptionDelete where
  "NodeSubscriptionDelete0 = \<lparr>nsdSubscriber = [], nsdUrl = []\<rparr>"

definition SubData0 :: SubData where
  "SubData0 = \<lparr>sdUrl = [], sdScnNodes = []\<rparr>"

section \<open>Unmarshal\<close>

definition scn_fields :: "Scn field_table" where
  "scn_fields = [
     (''components'', dec_into dec_strings scnComponents (\<lambda>x. scnComponents_update (\<lambda>_. x))),
     (''enabled'', dec_into dec_bool_ptr scnEnabled (\<lambda>x. scnEnabled_update (\<lambda>_. x))),
     (''flag'', dec_into dec_string scnFlag (\<lambda>x. scnFlag_update (\<lambda>_. x))),
     (''role'', dec_into dec_string scnRole (\<lambda>x. scnRole_update (\<lambda>_. x))),
     (''subrole'', dec_into dec_string scnSubRole (\<lambda>x. scnSubRole_update (\<lambda>_. x))),
     (''softwarestatus'',
        dec_into dec_string scnSoftwareStatus (\<lambda>x. scnSoftwareStatus_update (\<lambda>_. x))),
     (''state'', dec_into dec_string scnState (\<lambda>x. scnState_update (\<lambda>_. x))),
     (''timestamp'', dec_into dec_string scnTimestamp (\<lambda>x. scnTimestamp_update (\<lambda>_. x)))]"

definition sub_fields :: "ScnSubscribe field_table" where
  "sub_fields = [
     (''components'', dec_into dec_strings subComponents (\<lambda>x. subComponents_update (\<lambda>_. x))),
     (''subscriber'', dec_into dec_string subSubscriber (\<lambda>x. subSubscriber_update (\<lambda>_. x))),
     (''subscribercomponent'',
        dec_into dec_string subSubscriberComponent (\<lambda>x. subSubscriberComponent_update (\<lambda>_. x))),
     (''subscriberagent'',
        dec_into dec_string subSubscriberAgent (\<lambda>x. subSubscriberAgent_update (\<lambda>_. x))),
     (''enabled'', dec_into dec_bool_ptr subEnabled (\<lambda>x. subEnabled_update (\<lambda>_. x))),
     (''roles'', dec_into dec_strings subRoles (\<lambda>x. subRoles_update (\<lambda>_. x))),
     (''subroles'', dec_into dec_strings subSubRoles (\<lambda>x. subSubRoles_update (\<lambda>_. x))),
     (''softwarestatus'',
        dec_into dec_strings subSoftwareStatus (\<lambda>x. subSoftwareStatus_update (\<lambda>_. x))),
     (''states'', dec_into dec_strings subStates (\<lambda>x. subStates_update (\<lambda>_. x))),
     (''url'', dec_into dec_string subUrl (\<lambda>x. subUrl_update (\<lambda>_. x)))]"

definition nsd_fields :: "NodeSubscriptionDelete field_table" where
  "nsd_fields = [
     (''subscriber'', dec_into dec_string nsdSubscriber (\<lambda>x. nsdSubscriber_update (\<lambda>_. x))),
     (''url'', dec_into dec_string nsdUrl (\<lambda>x. nsdUrl_update (\<lambda>_. x)))]"

definition sd_fields :: "SubData field_table" where
  "sd_fields = [
     (''url'', dec_into dec_string sdUrl (\<lambda>x. sdUrl_update (\<lambda>_. x))),
     (''scnnodes'', dec_into dec_strings sdScnNodes (\<lambda>x. sdScnNodes_update (\<lambda>_. x)))]"

definition unmarshal_Scn :: "string \<Rightarrow> Scn option" where
  "unmarshal_Scn = unmarshal scn_fields Scn0"

definition unmarshal_ScnSubscribe :: "string \<Rightarrow> ScnSubscribe option" where
  "unmarshal_ScnSubscribe = unmarshal sub_fields ScnSubscribe0"

definition unmarshal_NodeSubscriptionDelete :: "string \<Rightarrow> NodeSubscriptionDelete option" where
  "unmarshal_NodeSubscriptionDelete = unmarshal nsd_fields NodeSubscriptionDelete0"

definition unmarshal_SubData :: "string \<Rightarrow> SubData option" where
  "unmarshal_SubData = unmarshal sd_fields SubData0"

section \<open>Marshal\<close>

text \<open>A string slice (nil prints as \<open>null\<close>), and the members \<open>omitempty\<close> leaves out.\<close>

definition j_strings :: "string list \<Rightarrow> json" where
  "j_strings xs = (if xs = [] then JNull else JArr (map JStr xs))"

definition omit_str :: "string \<Rightarrow> string \<Rightarrow> (string \<times> json) list" where
  "omit_str k s = (if s = [] then [] else [(k, JStr s)])"

definition omit_strs :: "string \<Rightarrow> string list \<Rightarrow> (string \<times> json) list" where
  "omit_strs k xs = (if xs = [] then [] else [(k, j_strings xs)])"

definition omit_bool_ptr :: "string \<Rightarrow> bool option \<Rightarrow> (string \<times> json) list" where
  "omit_bool_ptr k b = (case b of None \<Rightarrow> [] | Some x \<Rightarrow> [(k, JBool x)])"

definition json_Scn :: "Scn \<Rightarrow> json" where
  "json_Scn s = JObj ((''Components'', j_strings (scnComponents s)) #
     omit_bool_ptr ''Enabled'' (scnEnabled s) @ omit_str ''Flag'' (scnFlag s) @
     omit_str ''Role'' (scnRole s) @ omit_str ''SubRole'' (scnSubRole s) @
     omit_str ''SoftwareStatus'' (scnSoftwareStatus s) @ omit_str ''State'' (scnState s) @
     omit_str ''Timestamp'' (scnTimestamp s))"

definition json_ScnSubscribe :: "ScnSubscribe \<Rightarrow> json" where
  "json_ScnSubscribe s = JObj (omit_strs ''Components'' (subComponents s) @
     omit_str ''Subscriber'' (subSubscriber s) @
     omit_str ''SubscriberComponent'' (subSubscriberComponent s) @
     omit_str ''SubscriberAgent'' (subSubscriberAgent s) @
     omit_bool_ptr ''Enabled'' (subEnabled s) @ omit_strs ''Roles'' (subRoles s) @
     omit_strs ''SubRoles'' (subSubRoles s) @ omit_strs ''SoftwareStatus'' (subSoftwareStatus s) @
     omit_strs ''States'' (subStates s) @ [(''Url'', JStr (subUrl s))])"

definition marshal_Scn :: "Scn \<Rightarrow> string" where
  "marshal_Scn s = jprint (json_Scn s)"

definition marshal_ScnSubscribe :: "ScnSubscribe \<Rightarrow> string" where
  "marshal_ScnSubscribe s = jprint (json_ScnSubscribe s)"

definition marshal_SubscriptionList :: "ScnSubscribe list \<Rightarrow> string" where
  "marshal_SubscriptionList xs = jprint (JObj [(''SubscriptionList'',
     if xs = [] then JNull else JArr (map json_ScnSubscribe xs))])"

definition marshal_SubData :: "SubData \<Rightarrow> string" where
  "marshal_SubData sd =
     jprint (JObj [(''Url'', JStr (sdUrl sd)), (''ScnNodes'', j_strings (sdScnNodes sd))])"

section \<open>Round trips\<close>

lemma dec_j_strings [simp]: "dec_strings (j_strings xs) old = (False, xs)"
  by (simp add: j_strings_def del: dec_strings.simps(1))

lemma jok_parts [simp]: "jok (j_strings xs)"
  "(a, j) \<in> set (omit_str k s) \<Longrightarrow> jok j" "(a, j) \<in> set (omit_strs k xs) \<Longrightarrow> jok j"
  "(a, j) \<in> set (omit_bool_ptr k b) \<Longrightarrow> jok j"
  by (auto simp: j_strings_def omit_str_def omit_strs_def omit_bool_ptr_def
      split: if_splits option.splits)

lemma lower_names [simp]:
  "to_lower ''Components'' = ''components''" "to_lower ''Enabled'' = ''enabled''"
  "to_lower ''Flag'' = ''flag''" "to_lower ''Role'' = ''role''" "to_lower ''SubRole'' = ''subrole''"
  "to_lower ''SoftwareStatus'' = ''softwarestatus''" "to_lower ''State'' = ''state''"
  "to_lower ''Timestamp'' = ''timestamp''" "to_lower ''Subscriber'' = ''subscriber''"
  "to_lower ''SubscriberComponent'' = ''subscribercomponent''"
  "to_lower ''SubscriberAgent'' = ''subscriberagent''" "to_lower ''Roles'' = ''roles''"
  "to_lower ''SubRoles'' = ''subroles''" "to_lower ''States'' = ''states''"
  "to_lower ''Url'' = ''url''" "to_lower ''ScnNodes'' = ''scnnodes''"
  by code_simp+

text \<open>How the members a marshaller may leave out are read back.\<close>

lemma dec_members_omit_str:
  assumes "map_of tbl (to_lower k) = Some (dec_into dec_string g p)" "g r = []" "p [] r = r"
  shows "dec_members tbl (omit_str k s @ ms) (e, r) = dec_members tbl ms (e, p s r)"
  using assms by (auto simp: omit_str_def dec_into_def)

lemma dec_members_omit_strs:
  assumes "map_of tbl (to_lower k) = Some (dec_into dec_strings g p)" "g r = []" "p [] r = r"
  shows "dec_members tbl (omit_strs k xs @ ms) (e, r) = dec_members tbl ms (e, p xs r)"
  using assms by (auto simp: omit_strs_def dec_into_def)

lemma dec_members_omit_bool_ptr:
  assumes "map_of tbl (to_lower k) = Some (dec_into dec_bool_ptr g p)" "g r = None" "p None r = r"
  shows "dec_members tbl (omit_bool_ptr k b @ ms) (e, r) = dec_members tbl ms (e, p b r)"
  using assms by (auto simp: omit_bool_ptr_def dec_into_def split: option.splits)

text \<open>The tables are only ever read by name.\<close>

lemma scn_fields_lookup [simp]:
  "map_of scn_fields ''components'' =
     Some (dec_into dec_strings scnComponents (\<lambda>x. scnComponents_update (\<lambda>_. x)))"
  "map_of scn_fields ''enabled'' =
     Some (dec_into dec_bool_ptr scnEnabled (\<lambda>x. scnEnabled_update (\<lambda>_. x)))"
  "map_of scn_fields ''flag'' =
     Some (dec_into dec_string scnFlag (\<lambda>x. scnFlag_update (\<lambda>_. x)))"
  "map_of scn_fields ''role'' =
     Some (dec_into dec_string scnRole (\<lambda>x. scnRole_update (\<lambda>_. x)))"
  "map_of scn_fields ''subrole'' =
     Some (dec_into dec_string scnSubRole (\<lambda>x. scnSubRole_update (\<lambda>_. x)))"
  "map_of scn_fields ''softwarestatus'' =
     Some (dec_into dec_string scnSoftwareStatus (\<lambda>x. scnSoftwareStatus_update (\<lambda>_. x)))"
  "map_of scn_fields ''state'' =
     Some (dec_into dec_string scnState (\<lambda>x. scnState_update (\<lambda>_. x)))"
  "map_of scn_fields ''timestamp'' =
     Some (dec_into dec_string scnTimestamp (\<lambda>x. scnTimestamp_update (\<lambda>_. x)))"
  by (simp_all add: scn_fields_def)

lemma sub_fields_lookup [simp]:
  "map_of sub_fields ''components'' =
     Some (dec_into dec_strings subComponents (\<lambda>x. subComponents_update (\<lambda>_. x)))"
  "map_of sub_fields ''subscriber'' =
     Some (dec_into dec_string subSubscriber (\<lambda>x. subSubscriber_update (\<lambda>_. x)))"
  "map_of sub_fields ''subscribercomponent'' =
     Some (dec_into dec_string subSubscriberComponent (\<lambda>x. subSubscriberComponent_update (\<lambda>_. x)))"
  "map_of sub_fields ''subscriberagent'' =
     Some (dec_into dec_string subSubscriberAgent (\<lambda>x. subSubscriberAgent_update (\<lambda>_. x)))"
  "map_of sub_fields ''enabled'' =
     Some (dec_into dec_bool_ptr subEnabled (\<lambda>x. subEnabled_update (\<lambda>_. x)))"
  "map_of sub_fields ''roles'' =
     Some (dec_into dec_strings subRoles (\<lambda>x. subRoles_update (\<lambda>_. x)))"
  "map_of sub_fields ''subroles'' =
     Some (dec_into dec_strings subSubRoles (\<lambda>x. subSubRoles_update (\<lambda>_. x)))"
  "map_of sub_fields ''softwarestatus'' =
     Some (dec_into dec_strings subSoftwareStatus (\<lambda>x. subSoftwareStatus_update (\<lambda>_. x)))"
  "map_of sub_fields ''states'' =
     Some (dec_into dec_strings subStates (\<lambda>x. subStates_update (\<lambda>_. x)))"
  "map_of sub_fields ''url'' =
     Some (dec_into dec_string subUrl (\<lambda>x. subUrl_update (\<lambda>_. x)))"
  by (simp_all add: sub_fields_def)

lemma nsd_fields_lookup [simp]:
  "map_of nsd_fields ''subscriber'' =
     Some (dec_into dec_string nsdSubscriber (\<lambda>x. nsdSubscriber_update (\<lambda>_. x)))"
  "map_of nsd_fields ''url'' =
     Some (dec_into dec_string nsdUrl (\<lambda>x. nsdUrl_update (\<lambda>_. x)))"
  by (simp_all add: nsd_fields_def)

lemma sd_fields_lookup [simp]:
  "map_of sd_fields ''url'' =
     Some (dec_into dec_string sdUrl (\<lambda>x. sdUrl_update (\<lambda>_. x)))"
  "map_of sd_fields ''scnnodes'' =
     Some (dec_into dec_strings sdScnNodes (\<lambda>x. sdScnNodes_update (\<lambda>_. x)))"
  by (simp_all add: sd_fields_def)

lemma dec_members_omit_last:
  assumes "map_of tbl (to_lower k) = Some (dec_into dec_string g p)" "g r = []" "p [] r = r"
  shows "dec_members tbl (omit_str k s) (e, r) = (e, p s r)"
  using dec_members_omit_str [OF assms, of s "[]" e] by simp

lemmas dec_members_omit = dec_members_omit_str dec_members_omit_strs dec_members_omit_bool_ptr
  dec_members_omit_last

lemma jok_json [simp]: "jok (json_Scn s)" "jok (json_ScnSubscribe u)"
  by (auto simp: json_Scn_def json_ScnSubscribe_def)

lemma SubData_round: "unmarshal_SubData (marshal_SubData sd) = Some sd"
proof -
  have "dec_struct sd_fields SubData0
      (JObj [(''Url'', JStr (sdUrl sd)), (''ScnNodes'', j_strings (sdScnNodes sd))]) = Some sd"
    by (simp add: dec_struct_def SubData0_def dec_into_def)
  then show ?thesis
    unfolding unmarshal_SubData_def marshal_SubData_def by (subst unmarshal_jprint) simp_all
qed

lemma Scn_round: "unmarshal_Scn (marshal_Scn s) = Some s"
proof -
  have "dec_members scn_fields
      (omit_bool_ptr ''Enabled'' (scnEnabled s) @ omit_str ''Flag'' (scnFlag s) @
       omit_str ''Role'' (scnRole s) @ omit_str ''SubRole'' (scnSubRole s) @
       omit_str ''SoftwareStatus'' (scnSoftwareStatus s) @ omit_str ''State'' (scnState s) @
       omit_str ''Timestamp'' (scnTimestamp s))
      (False, Scn0\<lparr>scnComponents := scnComponents s\<rparr>) = (False, s)"
    unfolding Scn0_def by (subst dec_members_omit, simp, simp, simp)+ simp
  then have "dec_struct scn_fields Scn0 (json_Scn s) = Some s"
    by (simp add: dec_struct_def json_Scn_def dec_into_def)
  then show ?thesis by (simp add: unmarshal_Scn_def marshal_Scn_def unmarshal_jprint)
qed

lemma ScnSubscribe_round: "unmarshal_ScnSubscribe (marshal_ScnSubscribe u) = Some u"
proof -
  have "dec_members sub_fields (omit_strs ''Components'' (subComponents u) @
     omit_str ''Subscriber'' (subSubscriber u) @
     omit_str ''SubscriberComponent'' (subSubscriberComponent u) @
     omit_str ''SubscriberAgent'' (subSubscriberAgent u) @
     omit_bool_ptr ''Enabled'' (subEnabled u) @ omit_strs ''Roles'' (subRoles u) @
     omit_strs ''SubRoles'' (subSubRoles u) @ omit_strs ''SoftwareStatus'' (subSoftwareStatus u) @
     omit_strs ''States'' (subStates u) @ [(''Url'', JStr (subUrl u))])
      (False, ScnSubscribe0) = (False, u)"
    unfolding ScnSubscribe0_def
    by (subst dec_members_omit, simp, simp, simp)+ (simp add: dec_into_def)
  then have "dec_struct sub_fields ScnSubscribe0 (json_ScnSubscribe u) = Some u"
    by (simp add: dec_struct_def json_ScnSubscribe_def)
  then show ?thesis
    by (simp add: unmarshal_ScnSubscribe_def marshal_ScnSubscribe_def unmarshal_jprint)
qed

interpretation sd_codec: codec marshal_SubData unmarshal_SubData "\<lambda>_. True"
  by unfold_locales (rule SubData_round)

interpretation scn_codec: codec marshal_Scn unmarshal_Scn "\<lambda>_. True"
  by unfold_locales (rule Scn_round)

interpretation sub_codec: codec marshal_ScnSubscribe unmarshal_ScnSubscribe "\<lambda>_. True"
  by unfold_locales (rule ScnSubscribe_round)

text \<open>The store of subscription records: keys of the key/value store, values of type \<open>SubData\<close>.\<close>

interpretation subs: kv_records kv_content kv_ok kv_reliable kvGet kvGetRange kvStore kvDelete
    marshal_SubData unmarshal_SubData "\<lambda>_. True" ..

text \<open>
  Unmarshalling what was marshalled gives back the stored record, the notification and the
  subscription. The strings of these values stand for texts in valid UTF-8; in others \<open>json.Marshal\<close>
  puts U+FFFD for the bytes that are not.
\<close>

lemma wire_round_trip:
  "unmarshal_SubData (marshal_SubData sd) = Some sd \<and> unmarshal_Scn (marshal_Scn scn) = Some scn \<and>
   unmarshal_ScnSubscribe (marshal_ScnSubscribe sub) = Some sub"
  by (intro conjI SubData_round Scn_round ScnSubscribe_round)

end
