(* ===== verification/SubKey.thy ===== *)
theory SubKey
  imports ScnTypes
begin

text \<open>
  The subscription key of cmd/hmi-nfd/api.go. All attributes of a subscription are packed into the
  name of its key, \<open>sub#xname[#hs.state...][#ss.status...][#enbl.enbl][#roles.role...]
  [#subroles.subrole...][#svc.agent]\<close>, and every other operation reads them back from there:
  \<open>makeSubscriptionKey_V1\<close> and \<open>_V2\<close> build the key, \<open>populateSubinfo\<close> (for the listings),
  \<open>keyService\<close> (for the deletions and the pruning) and \<open>keyServicePatch\<close> (for the PATCH
  handlers) take it apart. The lemmas say when they agree: \<open>subinfo_of_makeKey\<close>,
  \<open>keyService_makeKey\<close>, \<open>keyServicePatch_makeKey\<close>, \<open>makeKey_in_range\<close>.
\<close>

section \<open>Constants\<close>

abbreviation KEY_DELIM :: char where "KEY_DELIM \<equiv> CHR ''#''"
abbreviation KEYCAT_DELIM :: char where "KEYCAT_DELIM \<equiv> CHR ''.''"
abbreviation SVC_DELIM :: char where "SVC_DELIM \<equiv> CHR ''@''"
abbreviation KEYRANGE_START :: string where "KEYRANGE_START \<equiv> ''sub#a''"
abbreviation KEYRANGE_END :: string where "KEYRANGE_END \<equiv> ''sub#z''"

section \<open>Checking a request\<close>

text \<open>\<open>None\<close> is the nil error.\<close>

definition no_attrs :: "ScnSubscribe \<Rightarrow> bool" where
  "no_attrs j \<longleftrightarrow> subStates j = [] \<and> subSoftwareStatus j = [] \<and> subEnabled j = None \<and>
     subRoles j = [] \<and> subSubRoles j = []"

definition checkSubscription_v2 :: "ScnSubscribe \<Rightarrow> string option" where
  "checkSubscription_v2 j =
     (if subComponents j = [] then Some ''Subscription request missing Components array field.''
      else if subUrl j = [] then Some ''Subscription request missing Url field.''
      else if no_attrs j then
        Some ''Subscription request needs at least one of: States, SoftwareStatus, Roles, SubRoles.''
      else None)"

definition checkSubscription_v1 :: "ScnSubscribe \<Rightarrow> string option" where
  "checkSubscription_v1 j =
     (if subSubscriber j = [] then Some ''Subscription request missing Subscriber field.''
      else if 2 < length (split_on SVC_DELIM (subSubscriber j)) then
        Some ''Subscription request Subscriber field has invalid format.''
      else if subComponents j = [] then
        Some ''Subscription request missing Components array field.''
      else if subUrl j = [] then Some ''Subscription request missing Url field.''
      else if no_attrs j then
        Some ''Subscription request needs at least one of: States, SoftwareStatus, Roles, SubRoles.''
      else None)"

section \<open>Building a key\<close>

text \<open>The \<open>if len(xs) > 0 { ... for ... }\<close> block, once for each attribute.\<close>

definition add_attrs :: "string \<Rightarrow> string list \<Rightarrow> string \<Rightarrow> string" where
  "add_attrs name xs subkey =
     (if xs = [] then subkey
      else foldl (\<lambda>k x. k @ [KEYCAT_DELIM] @ to_lower x) (subkey @ [KEY_DELIM] @ name) xs)"

definition makeSubscriptionKey_V2 :: "ScnSubscribe \<Rightarrow> string \<Rightarrow> string \<Rightarrow> string" where
  "makeSubscriptionKey_V2 jdata subXName subSvcName =
     (let k0 = ''sub'' @ [KEY_DELIM] @ subXName;
          k1 = add_attrs ''hs'' (subStates jdata) k0;
          k2 = add_attrs ''ss'' (subSoftwareStatus jdata) k1;
          k3 = (if subEnabled jdata \<noteq> None
                then k2 @ [KEY_DELIM] @ ''enbl'' @ [KEYCAT_DELIM] @ ''enbl'' else k2);
          k4 = add_attrs ''roles'' (subRoles jdata) k3;
          k5 = add_attrs ''subroles'' (subSubRoles jdata) k4
      in if subSvcName \<noteq> [] then k5 @ [KEY_DELIM] @ ''svc'' @ [KEYCAT_DELIM] @ subSvcName else k5)"

definition makeSubscriptionKey_V1 :: "ScnSubscribe \<Rightarrow> string" where
  "makeSubscriptionKey_V1 jdata =
     (let toks = split_on SVC_DELIM (subSubscriber jdata)
      in if 1 < length toks
         then makeSubscriptionKey_V2 jdata (to_lower (toks ! 1)) (to_lower (toks ! 0))
         else makeSubscriptionKey_V2 jdata (to_lower (subSubscriber jdata)) [])"

section \<open>Taking a key apart\<close>

text \<open>\<open>tt\<close> is a token of the key split at the dots; \<open>tt[1]\<close> panics when there is none.\<close>

definition populateSubinfo :: "string \<Rightarrow> string list \<Rightarrow> ScnSubscribe \<Rightarrow> ScnSubscribe option" where
  "populateSubinfo xname tt info =
     (if tt ! 0 = ''hs'' then Some (info\<lparr>subStates := subStates info @ drop 1 tt\<rparr>)
      else if tt ! 0 = ''ss'' then
        Some (info\<lparr>subSoftwareStatus := subSoftwareStatus info @ drop 1 tt\<rparr>)
      else if tt ! 0 = ''enbl'' then Some (info\<lparr>subEnabled := Some True\<rparr>)
      else if tt ! 0 = ''roles'' then Some (info\<lparr>subRoles := subRoles info @ drop 1 tt\<rparr>)
      else if tt ! 0 = ''subroles'' then
        Some (info\<lparr>subSubRoles := subSubRoles info @ drop 1 tt\<rparr>)
      else if tt ! 0 = ''svc'' then
        do { agent \<leftarrow> go_nth tt 1;
             Some (info\<lparr>subSubscriber := agent @ [SVC_DELIM] @ xname,
                        subSubscriberComponent := xname, subSubscriberAgent := agent\<rparr>) }
      else Some info)"

fun populateAll :: "string \<Rightarrow> string list \<Rightarrow> ScnSubscribe \<Rightarrow> ScnSubscribe option" where
  "populateAll xname [] info = Some info"
| "populateAll xname (t # ts) info =
     do { info' \<leftarrow> populateSubinfo xname (split_on KEYCAT_DELIM t) info;
          populateAll xname ts info' }"

text \<open>The part of the listing handlers' loop that reads the key.\<close>

definition subinfo_of_key :: "string \<Rightarrow> ScnSubscribe option" where
  "subinfo_of_key key =
     (let toks = split_on KEY_DELIM key
      in do { xname \<leftarrow> go_nth toks 1;
              populateAll xname (drop 2 toks) (ScnSubscribe0\<lparr>subSubscriber := xname\<rparr>) })"

text \<open>
  The component and the agent of a key, as the deletion handlers and \<open>subPrune\<close> find them: the
  agent is what follows the first occurrence of \<open>svc\<close> anywhere in the key and one more character.
\<close>

definition keyService :: "string \<Rightarrow> (string \<times> string option) option" where
  "keyService key =
     do { xname \<leftarrow> go_nth (split_on KEY_DELIM key) 1;
          let ix = index_of key ''svc'';
          if 0 < ix
          then do { rest \<leftarrow> slice_from key (ix + 3 + 1);
                    Some (xname, Some (split_on KEY_DELIM rest ! 0)) }
          else Some (xname, None) }"

text \<open>The same as the PATCH handlers find it; \<open>iy\<close> is an index into \<open>key[ix:]\<close>.\<close>

definition keyServicePatch :: "string \<Rightarrow> (string \<times> string option) option" where
  "keyServicePatch key =
     do { xname \<leftarrow> go_nth (split_on KEY_DELIM key) 1;
          let ix = index_of key ''svc.'';
          if 0 < ix
          then do { tl \<leftarrow> slice_from key ix;
                    let iy = index_of tl [KEY_DELIM];
                    agent \<leftarrow> (if iy = - 1 then slice_from key (ix + 4)
                               else slice key (ix + 4) (iy - 1));
                    Some (xname, Some agent) }
          else Some (xname, None) }"

section \<open>The tokens of a built key\<close>

definition plain :: "string \<Rightarrow> bool" where
  "plain s \<longleftrightarrow> KEY_DELIM \<notin> set s \<and> KEYCAT_DELIM \<notin> set s"

definition sub_attrs :: "ScnSubscribe \<Rightarrow> string list" where
  "sub_attrs j = subStates j @ subSoftwareStatus j @ subRoles j @ subSubRoles j"

definition attr_tok :: "string \<Rightarrow> string list \<Rightarrow> string list" where
  "attr_tok name xs = (if xs = [] then [] else [join KEYCAT_DELIM (name # map to_lower xs)])"

definition enbl_tok :: "bool option \<Rightarrow> string list" where
  "enbl_tok e = (if e \<noteq> None then [''enbl.enbl''] else [])"

definition svc_tok :: "string \<Rightarrow> string list" where
  "svc_tok svc = (if svc \<noteq> [] then [''svc.'' @ svc] else [])"

definition attr_toks :: "ScnSubscribe \<Rightarrow> string list" where
  "attr_toks j = attr_tok ''hs'' (subStates j) @ attr_tok ''ss'' (subSoftwareStatus j) @
     enbl_tok (subEnabled j) @ attr_tok ''roles'' (subRoles j) @ attr_tok ''subroles'' (subSubRoles j)"

lemma add_attrs_join:
  assumes "ts \<noteq> []"
  shows "add_attrs name xs (join KEY_DELIM ts) = join KEY_DELIM (ts @ attr_tok name xs)"
proof -
  have "foldl (\<lambda>k x. k @ [KEYCAT_DELIM] @ to_lower x) k xs =
      k @ concat (map (\<lambda>u. KEYCAT_DELIM # u) (map to_lower xs))" for k
    by (induction xs arbitrary: k) auto
  then show ?thesis
    using assms by (simp add: add_attrs_def attr_tok_def join_append join_eq_concat)
qed

lemma add_enbl_join:
  "ts \<noteq> [] \<Longrightarrow>
   (if e \<noteq> None then join KEY_DELIM ts @ [KEY_DELIM] @ ''enbl'' @ [KEYCAT_DELIM] @ ''enbl''
    else join KEY_DELIM ts) = join KEY_DELIM (ts @ enbl_tok e)"
  by (simp add: enbl_tok_def join_append)

lemma add_svc_join:
  "ts \<noteq> [] \<Longrightarrow>
   (if svc \<noteq> [] then join KEY_DELIM ts @ [KEY_DELIM] @ ''svc'' @ [KEYCAT_DELIM] @ svc
    else join KEY_DELIM ts) = join KEY_DELIM (ts @ svc_tok svc)"
  by (simp add: svc_tok_def join_append)

lemma makeKey_join:
  "makeSubscriptionKey_V2 j xn svc = join KEY_DELIM (''sub'' # xn # attr_toks j @ svc_tok svc)"
proof -
  have base: "''sub'' @ [KEY_DELIM] @ xn = join KEY_DELIM [''sub'', xn]" by simp
  have "makeSubscriptionKey_V2 j xn svc = join KEY_DELIM
      (((((([''sub'', xn] @ attr_tok ''hs'' (subStates j)) @ attr_tok ''ss'' (subSoftwareStatus j)) @
        enbl_tok (subEnabled j)) @ attr_tok ''roles'' (subRoles j)) @
        attr_tok ''subroles'' (subSubRoles j)) @ svc_tok svc)"
    unfolding makeSubscriptionKey_V2_def Let_def base
    by (simp only: add_attrs_join add_enbl_join add_svc_join list.simps append_is_Nil_conv simp_thms)
  then show ?thesis by (simp add: attr_toks_def)
qed

section \<open>Reading a built key\<close>

lemma lower_delim [simp]:
  "KEY_DELIM \<in> set (to_lower s) \<longleftrightarrow> KEY_DELIM \<in> set s"
  "KEYCAT_DELIM \<in> set (to_lower s) \<longleftrightarrow> KEYCAT_DELIM \<in> set s"
proof -
  have "d \<in> set (to_lower s) \<longleftrightarrow> d \<in> set s"
    if "\<And>c. lower_char c = d \<longleftrightarrow> c = d" for d
    unfolding to_lower_def set_map using that by (metis image_iff)
  moreover have "lower_char c = KEY_DELIM \<longleftrightarrow> c = KEY_DELIM" for c
    by (rule lower_char_eq_iff) (simp_all add: less_eq_char_def)
  moreover have "lower_char c = KEYCAT_DELIM \<longleftrightarrow> c = KEYCAT_DELIM" for c
    by (rule lower_char_eq_iff) (simp_all add: less_eq_char_def)
  ultimately show "KEY_DELIM \<in> set (to_lower s) \<longleftrightarrow> KEY_DELIM \<in> set s"
    "KEYCAT_DELIM \<in> set (to_lower s) \<longleftrightarrow> KEYCAT_DELIM \<in> set s" by blast+
qed

lemma plain_to_lower [simp]: "plain (to_lower s) = plain s"
  by (simp add: plain_def)

lemma join_mem: "x \<in> set (join d ts) \<Longrightarrow> x = d \<or> (\<exists>t \<in> set ts. x \<in> set t)"
  by (induction d ts rule: join.induct) auto

lemma attr_tok_no_delim:
  assumes "KEY_DELIM \<notin> set name" "\<forall>x \<in> set xs. KEY_DELIM \<notin> set x" "t \<in> set (attr_tok name xs)"
  shows "KEY_DELIM \<notin> set t"
proof
  assume "KEY_DELIM \<in> set t"
  with assms(3) have "KEY_DELIM \<in> set (join KEYCAT_DELIM (name # map to_lower xs))"
    by (auto simp: attr_tok_def split: if_splits)
  from join_mem [OF this] show False using assms(1,2) by auto
qed

lemma attr_toks_no_delim:
  assumes "\<forall>x \<in> set (sub_attrs j). KEY_DELIM \<notin> set x" "t \<in> set (attr_toks j)"
  shows "KEY_DELIM \<notin> set t"
proof -
  have "KEY_DELIM \<notin> set t" if "t \<in> set (enbl_tok e)" for e
    using that by (auto simp: enbl_tok_def split: if_splits)
  then show ?thesis
    using assms unfolding attr_toks_def sub_attrs_def set_append
    by (elim UnE) (auto dest!: attr_tok_no_delim [rotated 2])
qed

lemma split_makeKey:
  assumes "KEY_DELIM \<notin> set xn" "KEY_DELIM \<notin> set svc"
    "\<forall>x \<in> set (sub_attrs j). KEY_DELIM \<notin> set x"
  shows "split_on KEY_DELIM (makeSubscriptionKey_V2 j xn svc) =
     ''sub'' # xn # attr_toks j @ svc_tok svc"
proof -
  have "KEY_DELIM \<notin> set t" if "t \<in> set (svc_tok svc)" for t
    using that assms(2) by (auto simp: svc_tok_def split: if_splits)
  moreover have "\<forall>t \<in> set (attr_toks j). KEY_DELIM \<notin> set t"
    using attr_toks_no_delim [OF assms(3)] by blast
  ultimately show ?thesis
    unfolding makeKey_join using assms(1) by (intro split_on_join) auto
qed

lemma populateAll_append:
  "populateAll x (ts @ us) i = do { i' \<leftarrow> populateAll x ts i; populateAll x us i' }"
  by (induction x ts i rule: populateAll.induct) (simp_all split: bind_split)

lemma split_attr_tok:
  assumes "KEYCAT_DELIM \<notin> set name" "\<forall>x \<in> set xs. KEYCAT_DELIM \<notin> set x"
  shows "split_on KEYCAT_DELIM (join KEYCAT_DELIM (name # map to_lower xs)) = name # map to_lower xs"
  by (rule split_on_join) (use assms in auto)

lemma populate_attr_tok:
  assumes "\<forall>x \<in> set xs. plain x"
  shows
    "populateAll x (attr_tok ''hs'' xs) i = Some (i\<lparr>subStates := subStates i @ map to_lower xs\<rparr>)"
    "populateAll x (attr_tok ''ss'' xs) i =
      Some (i\<lparr>subSoftwareStatus := subSoftwareStatus i @ map to_lower xs\<rparr>)"
    "populateAll x (attr_tok ''roles'' xs) i = Some (i\<lparr>subRoles := subRoles i @ map to_lower xs\<rparr>)"
    "populateAll x (attr_tok ''subroles'' xs) i =
      Some (i\<lparr>subSubRoles := subSubRoles i @ map to_lower xs\<rparr>)"
proof -
  have no: "\<forall>x \<in> set xs. KEYCAT_DELIM \<notin> set x" using assms by (auto simp: plain_def)
  note sp = split_attr_tok [OF _ no]
  show "populateAll x (attr_tok ''hs'' xs) i = Some (i\<lparr>subStates := subStates i @ map to_lower xs\<rparr>)"
    using sp [of "''hs''"] by (simp add: attr_tok_def populateSubinfo_def del: join.simps)
  show "populateAll x (attr_tok ''ss'' xs) i =
      Some (i\<lparr>subSoftwareStatus := subSoftwareStatus i @ map to_lower xs\<rparr>)"
    using sp [of "''ss''"] by (simp add: attr_tok_def populateSubinfo_def del: join.simps)
  show "populateAll x (attr_tok ''roles'' xs) i = Some (i\<lparr>subRoles := subRoles i @ map to_lower xs\<rparr>)"
    using sp [of "''roles''"] by (simp add: attr_tok_def populateSubinfo_def del: join.simps)
  show "populateAll x (attr_tok ''subroles'' xs) i =
      Some (i\<lparr>subSubRoles := subSubRoles i @ map to_lower xs\<rparr>)"
    using sp [of "''subroles''"] by (simp add: attr_tok_def populateSubinfo_def del: join.simps)
qed

lemma populate_enbl_tok:
  "populateAll x (enbl_tok e) i = Some (if e = None then i else i\<lparr>subEnabled := Some True\<rparr>)"
  by (simp add: enbl_tok_def populateSubinfo_def)

lemma populate_svc_tok:
  assumes "plain svc"
  shows "populateAll x (svc_tok svc) i = Some (if svc = [] then i else
     i\<lparr>subSubscriber := svc @ [SVC_DELIM] @ x, subSubscriberComponent := x, subSubscriberAgent := svc\<rparr>)"
  using assms
  by (simp add: svc_tok_def populateSubinfo_def plain_def go_nth_def split_on_no_delim)

text \<open>
  What a listing shows for a key built from \<open>j\<close>: the attributes in lower case, \<open>Enabled\<close> true as
  soon as the request gave it any value.
\<close>

definition listed :: "ScnSubscribe \<Rightarrow> string \<Rightarrow> string \<Rightarrow> ScnSubscribe" where
  "listed j xn svc =
     ScnSubscribe0\<lparr>
       subSubscriber := (if svc = [] then xn else svc @ [SVC_DELIM] @ xn),
       subSubscriberComponent := (if svc = [] then [] else xn),
       subSubscriberAgent := svc,
       subEnabled := (if subEnabled j = None then None else Some True),
       subRoles := map to_lower (subRoles j), subSubRoles := map to_lower (subSubRoles j),
       subSoftwareStatus := map to_lower (subSoftwareStatus j),
       subStates := map to_lower (subStates j)\<rparr>"

lemma subinfo_of_makeKey:
  assumes "KEY_DELIM \<notin> set xn" "plain svc" "\<forall>x \<in> set (sub_attrs j). plain x"
  shows "subinfo_of_key (makeSubscriptionKey_V2 j xn svc) = Some (listed j xn svc)"
proof -
  have sp: "split_on KEY_DELIM (makeSubscriptionKey_V2 j xn svc) =
      ''sub'' # xn # attr_toks j @ svc_tok svc"
    by (rule split_makeKey) (use assms in \<open>auto simp: plain_def\<close>)
  have pl: "\<forall>x \<in> set (subStates j). plain x" "\<forall>x \<in> set (subSoftwareStatus j). plain x"
    "\<forall>x \<in> set (subRoles j). plain x" "\<forall>x \<in> set (subSubRoles j). plain x"
    using assms(3) by (auto simp: sub_attrs_def)
  have attrs: "populateAll xn (attr_toks j) (ScnSubscribe0\<lparr>subSubscriber := xn\<rparr>) =
      Some ((listed j xn [])\<lparr>subSubscriber := xn\<rparr>)"
    unfolding attr_toks_def
    by (simp add: populateAll_append populate_attr_tok pl populate_enbl_tok listed_def ScnSubscribe0_def)
  show ?thesis
    unfolding subinfo_of_key_def sp
    by (simp add: go_nth_def populateAll_append attrs populate_svc_tok [OF assms(2)])
      (simp add: listed_def)
qed

subsection \<open>Finding the agent\<close>

lemma sublist_sep:
  assumes "d \<notin> set w" "sublist w (a @ d # b)"
  shows "sublist w a \<or> sublist w b"
proof -
  obtain u v where eq: "a @ d # b = u @ w @ v" using assms(2) by (auto simp: sublist_def)
  from eq consider us where "a = u @ us" "us @ d # b = w @ v"
    | us where "a @ us = u" "d # b = us @ w @ v"
    by (auto simp: append_eq_append_conv2)
  then show ?thesis
  proof cases
    case 1
    from 1(2) consider vs where "us = w @ vs" | vs where "us @ vs = w" "d # b = vs @ v"
      by (auto simp: append_eq_append_conv2)
    then show ?thesis
    proof cases
      case 1
      then show ?thesis using \<open>a = u @ us\<close> by auto
    next
      case 2
      then show ?thesis using assms(1) \<open>a = u @ us\<close> by (cases vs) auto
    qed
  next
    case 2
    show ?thesis
    proof (cases us)
      case Nil
      then show ?thesis using 2(2) assms(1) by (cases w) auto
    next
      case (Cons c us')
      then have "b = us' @ w @ v" using 2(2) by simp
      then show ?thesis unfolding sublist_def by blast
    qed
  qed
qed

lemma sublist_join:
  assumes "sublist w (join d ts)" "d \<notin> set w" "w \<noteq> []"
  shows "\<exists>t \<in> set ts. sublist w t"
  using assms(1)
proof (induction ts)
  case Nil
  then show ?case using assms(3) by simp
next
  case (Cons t ts)
  show ?case
  proof (cases "ts = []")
    case True
    then show ?thesis using Cons.prems by simp
  next
    case False
    have "sublist w t \<or> sublist w (join d ts)"
      using Cons.prems sublist_sep [OF assms(2)] by (simp add: join_Cons [OF False])
    then show ?thesis using Cons.IH by auto
  qed
qed

text \<open>Searching the key for a tag that no earlier token holds finds the agent's own token.\<close>

lemma index_of_tag:
  assumes "KEY_DELIM \<notin> set tag" "tag \<noteq> []" "prefix tag b" "ts \<noteq> []"
    "\<forall>t \<in> set ts. \<not> sublist tag t"
  shows "index_of (join KEY_DELIM ts @ KEY_DELIM # b) tag = int (length (join KEY_DELIM ts)) + 1"
proof -
  let ?a = "join KEY_DELIM ts @ [KEY_DELIM]"
  have "index_of (?a @ b) tag = int (length ?a)"
  proof (rule index_of_append_first [OF assms(2,3)])
    fix u v
    assume "?a = u @ v" "v \<noteq> []"
    then obtain v' c where vc: "v = v' @ [c]" by (cases v rule: rev_cases) auto
    have "join KEY_DELIM ts @ [KEY_DELIM] = (u @ v') @ [c]"
      using \<open>?a = u @ v\<close> unfolding vc by (simp only: append_assoc)
    then have ac: "join KEY_DELIM ts = u @ v' \<and> KEY_DELIM = c" unfolding append1_eq_conv .
    then have a: "join KEY_DELIM ts = u @ v'" by (rule conjunct1)
    have v: "v = v' @ [KEY_DELIM]" using vc ac by simp
    have no: "\<not> sublist tag v'"
    proof
      assume "sublist tag v'"
      then obtain p q where "v' = p @ tag @ q" by (auto simp: sublist_def)
      then have "join KEY_DELIM ts = (u @ p) @ tag @ q" by (simp add: a)
      then have "sublist tag (join KEY_DELIM ts)" unfolding sublist_def by blast
      from sublist_join [OF this assms(1,2)] show False using assms(5) by blast
    qed
    show "\<not> prefix tag (v @ b)"
    proof
      assume "prefix tag (v @ b)"
      then obtain r where r: "v' @ KEY_DELIM # b = tag @ r" by (auto simp: v prefix_def)
      from r consider us where "v' = tag @ us" | us where "v' @ us = tag" "KEY_DELIM # b = us @ r"
        by (auto simp: append_eq_append_conv2)
      then show False
      proof cases
        case 1
        then show ?thesis using no by auto
      next
        case 2
        then show ?thesis using no assms(1) by (cases us) auto
      qed
    qed
  qed
  then show ?thesis by simp
qed

definition tag_free :: "string \<Rightarrow> ScnSubscribe \<Rightarrow> string \<Rightarrow> bool" where
  "tag_free tag j xn \<longleftrightarrow> (\<forall>t \<in> set (''sub'' # xn # attr_toks j). \<not> sublist tag t)"

lemma makeKey_no_svc:
  "makeSubscriptionKey_V2 j xn [] = join KEY_DELIM (''sub'' # xn # attr_toks j)"
  by (simp add: makeKey_join svc_tok_def)

lemma makeKey_svc:
  "svc \<noteq> [] \<Longrightarrow> makeSubscriptionKey_V2 j xn svc =
     join KEY_DELIM (''sub'' # xn # attr_toks j) @ KEY_DELIM # ''svc.'' @ svc"
  unfolding makeKey_join svc_tok_def
  using join_append [of "''sub'' # xn # attr_toks j" "[''svc.'' @ svc]" KEY_DELIM] by simp

lemma tag_free_index:
  assumes "tag_free tag j xn" "KEY_DELIM \<notin> set tag" "tag \<noteq> []" "prefix tag (''svc.'' @ svc)"
  shows "svc \<noteq> [] \<Longrightarrow> index_of (makeSubscriptionKey_V2 j xn svc) tag =
      int (length (makeSubscriptionKey_V2 j xn [])) + 1"
    and "\<not> sublist tag (makeSubscriptionKey_V2 j xn [])"
proof -
  have "\<forall>t \<in> set (''sub'' # xn # attr_toks j). \<not> sublist tag t"
    using assms(1) by (simp only: tag_free_def)
  note free = this
  show "\<not> sublist tag (makeSubscriptionKey_V2 j xn [])"
    unfolding makeKey_no_svc using sublist_join [OF _ assms(2,3)] free by blast
  show "svc \<noteq> [] \<Longrightarrow> index_of (makeSubscriptionKey_V2 j xn svc) tag =
      int (length (makeSubscriptionKey_V2 j xn [])) + 1"
    unfolding makeKey_no_svc makeKey_svc
    using index_of_tag [OF assms(2,3,4) _ free] by simp
qed

lemma keyService_makeKey:
  assumes "KEY_DELIM \<notin> set xn" "KEY_DELIM \<notin> set svc" "tag_free ''svc'' j xn"
    "\<forall>x \<in> set (sub_attrs j). KEY_DELIM \<notin> set x"
  shows "keyService (makeSubscriptionKey_V2 j xn svc) =
     Some (xn, if svc = [] then None else Some svc)"
proof -
  have nth: "go_nth (split_on KEY_DELIM (makeSubscriptionKey_V2 j xn svc)) 1 = Some xn"
    using split_makeKey [OF assms(1,2,4)] by (simp add: go_nth_def)
  note ix = tag_free_index [OF assms(3), of svc]
  show ?thesis
  proof (cases "svc = []")
    case True
    then have ixm: "index_of (makeSubscriptionKey_V2 j xn svc) ''svc'' = - 1" using ix(2) by simp
    show ?thesis unfolding keyService_def Let_def ixm nth using True by simp
  next
    case False
    let ?a = "join KEY_DELIM (''sub'' # xn # attr_toks j) @ KEY_DELIM # ''svc.''"
    have ix1: "index_of (makeSubscriptionKey_V2 j xn svc) ''svc'' + 3 + 1 = int (length ?a)"
      using ix(1) False by (simp add: makeKey_no_svc)
    have eq: "makeSubscriptionKey_V2 j xn svc = ?a @ svc" using makeKey_svc [OF False] by simp
    have "slice_from (makeSubscriptionKey_V2 j xn svc)
        (index_of (makeSubscriptionKey_V2 j xn svc) ''svc'' + 3 + 1) = Some svc"
      unfolding ix1 unfolding eq by (rule slice_from_append)
    moreover have "0 < index_of (makeSubscriptionKey_V2 j xn svc) ''svc''"
      using ix(1) False by simp
    ultimately show ?thesis
      using False nth assms(2) by (simp add: keyService_def Let_def split_on_no_delim)
  qed
qed

lemma keyServicePatch_makeKey:
  assumes "KEY_DELIM \<notin> set xn" "KEY_DELIM \<notin> set svc" "tag_free ''svc.'' j xn"
    "\<forall>x \<in> set (sub_attrs j). KEY_DELIM \<notin> set x"
  shows "keyServicePatch (makeSubscriptionKey_V2 j xn svc) =
     Some (xn, if svc = [] then None else Some svc)"
proof -
  have nth: "go_nth (split_on KEY_DELIM (makeSubscriptionKey_V2 j xn svc)) 1 = Some xn"
    using split_makeKey [OF assms(1,2,4)] by (simp add: go_nth_def)
  note ix = tag_free_index [OF assms(3), of svc]
  show ?thesis
  proof (cases "svc = []")
    case True
    then have ixm: "index_of (makeSubscriptionKey_V2 j xn svc) ''svc.'' = - 1" using ix(2) by simp
    show ?thesis unfolding keyServicePatch_def Let_def ixm nth using True by simp
  next
    case False
    let ?k = "makeSubscriptionKey_V2 j xn svc"
    let ?p = "join KEY_DELIM (''sub'' # xn # attr_toks j) @ [KEY_DELIM]"
    have eq: "?k = ?p @ ''svc.'' @ svc" "?k = (?p @ ''svc.'') @ svc"
      using makeKey_svc [OF False] by simp_all
    have i: "index_of ?k ''svc.'' = int (length ?p)"
      using ix(1) False by (simp add: makeKey_no_svc)
    have i4: "index_of ?k ''svc.'' + 4 = int (length (?p @ ''svc.''))" using i by simp
    have tl: "slice_from ?k (index_of ?k ''svc.'') = Some (''svc.'' @ svc)"
      unfolding i unfolding eq(1) by (rule slice_from_append)
    have ag: "slice_from ?k (index_of ?k ''svc.'' + 4) = Some svc"
      unfolding i4 unfolding eq(2) by (rule slice_from_append)
    have no: "index_of (''svc.'' @ svc) [KEY_DELIM] = - 1"
      by (rule index_of_char) (use assms(2) in auto)
    have pos: "0 < index_of ?k ''svc.''" using i by simp
    show ?thesis
      unfolding keyServicePatch_def Let_def nth using pos False
      by (simp only: bind.bind_lunit tl ag no if_True if_False simp_thms)
  qed
qed

subsection \<open>The range of keys\<close>

text \<open>Any key that \<open>GetRange\<close> returns starts with \<open>sub#\<close>, so its second token exists.\<close>

lemma range_key_prefix:
  assumes "KEYRANGE_START \<le> k" "k \<le> KEYRANGE_END"
  shows "\<exists>r. k = ''sub#'' @ r"
  using assms
  by (cases k; cases "tl k"; cases "tl (tl k)"; cases "tl (tl (tl k))") auto

lemma split_range_key:
  assumes "KEYRANGE_START \<le> k" "k \<le> KEYRANGE_END"
  shows "\<exists>xn ts. split_on KEY_DELIM k = ''sub'' # xn # ts"
proof -
  obtain r where "k = ''sub#'' @ r" using range_key_prefix [OF assms] by blast
  then have "split_on KEY_DELIM k = ''sub'' # split_on KEY_DELIM r"
    using split_on_append [of KEY_DELIM "''sub''" r] by simp
  then show ?thesis by (cases "split_on KEY_DELIM r") auto
qed

lemma makeKey_in_range:
  assumes "xn = c # cs" "CHR ''a'' \<le> c" "c < CHR ''z''"
  shows "KEYRANGE_START \<le> makeSubscriptionKey_V2 j xn svc \<and>
         makeSubscriptionKey_V2 j xn svc \<le> KEYRANGE_END"
proof -
  obtain r where r: "makeSubscriptionKey_V2 j xn svc = ''sub#'' @ c # r"
    unfolding makeKey_join join_eq_concat using assms(1) by simp
  show ?thesis unfolding r using assms(2,3) by (cases "c = CHR ''a''") auto
qed

lemma listed_inject:
  "makeSubscriptionKey_V2 j xn svc = makeSubscriptionKey_V2 j' xn' svc' \<Longrightarrow>
   KEY_DELIM \<notin> set xn \<Longrightarrow> KEY_DELIM \<notin> set xn' \<Longrightarrow> plain svc \<Longrightarrow> plain svc' \<Longrightarrow>
   \<forall>x \<in> set (sub_attrs j). plain x \<Longrightarrow> \<forall>x \<in> set (sub_attrs j'). plain x \<Longrightarrow>
   listed j xn svc = listed j' xn' svc'"
  using subinfo_of_makeKey [of xn svc j] subinfo_of_makeKey [of xn' svc' j'] by simp

lemma makeKey_cong:
  assumes "listed j xn svc = listed j' xn svc"
  shows "makeSubscriptionKey_V2 j xn svc = makeSubscriptionKey_V2 j' xn svc"
proof -
  have tok: "attr_tok n xs = attr_tok n ys" if "map to_lower xs = map to_lower ys" for n xs ys
    using that by (metis attr_tok_def map_is_Nil_conv)
  have "subEnabled j = None \<longleftrightarrow> subEnabled j' = None"
    "map to_lower (subStates j) = map to_lower (subStates j')"
    "map to_lower (subSoftwareStatus j) = map to_lower (subSoftwareStatus j')"
    "map to_lower (subRoles j) = map to_lower (subRoles j')"
    "map to_lower (subSubRoles j) = map to_lower (subSubRoles j')"
    using assms by (auto simp: listed_def ScnSubscribe0_def split: if_splits)
  note eqs = this
  have "enbl_tok (subEnabled j) = enbl_tok (subEnabled j')"
    using eqs(1) by (simp add: enbl_tok_def)
  then have "attr_toks j = attr_toks j'"
    unfolding attr_toks_def tok [OF eqs(2)] tok [OF eqs(3)] tok [OF eqs(4)] tok [OF eqs(5)]
    by simp
  then show ?thesis by (simp add: makeKey_join)
qed

section \<open>Properties\<close>

definition plain_sub :: "ScnSubscribe \<Rightarrow> string \<Rightarrow> string \<Rightarrow> bool" where
  "plain_sub j xn svc \<longleftrightarrow> KEY_DELIM \<notin> set xn \<and> plain svc \<and> (\<forall>x \<in> set (sub_attrs j). plain x)"

text \<open>
  C22: Two plain subscriptions have the same key exactly when they have the same component and
  agent, the same states, software statuses, roles and sub-roles up to case, and both or neither
  asks for enablement.
\<close>

theorem key_unique:
  assumes "plain_sub j xn svc" "plain_sub j' xn' svc'"
  shows "makeSubscriptionKey_V2 j xn svc = makeSubscriptionKey_V2 j' xn' svc' \<longleftrightarrow>
    xn = xn' \<and> svc = svc' \<and> (subEnabled j = None \<longleftrightarrow> subEnabled j' = None) \<and>
    map to_lower (subStates j) = map to_lower (subStates j') \<and>
    map to_lower (subSoftwareStatus j) = map to_lower (subSoftwareStatus j') \<and>
    map to_lower (subRoles j) = map to_lower (subRoles j') \<and>
    map to_lower (subSubRoles j) = map to_lower (subSubRoles j')" (is "?l \<longleftrightarrow> ?r")
proof
  assume ?l
  then have l: "listed j xn svc = listed j' xn' svc'"
    using assms by (intro listed_inject) (auto simp: plain_sub_def)
  have "subSubscriberAgent (listed j xn svc) = subSubscriberAgent (listed j' xn' svc')"
    "subSubscriber (listed j xn svc) = subSubscriber (listed j' xn' svc')" using l by simp_all
  then have "svc = svc'" "xn = xn'" by (auto simp: listed_def ScnSubscribe0_def split: if_splits)
  then show ?r using l by (auto simp: listed_def ScnSubscribe0_def split: if_splits)
next
  assume ?r
  then show ?l using makeKey_cong [of j xn svc j'] by (simp add: listed_def)
qed

theorem key_unique_witness:
  "(makeSubscriptionKey_V2 (ScnSubscribe0\<lparr>subStates := [''On'']\<rparr>) ''x0'' ''mon'' =
    makeSubscriptionKey_V2 (ScnSubscribe0\<lparr>subStates := [''oN'']\<rparr>) ''x0'' ''mon'') = True"
proof -
  have l: "map to_lower [''On''] = map to_lower [''oN'']" by code_simp
  show ?thesis
    using key_unique [of "ScnSubscribe0\<lparr>subStates := [''On'']\<rparr>" "''x0''" "''mon''"
        "ScnSubscribe0\<lparr>subStates := [''oN'']\<rparr>" "''x0''" "''mon''"] l
    by (simp add: plain_sub_def plain_def sub_attrs_def ScnSubscribe0_def)
qed

text \<open>The key of a plain subscription without the text svc, taken apart in the three ways.\<close>

lemma makeKey_taken_apart:
  assumes "plain_sub j xn svc" "tag_free ''svc'' j xn"
  shows "subinfo_of_key (makeSubscriptionKey_V2 j xn svc) = Some (listed j xn svc) \<and>
    keyService (makeSubscriptionKey_V2 j xn svc) = Some (xn, if svc = [] then None else Some svc) \<and>
    keyServicePatch (makeSubscriptionKey_V2 j xn svc) = Some (xn, if svc = [] then None else Some svc)"
proof -
  have nd: "KEY_DELIM \<notin> set xn" "KEY_DELIM \<notin> set svc" "\<forall>x \<in> set (sub_attrs j). KEY_DELIM \<notin> set x"
    and p: "plain svc" "\<forall>x \<in> set (sub_attrs j). plain x"
    using assms(1) by (auto simp: plain_sub_def plain_def)
  have "tag_free ''svc.'' j xn"
    unfolding tag_free_def
  proof (intro ballI notI)
    fix t
    assume t: "t \<in> set (''sub'' # xn # attr_toks j)" "sublist ''svc.'' t"
    then obtain u v where "t = u @ ''svc'' @ (CHR ''.'' # v)" unfolding sublist_def by auto
    then have "sublist ''svc'' t" unfolding sublist_def by blast
    then show False using t(1) assms(2) unfolding tag_free_def by blast
  qed
  then show ?thesis
    using subinfo_of_makeKey [OF nd(1) p] keyService_makeKey [OF nd(1,2) assms(2) nd(3)]
      keyServicePatch_makeKey [OF nd(1,2) _ nd(3)] by blast
qed

text \<open>
  C23: The three ways the program takes a key apart agree on a key built from a plain
  subscription whose parts do not contain the text svc: the listing gets the attributes back,
  the deletion and PATCH handlers the component and the agent.
\<close>

theorem key_read_back:
  assumes "plain_sub j xn svc" "tag_free ''svc'' j xn"
  shows "subinfo_of_key (makeSubscriptionKey_V2 j xn svc) = Some (listed j xn svc) \<and>
    keyService (makeSubscriptionKey_V2 j xn svc) = Some (xn, if svc = [] then None else Some svc) \<and>
    keyServicePatch (makeSubscriptionKey_V2 j xn svc) = Some (xn, if svc = [] then None else Some svc)"
  by (rule makeKey_taken_apart [OF assms])

theorem key_read_back_witness:
  "keyService (makeSubscriptionKey_V2 (ScnSubscribe0\<lparr>subStates := [''On'']\<rparr>) ''x0'' ''mon'') =
     Some (''x0'', Some ''mon'')"
proof -
  have "tag_free ''svc'' (ScnSubscribe0\<lparr>subStates := [''On'']\<rparr>) ''x0''" by code_simp
  moreover have "plain_sub (ScnSubscribe0\<lparr>subStates := [''On'']\<rparr>) ''x0'' ''mon''"
    by (simp add: plain_sub_def plain_def sub_attrs_def ScnSubscribe0_def)
  ultimately show ?thesis using key_read_back by fastforce
qed

end
