(* ===== verification/Xname.thy ===== *)
theory Xname
  imports GoLib
begin

text \<open>
  Component names (\<open>xnames\<close>) as hmnfd checks them: \<open>GetHMSType\<close>, \<open>VerifyNormalizeCompID\<close> and the
  recognition table of vendor/.../hms-xname/xnametypes/hmstypes.go, with the anchored regular
  expressions the table holds. A pattern is a list of items; \<open>rx_match\<close> matches a whole string by
  backtracking and \<open>rx_match_lang\<close> says it decides the language of the pattern. The entry
  \<open>"invalid"\<close> of the table has the type \<open>HMSTypeInvalid\<close>, so it never makes a name valid, and is
  left out.
\<close>

section \<open>Patterns\<close>

datatype cls = In string | NotNL

fun in_cls :: "char \<Rightarrow> cls \<Rightarrow> bool" where
  "in_cls c (In s) \<longleftrightarrow> c \<in> set s"
| "in_cls c NotNL \<longleftrightarrow> c \<noteq> CHR 0x0A"

datatype rx =
    One cls
  | Star cls
  | Rep cls nat nat
  | Opt "rx list"

function rx_match :: "rx list \<Rightarrow> string \<Rightarrow> bool" where
  "rx_match [] s = (s = [])"
| "rx_match (One k # ps) s = (case s of [] \<Rightarrow> False | c # cs \<Rightarrow> in_cls c k \<and> rx_match ps cs)"
| "rx_match (Star k # ps) s =
     (rx_match ps s \<or> (case s of [] \<Rightarrow> False | c # cs \<Rightarrow> in_cls c k \<and> rx_match (Star k # ps) cs))"
| "rx_match (Rep k lo hi # ps) s =
     (lo = 0 \<and> rx_match ps s \<or>
      hi \<noteq> 0 \<and> (case s of [] \<Rightarrow> False
                 | c # cs \<Rightarrow> in_cls c k \<and> rx_match (Rep k (lo - 1) (hi - 1) # ps) cs))"
| "rx_match (Opt qs # ps) s = (rx_match ps s \<or> rx_match (qs @ ps) s)"
  by pat_completeness auto
termination
  by (relation "measures [\<lambda>(ps, s). length s, \<lambda>(ps, s). size_list size ps]")
    (auto simp: size_list_append)

fun rx_lang :: "rx \<Rightarrow> string set" and rxs_lang :: "rx list \<Rightarrow> string set" where
  "rx_lang (One k) = {[c] | c. in_cls c k}"
| "rx_lang (Star k) = {s. \<forall>c \<in> set s. in_cls c k}"
| "rx_lang (Rep k lo hi) = {s. (\<forall>c \<in> set s. in_cls c k) \<and> lo \<le> length s \<and> length s \<le> hi}"
| "rx_lang (Opt qs) = insert [] (rxs_lang qs)"
| "rxs_lang [] = {[]}"
| "rxs_lang (p # ps) = {s @ t | s t. s \<in> rx_lang p \<and> t \<in> rxs_lang ps}"

lemma rxs_lang_append: "rxs_lang (ps @ qs) = {s @ t | s t. s \<in> rxs_lang ps \<and> t \<in> rxs_lang qs}"
proof (induction ps)
  case Nil
  then show ?case by simp
next
  case (Cons p ps)
  show ?case
  proof (intro set_eqI iffI)
    fix u
    assume "u \<in> rxs_lang ((p # ps) @ qs)"
    then obtain s v t where "u = (s @ v) @ t" "s \<in> rx_lang p" "v \<in> rxs_lang ps" "t \<in> rxs_lang qs"
      using Cons by auto
    moreover from this have "s @ v \<in> rxs_lang (p # ps)" by auto
    ultimately show "u \<in> {s @ t | s t. s \<in> rxs_lang (p # ps) \<and> t \<in> rxs_lang qs}" by blast
  next
    fix u
    assume "u \<in> {s @ t | s t. s \<in> rxs_lang (p # ps) \<and> t \<in> rxs_lang qs}"
    then obtain s v t where "u = s @ (v @ t)" "s \<in> rx_lang p" "v \<in> rxs_lang ps" "t \<in> rxs_lang qs"
      by auto
    moreover from this have "v @ t \<in> rxs_lang (ps @ qs)" using Cons by auto
    ultimately show "u \<in> rxs_lang ((p # ps) @ qs)" by auto
  qed
qed

lemma in_star_step:
  "(\<exists>s t. u = s @ t \<and> (\<forall>c \<in> set s. in_cls c k) \<and> t \<in> L) \<longleftrightarrow>
   u \<in> L \<or> (\<exists>c cs. u = c # cs \<and> in_cls c k \<and>
     (\<exists>s t. cs = s @ t \<and> (\<forall>c \<in> set s. in_cls c k) \<and> t \<in> L))" (is "?l \<longleftrightarrow> ?r")
proof
  assume ?l
  then obtain s t where st: "u = s @ t" "\<forall>c \<in> set s. in_cls c k" "t \<in> L" by blast
  then show ?r by (cases s) auto
next
  assume ?r
  then show ?l
  proof
    assume "u \<in> L"
    then show ?l by (intro exI [of _ "[]"] exI [of _ u]) simp
  next
    assume "\<exists>c cs. u = c # cs \<and> in_cls c k \<and>
      (\<exists>s t. cs = s @ t \<and> (\<forall>c \<in> set s. in_cls c k) \<and> t \<in> L)"
    then obtain c s t where "u = (c # s) @ t" "in_cls c k" "\<forall>c \<in> set s. in_cls c k" "t \<in> L" by auto
    then show ?l by (intro exI [of _ "c # s"] exI [of _ t]) simp
  qed
qed

lemma in_rep_step:
  "(\<exists>s t. u = s @ t \<and> ((\<forall>c \<in> set s. in_cls c k) \<and> lo \<le> length s \<and> length s \<le> hi) \<and> t \<in> L) \<longleftrightarrow>
   lo = 0 \<and> u \<in> L \<or> hi \<noteq> 0 \<and> (\<exists>c cs. u = c # cs \<and> in_cls c k \<and>
     (\<exists>s t. cs = s @ t \<and> ((\<forall>c \<in> set s. in_cls c k) \<and> lo - 1 \<le> length s \<and> length s \<le> hi - 1) \<and>
        t \<in> L))" (is "?l \<longleftrightarrow> ?r")
proof
  assume ?l
  then obtain s t where st: "u = s @ t" "\<forall>c \<in> set s. in_cls c k" "lo \<le> length s" "length s \<le> hi"
    "t \<in> L" by blast
  show ?r
  proof (cases s)
    case Nil
    then show ?thesis using st by simp
  next
    case (Cons c w)
    then have "u = c # (w @ t)" "in_cls c k" "\<forall>c \<in> set w. in_cls c k" "lo - 1 \<le> length w"
      "length w \<le> hi - 1" "hi \<noteq> 0" using st by auto
    then show ?thesis using st(5) by blast
  qed
next
  assume ?r
  then show ?l
  proof
    assume "lo = 0 \<and> u \<in> L"
    then show ?l by (intro exI [of _ "[]"] exI [of _ u]) simp
  next
    assume "hi \<noteq> 0 \<and> (\<exists>c cs. u = c # cs \<and> in_cls c k \<and>
      (\<exists>s t. cs = s @ t \<and> ((\<forall>c \<in> set s. in_cls c k) \<and> lo - 1 \<le> length s \<and> length s \<le> hi - 1) \<and>
        t \<in> L))"
    then obtain c s t where "hi \<noteq> 0" "u = (c # s) @ t" "in_cls c k" "\<forall>c \<in> set s. in_cls c k"
      "lo - 1 \<le> length s" "length s \<le> hi - 1" "t \<in> L" by auto
    then show ?l by (intro exI [of _ "c # s"] exI [of _ t]) auto
  qed
qed

text \<open>The matcher decides the language.\<close>

lemma rx_match_lang: "rx_match ps s \<longleftrightarrow> s \<in> rxs_lang ps"
proof (induction ps s rule: rx_match.induct)
  case (1 s)
  then show ?case by simp
next
  case (2 k ps s)
  then show ?case by (cases s) (auto intro: exI [of _ "[_]"])
next
  case (3 k ps s)
  then show ?case using in_star_step [of s k "rxs_lang ps"] by (cases s) auto
next
  case (4 k lo hi ps s)
  then show ?case using in_rep_step [of s k lo hi "rxs_lang ps"] by (cases s) auto
next
  case (5 qs ps s)
  then show ?case by (auto simp: rxs_lang_append)
qed

section \<open>The recognition table\<close>

abbreviation dg :: cls where
  "dg \<equiv> In ''0123456789''"

definition lit :: "string \<Rightarrow> rx list" where
  "lit s = map (\<lambda>c. One (In [c])) s"

text \<open>\<open>fld\<close> is \<open>c([0-9]+)\<close>, \<open>sel\<close> is \<open>c([..])\<close>, \<open>pos\<close> is \<open>c([1-9][0-9]*)\<close>.\<close>

definition fld :: "string \<Rightarrow> rx list" where
  "fld c = [One (In c), One dg, Star dg]"

definition sel :: "string \<Rightarrow> string \<Rightarrow> rx list" where
  "sel c k = [One (In c), One (In k)]"

definition pos :: "string \<Rightarrow> rx list" where
  "pos c = [One (In c), One (In ''123456789''), Star dg]"

definition xx :: "rx list" where
  "xx = [One (In ''x''), Rep dg 1 4]"

definition xc :: "rx list" where
  "xc = xx @ sel ''c'' ''01234567''"

definition hmsCompRecognitionTable :: "(string \<times> rx list) list" where
  "hmsCompRecognitionTable = [
     (''All'', lit ''all''),
     (''AllSvc'', lit ''all_svc''),
     (''AllComp'', lit ''all_comp''),
     (''Partition'', fld ''p'' @ [Opt (One NotNL # One dg # [Star dg])]),
     (''System'', lit ''s0''),
     (''SMSBox'', lit ''sm'' @ fld ''s''),
     (''CDU'', fld ''d''),
     (''CDUMgmtSwitch'', fld ''d'' @ fld ''w''),
     (''CabinetCDU'', xx @ sel ''d'' ''01''),
     (''CabinetPDUController'', xx @ sel ''m'' ''0123''),
     (''CabinetPDU'', xx @ sel ''m'' ''0123'' @ sel ''p'' ''01234567''),
     (''CabinetPDUNic'', xx @ sel ''m'' ''0123'' @ sel ''i'' ''0123''),
     (''CabinetPDUOutlet'', xx @ sel ''m'' ''0123'' @ sel ''p'' ''01234567'' @ pos ''j''),
     (''CabinetPDUPowerConnector'', xx @ sel ''m'' ''0123'' @ sel ''p'' ''01234567'' @ pos ''v''),
     (''CEC'', xx @ sel ''e'' ''01''),
     (''Cabinet'', xx),
     (''CabinetBMC'', xx @ sel ''b'' ''0''),
     (''Chassis'', xc),
     (''ChassisBMC'', xc @ sel ''b'' ''0''),
     (''ChassisBMCNic'', xc @ sel ''b'' ''0'' @ sel ''i'' ''0123''),
     (''CMMFpga'', xc @ sel ''f'' ''0''),
     (''CMMRectifier'', xc @ sel ''t'' ''0123456789''),
     (''ComputeModule'', xc @ fld ''s''),
     (''StorageGroup'', xc @ fld ''s'' @ fld ''b'' @ fld ''n'' @ fld ''g''),
     (''Drive'', xc @ fld ''s'' @ fld ''b'' @ fld ''n'' @ fld ''g'' @ fld ''k''),
     (''NodeFpga'', xc @ fld ''s'' @ fld ''b'' @ sel ''f'' ''0''),
     (''NodeBMC'', xc @ fld ''s'' @ fld ''b''),
     (''NodeBMCNic'', xc @ fld ''s'' @ fld ''b'' @ sel ''i'' ''0123''),
     (''NodeEnclosure'', xc @ fld ''s'' @ fld ''e''),
     (''NodeEnclosurePowerSupply'', xc @ fld ''s'' @ fld ''e'' @ fld ''t''),
     (''NodePowerConnector'', xc @ fld ''s'' @ sel ''jv'' ''12''),
     (''HSNBoard'', xc @ fld ''r'' @ fld ''e''),
     (''Node'', xc @ fld ''s'' @ fld ''b'' @ fld ''n''),
     (''VirtualNode'', xc @ fld ''s'' @ fld ''b'' @ fld ''n'' @ fld ''v''),
     (''NodeNic'', xc @ fld ''s'' @ fld ''b'' @ fld ''n'' @ sel ''i'' ''0123''),
     (''NodeHsnNic'', xc @ fld ''s'' @ fld ''b'' @ fld ''n'' @ sel ''h'' ''0123''),
     (''NodeAccel'', xc @ fld ''s'' @ fld ''b'' @ fld ''n'' @ fld ''a''),
     (''NodeAccelRiser'', xc @ fld ''s'' @ fld ''b'' @ fld ''n'' @ sel ''r'' ''01234567''),
     (''Memory'', xc @ fld ''s'' @ fld ''b'' @ fld ''n'' @ fld ''d''),
     (''Processor'', xc @ fld ''s'' @ fld ''b'' @ fld ''n'' @ sel ''p'' ''0123''),
     (''RouterModule'', xc @ fld ''r''),
     (''RouterFpga'', xc @ fld ''r'' @ sel ''f'' ''01''),
     (''RouterTOR'', xc @ fld ''r'' @ fld ''t''),
     (''RouterTORFpga'', xc @ fld ''r'' @ fld ''t'' @ sel ''f'' ''01''),
     (''RouterBMC'', xc @ fld ''r'' @ fld ''b''),
     (''RouterBMCNic'', xc @ fld ''r'' @ fld ''b'' @ sel ''i'' ''0123''),
     (''RouterPowerConnector'', xc @ fld ''r'' @ sel ''v'' ''12''),
     (''HSNAsic'', xc @ fld ''r'' @ sel ''a'' ''0123''),
     (''HSNConnector'', xc @ fld ''r'' @ pos ''j''),
     (''HSNConnectorPort'', xc @ fld ''r'' @ pos ''j'' @ sel ''p'' ''012''),
     (''HSNLink'', xc @ fld ''r'' @ sel ''a'' ''0123'' @ fld ''l''),
     (''MgmtSwitch'', xc @ pos ''w''),
     (''MgmtSwitchConnector'', xc @ pos ''w'' @ pos ''j''),
     (''MgmtHLSwitchEnclosure'', xc @ pos ''h''),
     (''MgmtHLSwitch'', xc @ pos ''h'' @ sel ''s'' ''123456789'')]"

lemmas rx_parts = lit_def fld_def sel_def pos_def xx_def xc_def

text \<open>\<open>GetHMSType(xname) != HMSTypeInvalid\<close>: some entry of the table matches.\<close>

definition hmsTypeValid :: "string \<Rightarrow> bool" where
  "hmsTypeValid xname = list_ex (\<lambda>e. rx_match (snd e) xname) hmsCompRecognitionTable"

section \<open>Normalisation\<close>

definition is_space :: "char \<Rightarrow> bool" where
  "is_space c \<longleftrightarrow> c \<in> {CHR '' '', CHR 0x09, CHR 0x0A, CHR 0x0B, CHR 0x0C, CHR 0x0D}"

definition trim_space :: "string \<Rightarrow> string" where
  "trim_space s = rev (dropWhile is_space (rev (dropWhile is_space s)))"

text \<open>\<open>unicode.IsNumber\<close> on a byte: the digits and the Latin-1 superscripts and fractions.\<close>

definition is_number :: "char \<Rightarrow> bool" where
  "is_number c \<longleftrightarrow> c \<in> set ''0123456789'' \<or>
     of_char c \<in> {178, 179, 185, 188, 189, 190 :: nat}"

text \<open>The loop of \<open>RemoveLeadingZeros\<close>: \<open>b\<close> is \<open>lastLetter\<close>.\<close>

fun rlz :: "bool \<Rightarrow> string \<Rightarrow> string" where
  "rlz b [] = []"
| "rlz b [c] = [c]"
| "rlz b (c # d # r) =
     (if c = CHR ''0'' \<and> b \<and> is_number d then rlz b (d # r)
      else c # rlz (\<not> is_number c) (d # r))"

definition RemoveLeadingZeros :: "string \<Rightarrow> string" where
  "RemoveLeadingZeros s = (if length s < 2 then s else rlz True s)"

definition NormalizeHMSCompID :: "string \<Rightarrow> string" where
  "NormalizeHMSCompID xname = to_lower (RemoveLeadingZeros (trim_space xname))"

definition VerifyNormalizeCompID :: "string \<Rightarrow> string" where
  "VerifyNormalizeCompID idStr =
     (let idNorm = NormalizeHMSCompID idStr in if hmsTypeValid idNorm then idNorm else [])"

lemma hmsTypeValid_Nil: "\<not> hmsTypeValid []"
  by (simp add: hmsTypeValid_def hmsCompRecognitionTable_def rx_parts)

text \<open>Every pattern of the table starts with one of five letters.\<close>

lemma hmsTypeValid_head:
  assumes "hmsTypeValid s"
  shows "\<exists>c cs. s = c # cs \<and> c \<in> {CHR ''a'', CHR ''d'', CHR ''p'', CHR ''s'', CHR ''x''}"
proof -
  let ?p = "\<lambda>ps. case ps of One (In ks) # _ \<Rightarrow> set ks \<subseteq> set ''adpsx'' | _ \<Rightarrow> False"
  have "list_all (\<lambda>e. ?p (snd e)) hmsCompRecognitionTable"
    by (simp add: hmsCompRecognitionTable_def rx_parts)
  moreover obtain e where "e \<in> set hmsCompRecognitionTable" "rx_match (snd e) s"
    using assms by (auto simp: hmsTypeValid_def list_ex_iff)
  ultimately have "?p (snd e)" "rx_match (snd e) s" by (auto simp: list_all_iff)
  then show ?thesis
    by (cases s) (auto split: list.splits rx.splits cls.splits)
qed

lemma VerifyNormalizeCompID_cases:
  "VerifyNormalizeCompID s = [] \<or> hmsTypeValid (VerifyNormalizeCompID s)"
  by (simp add: VerifyNormalizeCompID_def Let_def)

lemma VerifyNormalizeCompID_valid:
  "VerifyNormalizeCompID s \<noteq> [] \<Longrightarrow> hmsTypeValid (VerifyNormalizeCompID s)"
  using VerifyNormalizeCompID_cases by blast

lemma VerifyNormalizeCompID_lower [simp]:
  "to_lower (VerifyNormalizeCompID s) = VerifyNormalizeCompID s"
  by (simp add: VerifyNormalizeCompID_def NormalizeHMSCompID_def Let_def)

end
