(* ===== verification/Http.thy ===== *)
theory Http
  imports GoLib
begin

text \<open>
  What a handler can do with its \<open>http.ResponseWriter\<close>. The first \<open>WriteHeader\<close> fixes the status
  and freezes the headers, a later one is ignored; a body written before it, or none at all, makes
  the status 200. Problem details (\<open>base.NewProblemDetails\<close> then \<open>base.SendProblemDetails\<close>) are
  kept as the values they are built from.
\<close>

datatype chunk =
    Problem (pTitle: string) (pDetail: string) (pInstance: string) (pStatus: nat)
  | Bytes string

record writer =
  w_code :: "nat option"
  w_hdr :: "(string, string) gomap"
  w_body :: "chunk list"

text \<open>
  What a handler reads of its request: the method, the path, the variables of the route
  (\<open>mux.Vars\<close>), the bytes of the body and whether reading them ended in an error.
\<close>

record request =
  rq_method :: string
  rq_path :: string
  rq_vars :: "(string, string) gomap"
  rq_body :: string
  rq_err :: bool

text \<open>\<open>uvars[k]\<close>, the empty string when the route has no such variable.\<close>

definition rq_var :: "request \<Rightarrow> string \<Rightarrow> string" where
  "rq_var r k = (case gm_get (rq_vars r) k of None \<Rightarrow> [] | Some v \<Rightarrow> v)"

definition new_writer :: writer where
  "new_writer = \<lparr>w_code = None, w_hdr = [], w_body = []\<rparr>"

definition setHeader :: "string \<Rightarrow> string \<Rightarrow> writer \<Rightarrow> writer" where
  "setHeader k v w = (if w_code w = None then w\<lparr>w_hdr := gm_put k v (w_hdr w)\<rparr> else w)"

definition writeHeader :: "nat \<Rightarrow> writer \<Rightarrow> writer" where
  "writeHeader c w = (if w_code w = None then w\<lparr>w_code := Some c\<rparr> else w)"

definition writeBody :: "chunk \<Rightarrow> writer \<Rightarrow> writer" where
  "writeBody b w = (let w' = writeHeader 200 w in w'\<lparr>w_body := w_body w' @ [b]\<rparr>)"

definition sendProblem :: "string \<Rightarrow> string \<Rightarrow> string \<Rightarrow> nat \<Rightarrow> writer \<Rightarrow> writer" where
  "sendProblem title detail inst status w =
     writeBody (Problem title detail inst status)
       (writeHeader status (setHeader ''Content-Type'' ''application/problem+json'' w))"

text \<open>The status the client sees once the handler has returned.\<close>

definition status_of :: "writer \<Rightarrow> nat" where
  "status_of w = (case w_code w of None \<Rightarrow> 200 | Some c \<Rightarrow> c)"

lemma status_new [simp]: "status_of new_writer = 200"
  by (simp add: status_of_def new_writer_def)

lemma code_new [simp]: "w_code new_writer = None"
  by (simp add: new_writer_def)

lemma code_setHeader [simp]: "w_code (setHeader k v w) = w_code w"
  by (simp add: setHeader_def)

lemma code_writeHeader [simp]:
  "w_code (writeHeader c w) = (case w_code w of None \<Rightarrow> Some c | Some d \<Rightarrow> Some d)"
  by (simp add: writeHeader_def split: option.split)

lemma code_writeBody [simp]: "w_code (writeBody b w) = w_code (writeHeader 200 w)"
  by (simp add: writeBody_def Let_def)

lemma status_writeHeader [simp]: "w_code w = None \<Longrightarrow> status_of (writeHeader c w) = c"
  by (simp add: status_of_def)

lemma code_sendProblem [simp]:
  "w_code (sendProblem t d i c w) = (case w_code w of None \<Rightarrow> Some c | Some e \<Rightarrow> Some e)"
  by (simp add: sendProblem_def split: option.split)

lemma status_sendProblem [simp]: "w_code w = None \<Longrightarrow> status_of (sendProblem t d i c w) = c"
  by (simp add: status_of_def)

end
