(* ===== verification/Subscribe.thy ===== *)
theory Subscribe
  imports SubKey Xname Http
begin

text \<open>
  The subscription handlers of the v1 API (\<open>doSubscribePost\<close>, \<open>doSubscribePatch\<close>,
  \<open>doSubscribeDelete\<close>, \<open>subscriptionsHandler\<close> in cmd/hmi-nfd/api.go), their error reports, and
  \<open>makeSubscriptionEntry\<close> of cmd/hmi-nfd/fanout.go.

  A handler takes the request and the state \<open>substate\<close> (the key/value store, the map of the
  subscribers to prune, the queue \<open>hsmsub_chan\<close> to the goroutine that subscribes to HSM) and
  returns the writer and the state. No writer (\<open>None\<close>) means that the handler panicked; the
  state is the one it had reached.
\<close>

section \<open>State and helpers\<close>

record substate =
  ss_kv :: kvs
  ss_prune :: "(string, bool) gomap"
  ss_hsmsub :: "ScnSubscribe list"

abbreviation invalid :: "string \<Rightarrow> string \<Rightarrow> writer \<Rightarrow> writer" where
  "invalid inst det \<equiv> sendProblem ''Invalid Request'' det inst 400"

abbreviation internal :: "string \<Rightarrow> string \<Rightarrow> writer \<Rightarrow> writer" where
  "internal inst det \<equiv> sendProblem ''Internal Server Error'' det inst 500"

definition makeSubscriptionEntry :: "string list \<Rightarrow> string \<Rightarrow> string \<Rightarrow> kvs \<Rightarrow> bool \<times> kvs" where
  "makeSubscriptionEntry complist url key s =
     kvStore key (marshal_SubData \<lparr>sdUrl = url, sdScnNodes = complist\<rparr>) s"

text \<open>The name of a subscriber, \<open>xname\<close> or \<open>agent@xname\<close>.\<close>

definition svcName :: "string \<Rightarrow> string option \<Rightarrow> string" where
  "svcName xname agent = (case agent of None \<Rightarrow> xname | Some a \<Rightarrow> a @ [SVC_DELIM] @ xname)"

section \<open>Reporting a body that does not unmarshal\<close>

text \<open>
  One field of the loop over the struct's fields. A JSON array decodes to \<open>[]interface{}\<close>, so the
  type assertion to \<open>[]string\<close> never succeeds; the chain of \<open>fallthrough\<close> from \<open>components\<close> ends
  in the empty case of \<open>roles\<close>, so only \<open>subroles\<close> reaches that assertion.
\<close>

definition field_error :: "(string \<times> json) list \<Rightarrow> string \<Rightarrow> string" where
  "field_error v name =
     (let nm = to_lower name in
      case map_of (rev v) nm of
        None \<Rightarrow> []
      | Some JNull \<Rightarrow> []
      | Some j \<Rightarrow>
          if nm = ''subscriber'' \<or> nm = ''url''
          then (case j of JStr _ \<Rightarrow> [] | _ \<Rightarrow> ''Invalid data type in '' @ name @ '' field. '')
          else if nm = ''subroles'' then ''Invalid data type in '' @ name @ '' array field. ''
          else if nm = ''enabled''
          then (case j of JBool _ \<Rightarrow> [] | _ \<Rightarrow> ''Invalid data type in '' @ name @ '' field. '')
          else [])"

definition handleSubscribePostError :: "string \<Rightarrow> writer \<Rightarrow> string \<Rightarrow> writer" where
  "handleSubscribePostError errinst w body =
     (case unmarshal_generic (to_lower body) of
        None \<Rightarrow> invalid errinst ''Error unmarshalling JSON payload'' w
      | Some v \<Rightarrow> invalid errinst (concat (map (field_error v)
          [''Components'', ''Subscriber'', ''SubscriberComponent'', ''SubscriberAgent'', ''Enabled'',
           ''Roles'', ''SubRoles'', ''SoftwareStatus'', ''States'', ''Url''])) w)"

definition handleSubscribeDeleteError :: "string \<Rightarrow> writer \<Rightarrow> string \<Rightarrow> writer" where
  "handleSubscribeDeleteError errinst w body =
     (case unmarshal_generic (to_lower body) of
        None \<Rightarrow> invalid errinst ''Error unmarshalling JSON payload'' w
      | Some v \<Rightarrow> invalid errinst (concat (map (field_error v) [''Subscriber'', ''Url''])) w)"

section \<open>POST\<close>

text \<open>Everything from the key on is the same in both versions of the API.\<close>

definition storeNew ::
  "string \<Rightarrow> ScnSubscribe \<Rightarrow> string \<Rightarrow> writer \<Rightarrow> substate \<Rightarrow> writer option \<times> substate" where
  "storeNew errinst jdata subKey w st =
     (case kvGet subKey (ss_kv st) of (r, kv1) \<Rightarrow>
        (case r of
           Inl _ \<Rightarrow> (Some (internal errinst ''Failed KV service GET operation'' w), st\<lparr>ss_kv := kv1\<rparr>)
         | Inr (Some _) \<Rightarrow>
             (Some (invalid errinst ''Subscription exists, cannot modify in POST operation'' w),
              st\<lparr>ss_kv := kv1\<rparr>)
         | Inr None \<Rightarrow>
             (case makeSubscriptionEntry (subComponents jdata) (subUrl jdata) subKey kv1 of
                (err, kv2) \<Rightarrow>
                  if err then (Some (internal errinst (kv_errmsg kv2) w), st\<lparr>ss_kv := kv2\<rparr>)
                  else (Some (writeHeader 200 (setHeader ''Connection'' ''close'' w)),
                        st\<lparr>ss_kv := kv2, ss_hsmsub := ss_hsmsub st @ [jdata]\<rparr>))))"

definition doSubscribePost :: "request \<Rightarrow> substate \<Rightarrow> writer option \<times> substate" where
  "doSubscribePost r st =
     (let w = new_writer; errinst = ''/subscribe'' in
      if rq_err r then (Some (invalid errinst ''Error reading inbound request body'' w), st)
      else case unmarshal_ScnSubscribe (to_lower (rq_body r)) of
        None \<Rightarrow> (Some (handleSubscribePostError errinst w (rq_body r)), st)
      | Some jdata \<Rightarrow>
          (case checkSubscription_v1 jdata of
             Some err \<Rightarrow> (Some (invalid errinst err w), st)
           | None \<Rightarrow>
               let ix = index_of (subSubscriber jdata) [SVC_DELIM] in
               (case (if ix \<noteq> - 1 then slice_from (subSubscriber jdata) (ix + 1)
                      else Some (subSubscriber jdata)) of
                  None \<Rightarrow> (None, st)
                | Some subscriber_xname \<Rightarrow>
                    if \<not> hmsTypeValid subscriber_xname
                    then (Some (invalid errinst ''Subcriber field is not a valid XName'' w), st)
                    else storeNew errinst jdata (makeSubscriptionKey_V1 jdata) w st)))"

section \<open>PATCH\<close>

text \<open>
  The body of the match: the old key is deleted when the new attributes give another key, then the
  entry is written, whose error is ignored. \<open>code\<close> is the status of success.
\<close>

definition replaceEntry ::
  "string \<Rightarrow> nat \<Rightarrow> ScnSubscribe \<Rightarrow> string \<Rightarrow> string \<Rightarrow> writer \<Rightarrow> substate \<Rightarrow> writer option \<times> substate" where
  "replaceEntry errinst code jdata key exKey w st =
     (if exKey \<noteq> key
      then (case kvDelete key (ss_kv st) of (err, kv1) \<Rightarrow>
              if err then (Some (internal errinst ''Error deleting ETCD KV value'' w), st\<lparr>ss_kv := kv1\<rparr>)
              else (Some (writeHeader code w), st\<lparr>ss_kv :=
                      snd (makeSubscriptionEntry (subComponents jdata) (subUrl jdata) exKey kv1)\<rparr>))
      else (Some (writeHeader code w), st\<lparr>ss_kv :=
              snd (makeSubscriptionEntry (subComponents jdata) (subUrl jdata) exKey (ss_kv st))\<rparr>))"

text \<open>
  The loop of both PATCH handlers. \<open>hit\<close> is their test on the component and the agent of the key
  and on the entry, \<open>exKey\<close> the key of the new subscription.
\<close>

fun patchLoop ::
  "string \<Rightarrow> nat \<Rightarrow> (string \<Rightarrow> string option \<Rightarrow> SubData \<Rightarrow> bool) \<Rightarrow> string \<Rightarrow> ScnSubscribe \<Rightarrow>
   (string \<times> string) list \<Rightarrow> writer \<Rightarrow> substate \<Rightarrow> writer option \<times> substate" where
  "patchLoop errinst code hit exKey jdata [] w st = (Some (writeHeader code w), st)"
| "patchLoop errinst code hit exKey jdata ((key, val) # rest) w st =
     (case keyServicePatch key of
        None \<Rightarrow> (None, st)
      | Some (xname, agent) \<Rightarrow>
          (case unmarshal_SubData val of
             None \<Rightarrow> (Some (internal errinst ''Error unmarshalling ETCD KV value'' w), st)
           | Some sd \<Rightarrow>
               if hit xname agent sd then replaceEntry errinst code jdata key exKey w st
               else patchLoop errinst code hit exKey jdata rest w st))"

definition patch_hit_v1 :: "ScnSubscribe \<Rightarrow> string \<Rightarrow> string option \<Rightarrow> SubData \<Rightarrow> bool" where
  "patch_hit_v1 jdata xname agent sd \<longleftrightarrow>
     sdUrl sd = subUrl jdata \<and> svcName xname agent = subSubscriber jdata"

text \<open>The keys a PATCH looks at: those that start with \<open>sub#xname\<close>, up to \<open>sub#xnamez\<close>.\<close>

definition patchRange :: "ScnSubscribe \<Rightarrow> (string \<times> string) option" where
  "patchRange jdata =
     (let ix = index_of (subSubscriber jdata) [SVC_DELIM] in
      do { subscriber_xname \<leftarrow> (if 0 < ix then slice_from (subSubscriber jdata) (ix + 1)
                                else Some (subSubscriber jdata));
           let startKey = ''sub'' @ [KEY_DELIM] @ subscriber_xname;
           Some (startKey, startKey @ ''z'') })"

definition doSubscribePatch :: "request \<Rightarrow> substate \<Rightarrow> writer option \<times> substate" where
  "doSubscribePatch r st =
     (let w = new_writer; errinst = ''/subscribe'' in
      if rq_err r then (Some (invalid errinst ''Error reading inbound request body'' w), st)
      else case unmarshal_ScnSubscribe (to_lower (rq_body r)) of
        None \<Rightarrow> (Some (handleSubscribePostError errinst w (rq_body r)), st)
      | Some jdata \<Rightarrow>
          (case checkSubscription_v1 jdata of
             Some err \<Rightarrow> (Some (invalid errinst err w), st)
           | None \<Rightarrow>
               (case patchRange jdata of
                  None \<Rightarrow> (None, st)
                | Some (startKey, endKey) \<Rightarrow>
                    (case kvGetRange startKey endKey (ss_kv st) of
                       (Inl _, kv1) \<Rightarrow>
                         (Some (internal errinst ''Key/Value ETCD service GET operation failed'' w),
                          st\<lparr>ss_kv := kv1\<rparr>)
                     | (Inr skvlist, kv1) \<Rightarrow>
                         patchLoop errinst 200 (patch_hit_v1 jdata) (makeSubscriptionKey_V1 jdata)
                           jdata skvlist w (st\<lparr>ss_kv := kv1\<rparr>)))))"

section \<open>DELETE\<close>

text \<open>Deleting a key and, when that worked, noting its subscriber in the prune map.\<close>

definition deleteEntry :: "string \<Rightarrow> string \<Rightarrow> substate \<Rightarrow> substate" where
  "deleteEntry key subsvc st =
     (case kvDelete key (ss_kv st) of (err, kv1) \<Rightarrow>
        if err then st\<lparr>ss_kv := kv1\<rparr>
        else st\<lparr>ss_kv := kv1, ss_prune := gm_put subsvc True (ss_prune st)\<rparr>)"

fun deleteLoop_v1 ::
  "string \<Rightarrow> NodeSubscriptionDelete \<Rightarrow> (string \<times> string) list \<Rightarrow> writer \<Rightarrow> substate \<Rightarrow>
   writer option \<times> substate" where
  "deleteLoop_v1 errinst jdata [] w st = (Some (writeHeader 200 w), st)"
| "deleteLoop_v1 errinst jdata ((key, val) # rest) w st =
     (case keyService key of
        None \<Rightarrow> (None, st)
      | Some (xname, agent) \<Rightarrow>
          if to_lower (svcName xname agent) = to_lower (nsdSubscriber jdata)
          then (case unmarshal_SubData val of
                  None \<Rightarrow> (Some (internal errinst ''Error unmarshalling ETCD KV value'' w), st)
                | Some sd \<Rightarrow>
                    deleteLoop_v1 errinst jdata rest w
                      (if to_lower (nsdUrl jdata) = to_lower (sdUrl sd)
                       then deleteEntry key (svcName xname agent) st else st))
          else deleteLoop_v1 errinst jdata rest w st)"

text \<open>The first three checks only write a report: none of them returns.\<close>

definition doSubscribeDelete :: "request \<Rightarrow> substate \<Rightarrow> writer option \<times> substate" where
  "doSubscribeDelete r st =
     (let errinst = ''/subscribe'';
          w1 = (if rq_err r then invalid errinst ''Error reading inbound request'' new_writer
                else new_writer) in
      case unmarshal_NodeSubscriptionDelete (rq_body r) of
        None \<Rightarrow> (Some (handleSubscribeDeleteError errinst w1 (rq_body r)), st)
      | Some jdata \<Rightarrow>
          let w2 = (if nsdSubscriber jdata = []
                    then invalid errinst ''Missing Subscriber field in request'' w1 else w1);
              w3 = (if nsdUrl jdata = []
                    then invalid errinst ''Missing Url field in request'' w2 else w2) in
          (case kvGetRange KEYRANGE_START KEYRANGE_END (ss_kv st) of
             (Inl _, kv1) \<Rightarrow>
               (Some (internal errinst ''Key/Value ETCD service GET operation failed'' w3),
                st\<lparr>ss_kv := kv1\<rparr>)
           | (Inr skvlist, kv1) \<Rightarrow>
               deleteLoop_v1 errinst jdata skvlist w3 (st\<lparr>ss_kv := kv1\<rparr>)))"

section \<open>Listing\<close>

text \<open>
  The loop of the listing handlers over the subscriptions whose component passes \<open>want\<close>. The outer
  \<open>None\<close> is a panic, the inner one a value that does not unmarshal.
\<close>

fun listLoop ::
  "(string \<Rightarrow> bool) \<Rightarrow> (string \<times> string) list \<Rightarrow> ScnSubscribe list \<Rightarrow> ScnSubscribe list option option" where
  "listLoop want [] acc = Some (Some acc)"
| "listLoop want ((key, val) # rest) acc =
     do { xname \<leftarrow> go_nth (split_on KEY_DELIM key) 1;
          if \<not> want xname then listLoop want rest acc
          else do { info \<leftarrow> subinfo_of_key key;
                    case unmarshal_SubData val of
                      None \<Rightarrow> Some None
                    | Some sd \<Rightarrow> listLoop want rest
                        (acc @ [info\<lparr>subComponents := sdScnNodes sd, subUrl := sdUrl sd\<rparr>]) } }"

definition listReply ::
  "string \<Rightarrow> (string \<Rightarrow> bool) \<Rightarrow> writer \<Rightarrow> substate \<Rightarrow> writer option \<times> substate" where
  "listReply errinst want w st =
     (case kvGetRange KEYRANGE_START KEYRANGE_END (ss_kv st) of
        (Inl _, kv1) \<Rightarrow> (Some (internal errinst ''KV fetch error'' w), st\<lparr>ss_kv := kv1\<rparr>)
      | (Inr kvlist, kv1) \<Rightarrow>
          (case listLoop want kvlist [] of
             None \<Rightarrow> (None, st\<lparr>ss_kv := kv1\<rparr>)
           | Some None \<Rightarrow> (Some (internal errinst ''JSON unmarshal error'' w), st\<lparr>ss_kv := kv1\<rparr>)
           | Some (Some infos) \<Rightarrow>
               (Some (writeBody (Bytes (marshal_SubscriptionList infos))
                 (writeHeader 200 (setHeader ''Content-Type'' ''application/json'' w))),
                st\<lparr>ss_kv := kv1\<rparr>)))"

definition not_get :: "string \<Rightarrow> writer \<Rightarrow> writer" where
  "not_get errinst w =
     sendProblem ''Invalid Request'' ''Only GET operations supported'' errinst 405
       (setHeader ''Allow'' ''GET'' w)"

definition subscriptionsHandler :: "request \<Rightarrow> substate \<Rightarrow> writer option \<times> substate" where
  "subscriptionsHandler r st =
     (let errinst = ''/subscriptions'' in
      if rq_method r \<noteq> ''GET'' then (Some (not_get errinst new_writer), st)
      else listReply errinst (\<lambda>_. True) new_writer st)"

section \<open>The store under the handlers\<close>

definition subscriptions :: "substate \<Rightarrow> string \<rightharpoonup> SubData" where
  "subscriptions st k = Option.bind (kv_content (ss_kv st) k) unmarshal_SubData"

lemma subscriptions_records: "subscriptions st = subs.records (ss_kv st)"
  by (rule ext) (simp add: subscriptions_def subs.records_def)

definition in_range :: "string \<Rightarrow> bool" where
  "in_range k \<longleftrightarrow> KEYRANGE_START \<le> k \<and> k \<le> KEYRANGE_END"

lemma valid_key_in_range:
  "hmsTypeValid xn \<Longrightarrow> in_range (makeSubscriptionKey_V2 j xn svc)"
  using hmsTypeValid_head [of xn] makeKey_in_range [of xn]
  by (auto simp: in_range_def less_eq_char_def less_char_def)

text \<open>The name under which a key's subscriber is put in the prune map.\<close>

definition key_svcName :: "string \<Rightarrow> string" where
  "key_svcName key = (case keyService key of None \<Rightarrow> [] | Some (x, a) \<Rightarrow> svcName x a)"

subsection \<open>POST\<close>

lemma kv_store_frame: "kvStore k v s = (e, s') \<Longrightarrow> j \<noteq> k \<Longrightarrow> kv_content s' j = kv_content s j"
  using kv.store_frame [of j k v s] by simp

lemma storeNew_frame:
  "kv_content (ss_kv st) k = Some v \<Longrightarrow>
   kv_content (ss_kv (snd (storeNew e j key w st))) k = Some v"
  using kv.get_val [of key "ss_kv st"] kv.get_frame [of key "ss_kv st"]
  by (cases "k = key")
    (auto simp: storeNew_def makeSubscriptionEntry_def kv_store_frame
      split: prod.splits sum.splits option.splits)

lemma storeNew_not_panics [simp]: "fst (storeNew e j key w st) \<noteq> None"
  by (auto simp: storeNew_def split: prod.splits sum.splits option.splits)

lemma storeNew_status:
  assumes "storeNew e j key new_writer st = (Some w, st')"
  shows "status_of w = 200 \<and> kv_content (ss_kv st) key = None \<and>
      kv_content (ss_kv st') = (kv_content (ss_kv st))(key \<mapsto>
        marshal_SubData \<lparr>sdUrl = subUrl j, sdScnNodes = subComponents j\<rparr>) \<and>
      ss_hsmsub st' = ss_hsmsub st @ [j]
    \<or> status_of w = 400 \<and> kv_content (ss_kv st) key \<noteq> None \<and>
      kv_content (ss_kv st') = kv_content (ss_kv st) \<and> ss_hsmsub st' = ss_hsmsub st
    \<or> status_of w = 500 \<and> \<not> kv_reliable (ss_kv st) \<and> ss_hsmsub st' = ss_hsmsub st"
proof -
  obtain r kv1 where g: "kvGet key (ss_kv st) = (r, kv1)" by force
  have rel1: "kv_reliable (ss_kv st) \<Longrightarrow> kv_reliable kv1"
    and c1: "kv_content kv1 = kv_content (ss_kv st)"
    using kv.reliable_keep(1) [of "ss_kv st" key] kv.get_frame [of key "ss_kv st"] g by auto
  show ?thesis
  proof (cases r)
    case (Inl e')
    then have "\<not> kv_reliable (ss_kv st)" using kv.reliable_get [of "ss_kv st" key] g by auto
    then show ?thesis using assms g Inl by (auto simp: storeNew_def)
  next
    case (Inr vo)
    then have vo: "vo = kv_content (ss_kv st) key" using kv.get_val g by blast
    show ?thesis
    proof (cases vo)
      case (Some v)
      then show ?thesis using assms g Inr vo c1 by (auto simp: storeNew_def)
    next
      case None
      obtain err kv2 where m: "makeSubscriptionEntry (subComponents j) (subUrl j) key kv1 = (err, kv2)"
        by force
      let ?v = "marshal_SubData \<lparr>sdUrl = subUrl j, sdScnNodes = subComponents j\<rparr>"
      have m': "kvStore key ?v kv1 = (err, kv2)" using m by (simp add: makeSubscriptionEntry_def)
      show ?thesis
      proof (cases err)
        case True
        then have "\<not> kv_reliable (ss_kv st)"
          using kv.reliable_store [of kv1 key ?v] rel1 m' by auto
        then show ?thesis using True assms g Inr None m by (auto simp: storeNew_def)
      next
        case False
        then have "kv_content kv2 = (kv_content (ss_kv st))(key \<mapsto> ?v)"
          using kv.store_ok [of key ?v kv1 kv2] m' c1 by simp
        then show ?thesis using False assms g Inr None m vo by (auto simp: storeNew_def)
      qed
    qed
  qed
qed

subsection \<open>DELETE\<close>

lemma deleteEntry_kv: "ss_kv (deleteEntry k n st) = snd (kvDelete k (ss_kv st))"
  by (auto simp: deleteEntry_def split: prod.split)

lemma deleteEntry_hsmsub [simp]: "ss_hsmsub (deleteEntry k n st) = ss_hsmsub st"
  by (auto simp: deleteEntry_def split: prod.split)

definition deleteEntries :: "string list \<Rightarrow> substate \<Rightarrow> substate" where
  "deleteEntries = fold (\<lambda>k. deleteEntry k (key_svcName k))"

lemma deleteEntries_simps [simp]:
  "deleteEntries [] st = st"
  "deleteEntries (k # ks) st = deleteEntries ks (deleteEntry k (key_svcName k) st)"
  by (simp_all add: deleteEntries_def)

lemma deleteEntries_kv:
  "ss_kv (deleteEntries ks st) = fold (\<lambda>k s. snd (kvDelete k s)) ks (ss_kv st)"
  by (induction ks arbitrary: st) (simp_all add: deleteEntry_kv)

lemma deleteEntries_hsmsub [simp]: "ss_hsmsub (deleteEntries ks st) = ss_hsmsub st"
  by (induction ks arbitrary: st) simp_all

lemma deleteEntries_submap: "kv_content (ss_kv (deleteEntries ks st)) \<subseteq>\<^sub>m kv_content (ss_kv st)"
  unfolding deleteEntries_kv by (rule kv.delete_many_submap)

lemma deleteEntries_reliable:
  "kv_reliable (ss_kv st) \<Longrightarrow>
   kv_content (ss_kv (deleteEntries ks st)) = kv_content (ss_kv st) |` (- set ks)"
  unfolding deleteEntries_kv by (rule kv.reliable_delete_many)

lemma deleteEntries_prune_sub:
  "gm_flag (ss_prune (deleteEntries ks st)) n \<Longrightarrow>
   gm_flag (ss_prune st) n \<or> n \<in> key_svcName ` set ks"
proof (induction ks arbitrary: st)
  case (Cons k ks)
  then have "gm_flag (ss_prune (deleteEntry k (key_svcName k) st)) n \<or> n \<in> key_svcName ` set ks"
    by simp
  then show ?case by (auto simp: deleteEntry_def split: prod.splits if_splits)
qed simp

lemma deleteEntries_prune_reliable:
  "kv_reliable (ss_kv st) \<Longrightarrow>
   gm_flag (ss_prune (deleteEntries ks st)) n \<longleftrightarrow> gm_flag (ss_prune st) n \<or> n \<in> key_svcName ` set ks"
proof (induction ks arbitrary: st)
  case (Cons k ks)
  have "kv_reliable (ss_kv (deleteEntry k (key_svcName k) st))"
    using kv.reliable_keep(4) [OF Cons.prems] by (simp add: deleteEntry_kv)
  moreover have "gm_flag (ss_prune (deleteEntry k (key_svcName k) st)) n \<longleftrightarrow>
      gm_flag (ss_prune st) n \<or> n = key_svcName k"
    using kv.reliable_delete [OF Cons.prems, of k] by (auto simp: deleteEntry_def split: prod.splits)
  ultimately show ?case using Cons.IH by auto
qed simp

definition delete_hit_v1 :: "NodeSubscriptionDelete \<Rightarrow> string \<times> string \<Rightarrow> bool" where
  "delete_hit_v1 jdata kv \<longleftrightarrow>
     to_lower (key_svcName (fst kv)) = to_lower (nsdSubscriber jdata) \<and>
     (\<exists>sd. unmarshal_SubData (snd kv) = Some sd \<and> to_lower (nsdUrl jdata) = to_lower (sdUrl sd))"

text \<open>Every entry the deletion looks at can be read.\<close>

definition readable :: "(string \<times> string) list \<Rightarrow> bool" where
  "readable kvs \<longleftrightarrow> (\<forall>kv \<in> set kvs. keyService (fst kv) \<noteq> None \<and> unmarshal_SubData (snd kv) \<noteq> None)"

lemma deleteLoop_v1_fold:
  "readable kvs \<Longrightarrow> deleteLoop_v1 e jdata kvs w st =
     (Some (writeHeader 200 w), deleteEntries (map fst (filter (delete_hit_v1 jdata) kvs)) st)"
proof (induction e jdata kvs w st rule: deleteLoop_v1.induct)
  case (2 e jdata key val rest w st)
  then obtain x a sd where k: "keyService key = Some (x, a)" and v: "unmarshal_SubData val = Some sd"
    by (auto simp: readable_def)
  have r: "readable rest" using "2.prems" by (simp add: readable_def)
  show ?case
    using "2.IH" k v r by (auto simp: delete_hit_v1_def key_svcName_def)
qed simp

text \<open>Whatever the entries are, what is deleted is a part of the hits.\<close>

lemma deleteLoop_v1_any:
  "\<exists>n. snd (deleteLoop_v1 e jdata kvs w st) =
     deleteEntries (take n (map fst (filter (delete_hit_v1 jdata) kvs))) st"
proof (induction e jdata kvs w st rule: deleteLoop_v1.induct)
  case (2 e jdata key val rest w st)
  show ?case
  proof (cases "keyService key")
    case None
    then show ?thesis by (auto intro: exI [of _ 0])
  next
    case (Some xa)
    obtain x a where xa: "xa = (x, a)" by (cases xa)
    show ?thesis
    proof (cases "to_lower (svcName x a) = to_lower (nsdSubscriber jdata)")
      case False
      then show ?thesis using "2.IH"(2) [OF Some xa [symmetric] False] Some xa
        by (simp add: delete_hit_v1_def key_svcName_def)
    next
      case True
      show ?thesis
      proof (cases "unmarshal_SubData val")
        case None
        then show ?thesis using Some xa True by (auto intro: exI [of _ 0])
      next
        case v: (Some sd)
        obtain n where n: "snd (deleteLoop_v1 e jdata rest w
            (if to_lower (nsdUrl jdata) = to_lower (sdUrl sd)
             then deleteEntry key (svcName x a) st else st)) =
          deleteEntries (take n (map fst (filter (delete_hit_v1 jdata) rest)))
            (if to_lower (nsdUrl jdata) = to_lower (sdUrl sd)
             then deleteEntry key (svcName x a) st else st)"
          using "2.IH"(1) [OF Some xa [symmetric] True v] by blast
        show ?thesis
        proof (cases "to_lower (nsdUrl jdata) = to_lower (sdUrl sd)")
          case u: True
          have "delete_hit_v1 jdata (key, val)"
            using True u v Some xa by (simp add: delete_hit_v1_def key_svcName_def)
          then show ?thesis using n u True v Some xa
            by (auto simp: key_svcName_def intro!: exI [of _ "Suc n"])
        next
          case u: False
          have "\<not> delete_hit_v1 jdata (key, val)"
            using u v by (simp add: delete_hit_v1_def)
          then show ?thesis using n u True v Some xa by auto
        qed
      qed
    qed
  qed
qed (auto intro: exI [of _ 0])

subsection \<open>PATCH\<close>

lemma makeSubscriptionEntry_frame:
  "j \<noteq> key \<Longrightarrow> kv_content (snd (makeSubscriptionEntry cs u key s)) j = kv_content s j"
  by (simp add: makeSubscriptionEntry_def kv.store_frame)

lemma kv_delete_frame: "kvDelete k s = (e, s') \<Longrightarrow> j \<noteq> k \<Longrightarrow> kv_content s' j = kv_content s j"
  using kv.delete_frame [of j k s] by simp

lemma replaceEntry_frame:
  "k \<noteq> key \<Longrightarrow> k \<noteq> exKey \<Longrightarrow>
   kv_content (ss_kv (snd (replaceEntry e c j key exKey w st))) k = kv_content (ss_kv st) k"
  by (auto simp: replaceEntry_def makeSubscriptionEntry_frame kv_delete_frame split: prod.split)

lemma replaceEntry_rest [simp]:
  "ss_prune (snd (replaceEntry e c j key exKey w st)) = ss_prune st"
  "ss_hsmsub (snd (replaceEntry e c j key exKey w st)) = ss_hsmsub st"
  "fst (replaceEntry e c j key exKey w st) \<noteq> None"
  by (auto simp: replaceEntry_def split: prod.split)

lemma replaceEntry_reliable:
  assumes "kv_reliable (ss_kv st)"
  shows "fst (replaceEntry e c j key exKey w st) = Some (writeHeader c w)"
    and "kv_content (ss_kv (snd (replaceEntry e c j key exKey w st))) =
      ((kv_content (ss_kv st))(key := None))(exKey \<mapsto>
        marshal_SubData \<lparr>sdUrl = subUrl j, sdScnNodes = subComponents j\<rparr>)"
proof -
  obtain err kv1 where d: "kvDelete key (ss_kv st) = (err, kv1)" by force
  have ne: "\<not> err" using kv.reliable_delete [OF assms, of key] d by simp
  have c1: "kv_content kv1 = (kv_content (ss_kv st))(key := None)"
    using kv.reliable_delete_content [OF assms, of key] d by simp
  have r1: "kv_reliable kv1" using kv.reliable_keep(4) [OF assms, of key] d by simp
  show "fst (replaceEntry e c j key exKey w st) = Some (writeHeader c w)"
    using d ne by (simp add: replaceEntry_def)
  show "kv_content (ss_kv (snd (replaceEntry e c j key exKey w st))) =
      ((kv_content (ss_kv st))(key := None))(exKey \<mapsto>
        marshal_SubData \<lparr>sdUrl = subUrl j, sdScnNodes = subComponents j\<rparr>)"
    using d ne c1 r1 assms
    by (auto simp: replaceEntry_def makeSubscriptionEntry_def kv.reliable_store_content)
qed

definition entry_hit :: "(string \<Rightarrow> string option \<Rightarrow> SubData \<Rightarrow> bool) \<Rightarrow> string \<times> string \<Rightarrow> bool" where
  "entry_hit hit kv =
     (case (keyServicePatch (fst kv), unmarshal_SubData (snd kv)) of
        (Some (xn, ag), Some sd) \<Rightarrow> hit xn ag sd | _ \<Rightarrow> False)"

lemma patchLoop_cases:
  "snd (patchLoop e c hit exKey j kvs w st) = st \<or>
   (\<exists>kv \<in> set kvs. entry_hit hit kv \<and>
      patchLoop e c hit exKey j kvs w st = replaceEntry e c j (fst kv) exKey w st)"
proof (induction e c hit exKey j kvs w st rule: patchLoop.induct)
  case (2 e c hit exKey j key val rest w st)
  show ?case
  proof (cases "keyServicePatch key")
    case (Some xa)
    obtain x a where xa: "xa = (x, a)" by (cases xa)
    show ?thesis
    proof (cases "unmarshal_SubData val")
      case v: (Some sd)
      show ?thesis
      proof (cases "hit x a sd")
        case True
        then show ?thesis using Some xa v by (auto simp: entry_hit_def)
      next
        case False
        then show ?thesis using "2.IH" [OF Some xa [symmetric] v False] Some xa v by auto
      qed
    qed (simp add: Some xa)
  qed simp
qed simp

definition patchable :: "(string \<times> string) list \<Rightarrow> bool" where
  "patchable kvs \<longleftrightarrow>
     (\<forall>kv \<in> set kvs. keyServicePatch (fst kv) \<noteq> None \<and> unmarshal_SubData (snd kv) \<noteq> None)"

lemma patchLoop_find:
  "patchable kvs \<Longrightarrow> patchLoop e c hit exKey j kvs w st =
     (case find (entry_hit hit) kvs of
        None \<Rightarrow> (Some (writeHeader c w), st)
      | Some kv \<Rightarrow> replaceEntry e c j (fst kv) exKey w st)"
proof (induction e c hit exKey j kvs w st rule: patchLoop.induct)
  case (2 e c hit exKey j key val rest w st)
  then obtain x a sd where "keyServicePatch key = Some (x, a)" "unmarshal_SubData val = Some sd"
    by (auto simp: patchable_def)
  moreover have "patchable rest" using "2.prems" by (simp add: patchable_def)
  ultimately show ?case using "2.IH" by (simp add: entry_hit_def)
qed simp

lemma patchRange_total: "\<exists>xn. patchRange j = Some (''sub#'' @ xn, ''sub#'' @ xn @ ''z'')"
proof -
  have "index_of (subSubscriber j) [SVC_DELIM] + 1 \<le> int (length (subSubscriber j))"
    if "0 \<le> index_of (subSubscriber j) [SVC_DELIM]"
    using index_of_bound [OF that] by simp
  then show ?thesis by (auto simp: patchRange_def Let_def slice_from_def)
qed

subsection \<open>Listing\<close>

definition listable :: "(string \<times> string) list \<Rightarrow> bool" where
  "listable kvs \<longleftrightarrow> (\<forall>kv \<in> set kvs. subinfo_of_key (fst kv) \<noteq> None \<and> unmarshal_SubData (snd kv) \<noteq> None)"

definition list_info :: "string \<times> string \<Rightarrow> ScnSubscribe" where
  "list_info kv =
     (the (subinfo_of_key (fst kv)))\<lparr>
        subComponents := sdScnNodes (the (unmarshal_SubData (snd kv))),
        subUrl := sdUrl (the (unmarshal_SubData (snd kv)))\<rparr>"

definition key_component :: "string \<Rightarrow> string" where
  "key_component k = split_on KEY_DELIM k ! 1"

lemma listLoop_map:
  "listable kvs \<Longrightarrow> listLoop want kvs acc =
     Some (Some (acc @ map list_info (filter (\<lambda>kv. want (key_component (fst kv))) kvs)))"
proof (induction want kvs acc rule: listLoop.induct)
  case (2 want key val rest acc)
  then obtain info sd where i: "subinfo_of_key key = Some info" and v: "unmarshal_SubData val = Some sd"
    by (auto simp: listable_def)
  have n: "go_nth (split_on KEY_DELIM key) 1 = Some (key_component key)"
    using i by (cases "go_nth (split_on KEY_DELIM key) 1")
      (auto simp: subinfo_of_key_def Let_def key_component_def go_nth_def split: if_splits)
  have r: "listable rest" using "2.prems" by (simp add: listable_def)
  show ?case
  proof (cases "want (key_component key)")
    case True
    then show ?thesis using "2.IH"(2) [OF n _ i v r] i v n by (simp add: list_info_def)
  next
    case False
    then show ?thesis using "2.IH"(1) [OF n _ r] n by simp
  qed
qed simp

section \<open>What the handlers do\<close>

lemma subscriptions_restrict:
  "kv_content (ss_kv st') = kv_content (ss_kv st) |` A \<Longrightarrow> subscriptions st' = subscriptions st |` A"
  unfolding subscriptions_records by (rule subs.records_restrict)

lemma keyService_component: "keyService k = Some (x, a) \<Longrightarrow> x = key_component k"
  by (auto simp: keyService_def Let_def key_component_def go_nth_def split: if_splits bind_splits)

definition key_agent :: "string \<Rightarrow> string" where
  "key_agent k = (case keyService k of Some (_, Some a) \<Rightarrow> a | _ \<Rightarrow> [])"

text \<open>The subscriptions whose component and agent pass a test.\<close>

definition matching_keys :: "(string \<Rightarrow> string \<Rightarrow> bool) \<Rightarrow> substate \<Rightarrow> string set" where
  "matching_keys hit st =
     {k. in_range k \<and> kv_content (ss_kv st) k \<noteq> None \<and> hit (key_component k) (key_agent k)}"

text \<open>The keys of all subscriptions can be taken apart.\<close>

definition keys_readable :: "substate \<Rightarrow> bool" where
  "keys_readable st \<longleftrightarrow>
     (\<forall>k \<in> dom (kv_content (ss_kv st)). in_range k \<longrightarrow> keyService k \<noteq> None)"

definition store_up :: "substate \<Rightarrow> bool" where
  "store_up st \<longleftrightarrow> kv_ok (ss_kv st) \<and> kv_reliable (ss_kv st)"

text \<open>What a deletion leaves: the subscriptions outside \<open>H\<close>, and \<open>H\<close> noted in the prune map.\<close>

definition deleted :: "string set \<Rightarrow> substate \<Rightarrow> substate \<Rightarrow> bool" where
  "deleted H st st' \<longleftrightarrow> subscriptions st' = subscriptions st |` (- H) \<and>
     (\<forall>n. gm_flag (ss_prune st') n \<longleftrightarrow> gm_flag (ss_prune st) n \<or> n \<in> key_svcName ` H) \<and>
     ss_hsmsub st' = ss_hsmsub st"

lemma deleteEntries_deleted:
  assumes "kv_reliable s" "kv_content s = kv_content (ss_kv st)"
  shows "deleted (set ks) st (deleteEntries ks (st\<lparr>ss_kv := s\<rparr>))"
proof -
  let ?st = "st\<lparr>ss_kv := s\<rparr>"
  have rel: "kv_reliable (ss_kv ?st)" using assms(1) by simp
  have "subscriptions (deleteEntries ks ?st) = subscriptions st |` (- set ks)"
    using deleteEntries_reliable [OF rel, of ks] assms(2) by (intro subscriptions_restrict) simp
  then show ?thesis
    using deleteEntries_prune_reliable [OF rel, of ks] by (simp add: deleted_def)
qed

text \<open>The entry that a subscription request stores.\<close>

definition entry_of :: "ScnSubscribe \<Rightarrow> SubData" where
  "entry_of j = \<lparr>sdUrl = subUrl j, sdScnNodes = subComponents j\<rparr>"

lemma subscriptions_upd:
  "kv_content (ss_kv st') = (kv_content (ss_kv st))(k \<mapsto> marshal_SubData sd) \<Longrightarrow>
   subscriptions st' = (subscriptions st)(k \<mapsto> sd)"
  unfolding subscriptions_records by (rule subs.records_update [OF TrueI])

lemma storeNew_prune [simp]: "ss_prune (snd (storeNew e j key w st)) = ss_prune st"
  by (auto simp: storeNew_def split: prod.splits sum.splits option.splits)

lemma storeNew_up:
  assumes "store_up st"
  shows "\<exists>w st'. storeNew e j key new_writer st = (Some w, st') \<and>
    (if kv_content (ss_kv st) key = None
     then status_of w = 200 \<and> subscriptions st' = (subscriptions st)(key \<mapsto> entry_of j) \<and>
       ss_hsmsub st' = ss_hsmsub st @ [j]
     else status_of w = 400 \<and> subscriptions st' = subscriptions st \<and> ss_hsmsub st' = ss_hsmsub st)"
proof -
  obtain w st' where s: "storeNew e j key new_writer st = (Some w, st')"
    using storeNew_not_panics [of e j key new_writer st] by (cases "storeNew e j key new_writer st") auto
  have rel: "kv_reliable (ss_kv st)" using assms by (simp add: store_up_def)
  have "subscriptions st' = subscriptions st" if "kv_content (ss_kv st') = kv_content (ss_kv st)"
    by (rule ext) (simp add: subscriptions_def that)
  then show ?thesis
    using storeNew_status [OF s] rel s subscriptions_upd [of st' st key "entry_of j"]
    by (auto simp: entry_of_def)
qed

lemma post_v1_cases:
  "(\<exists>w. doSubscribePost r st = (Some w, st) \<and> status_of w = 400) \<or>
   (\<exists>j key. doSubscribePost r st = storeNew ''/subscribe'' j key new_writer st \<and>
      unmarshal_ScnSubscribe (to_lower (rq_body r)) = Some j \<and> checkSubscription_v1 j = None \<and>
      key = makeSubscriptionKey_V1 j)"
proof (cases "rq_err r \<or> unmarshal_ScnSubscribe (to_lower (rq_body r)) = None")
  case True
  then show ?thesis
    by (auto simp: doSubscribePost_def Let_def handleSubscribePostError_def split: option.split)
next
  case False
  then obtain j where j: "\<not> rq_err r" "unmarshal_ScnSubscribe (to_lower (rq_body r)) = Some j" by auto
  let ?ix = "index_of (subSubscriber j) [SVC_DELIM]"
  have "slice_from (subSubscriber j) (?ix + 1) \<noteq> None" if "?ix \<noteq> - 1"
  proof -
    have "0 \<le> ?ix" using that index_of_ge_m1 [of "subSubscriber j" "[SVC_DELIM]"] by linarith
    then show ?thesis
      using index_of_bound [of "subSubscriber j" "[SVC_DELIM]"] by (simp add: slice_from_None_iff)
  qed
  then obtain xn where xn: "(if ?ix \<noteq> - 1 then slice_from (subSubscriber j) (?ix + 1)
      else Some (subSubscriber j)) = Some xn" by (cases "?ix = - 1") auto
  show ?thesis
    unfolding doSubscribePost_def Let_def using j
    by (simp only: option.case if_False xn) (auto split: option.split)
qed

definition entries_readable :: "substate \<Rightarrow> bool" where
  "entries_readable st \<longleftrightarrow> keys_readable st \<and>
     (\<forall>k \<in> dom (kv_content (ss_kv st)). in_range k \<longrightarrow> subscriptions st k \<noteq> None)"

text \<open>
  A v1 DELETE removes exactly the subscriptions whose subscriber and URL are those of the request up
  to case, and notes them in the prune map, also when it answers 400.
\<close>

lemma delete_v1_any:
  assumes "store_up st" "entries_readable st" "unmarshal_NodeSubscriptionDelete (rq_body r) = Some j"
  shows "\<exists>w st'. doSubscribeDelete r st = (Some w, st') \<and>
    status_of w = (if rq_err r \<or> nsdSubscriber j = [] \<or> nsdUrl j = [] then 400 else 200) \<and>
    deleted {k. in_range k \<and> to_lower (key_svcName k) = to_lower (nsdSubscriber j) \<and>
      (\<exists>sd. subscriptions st k = Some sd \<and> to_lower (sdUrl sd) = to_lower (nsdUrl j))} st st'"
proof -
  obtain kvs kv1 where r: "kvGetRange KEYRANGE_START KEYRANGE_END (ss_kv st) = (Inr kvs, kv1)"
    and c: "kv_content kv1 = kv_content (ss_kv st)" and rel: "kv_reliable kv1"
    and mem: "\<And>k v. (k, v) \<in> set kvs \<longleftrightarrow> kv_content (ss_kv st) k = Some v \<and> in_range k"
    using kv.range_read [of "ss_kv st" KEYRANGE_START KEYRANGE_END] assms(1)
    unfolding in_range_def store_up_def by blast
  let ?ks = "map fst (filter (delete_hit_v1 j) kvs)"
  have "readable kvs"
    using assms(2) mem
    by (fastforce simp: readable_def entries_readable_def keys_readable_def subscriptions_def)
  note fold = deleteLoop_v1_fold [OF this, of "''/subscribe''" j]
  obtain w where w: "doSubscribeDelete r st = (Some w, deleteEntries ?ks (st\<lparr>ss_kv := kv1\<rparr>))"
      "status_of w = (if rq_err r \<or> nsdSubscriber j = [] \<or> nsdUrl j = [] then 400 else 200)"
    using assms(3) by (simp add: doSubscribeDelete_def Let_def r fold status_of_def)
  have "set ?ks = {k. in_range k \<and> to_lower (key_svcName k) = to_lower (nsdSubscriber j) \<and>
      (\<exists>sd. subscriptions st k = Some sd \<and> to_lower (sdUrl sd) = to_lower (nsdUrl j))}"
  proof -
    have "set ?ks = {k. \<exists>v. (k, v) \<in> set kvs \<and> delete_hit_v1 j (k, v)}" by force
    then show ?thesis
      unfolding mem by (auto simp: delete_hit_v1_def subscriptions_def bind_eq_Some_conv)
  qed
  with deleteEntries_deleted [OF rel c, of ?ks] w show ?thesis by (intro exI conjI) simp_all
qed

subsection \<open>Listing what was subscribed\<close>

definition keys_listable :: "substate \<Rightarrow> bool" where
  "keys_listable st \<longleftrightarrow>
     (\<forall>k \<in> dom (kv_content (ss_kv st)). in_range k \<longrightarrow>
        subinfo_of_key k \<noteq> None \<and> subscriptions st k \<noteq> None)"

text \<open>What a listing says of the subscription \<open>sd\<close> under the key \<open>k\<close>.\<close>

definition info_of :: "string \<Rightarrow> SubData \<Rightarrow> ScnSubscribe" where
  "info_of k sd = (the (subinfo_of_key k))\<lparr>subComponents := sdScnNodes sd, subUrl := sdUrl sd\<rparr>"

definition list_answer :: "ScnSubscribe list \<Rightarrow> writer" where
  "list_answer infos = writeBody (Bytes (marshal_SubscriptionList infos))
     (writeHeader 200 (setHeader ''Content-Type'' ''application/json'' new_writer))"

lemma listReply_spec:
  assumes "store_up st" "keys_listable st"
  shows "\<exists>ks st'. listReply e want new_writer st =
      (Some (list_answer (map (\<lambda>k. info_of k (the (subscriptions st k))) ks)), st') \<and>
     distinct ks \<and> set ks = {k. in_range k \<and> subscriptions st k \<noteq> None \<and> want (key_component k)} \<and>
     subscriptions st' = subscriptions st \<and> ss_prune st' = ss_prune st \<and> ss_hsmsub st' = ss_hsmsub st"
proof -
  obtain kvs kv1 where r: "kvGetRange KEYRANGE_START KEYRANGE_END (ss_kv st) = (Inr kvs, kv1)"
    and c: "kv_content kv1 = kv_content (ss_kv st)" and d: "distinct (map fst kvs)"
    and mem: "\<And>k v. (k, v) \<in> set kvs \<longleftrightarrow> kv_content (ss_kv st) k = Some v \<and> in_range k"
    using kv.range_read [of "ss_kv st" KEYRANGE_START KEYRANGE_END] assms(1)
    unfolding in_range_def store_up_def by blast
  let ?w = "\<lambda>kv :: string \<times> string. want (key_component (fst kv))"
  let ?ks = "map fst (filter ?w kvs)"
  have ok: "listable kvs"
    using assms(2) mem by (fastforce simp: listable_def keys_listable_def subscriptions_def)
  have "list_info kv = info_of (fst kv) (the (subscriptions st (fst kv)))" if "kv \<in> set kvs" for kv
    using that mem [of "fst kv" "snd kv"] by (simp add: list_info_def info_of_def subscriptions_def)
  then have infos: "map list_info (filter ?w kvs) =
      map (\<lambda>k. info_of k (the (subscriptions st k))) ?ks" by simp
  have "listReply e want new_writer st =
      (Some (list_answer (map (\<lambda>k. info_of k (the (subscriptions st k))) ?ks)), st\<lparr>ss_kv := kv1\<rparr>)"
    using listLoop_map [OF ok, of want "[]"] unfolding infos append_Nil
    by (simp only: listReply_def r list_answer_def prod.case sum.case option.case)
  moreover have "set ?ks = {k. in_range k \<and> subscriptions st k \<noteq> None \<and> want (key_component k)}"
  proof -
    have "set ?ks = {k. want (key_component k) \<and> (\<exists>v. (k, v) \<in> set kvs)}" by force
    then show ?thesis
      using assms(2) unfolding mem by (auto simp: subscriptions_def keys_listable_def)
  qed
  moreover have "distinct ?ks" using d by (simp add: distinct_map_filter)
  moreover have "subscriptions (st\<lparr>ss_kv := kv1\<rparr>) = subscriptions st"
    by (rule ext) (simp add: subscriptions_def c)
  ultimately show ?thesis by fastforce
qed

lemma storeNew_up_keep: "store_up st \<Longrightarrow> store_up (snd (storeNew e j key w st))"
  using kv.ok_keep(1) [of "ss_kv st" key] kv.reliable_keep(1) [of "ss_kv st" key]
    kv.ok_keep(3) [of _ key "marshal_SubData (entry_of j)"]
    kv.reliable_keep(3) [of _ key "marshal_SubData (entry_of j)"]
  by (force simp: storeNew_def makeSubscriptionEntry_def entry_of_def store_up_def
      split: prod.split sum.split option.split)

lemma key_component_makeKey:
  assumes "KEY_DELIM \<notin> set xn" "KEY_DELIM \<notin> set svc" "\<forall>x \<in> set (sub_attrs j). KEY_DELIM \<notin> set x"
  shows "key_component (makeSubscriptionKey_V2 j xn svc) = xn"
  using split_makeKey [OF assms] by (simp add: key_component_def)

subsection \<open>Replacing a subscription\<close>

lemma subscriptions_move:
  "kv_content (ss_kv st') = ((kv_content (ss_kv st))(k := None))(k' \<mapsto> marshal_SubData sd) \<Longrightarrow>
   subscriptions st' = ((subscriptions st)(k := None))(k' \<mapsto> sd)"
  unfolding subscriptions_records by (rule subs.records_move [OF TrueI])

text \<open>The entries a PATCH reads can be taken apart.\<close>

definition entries_patchable :: "string \<Rightarrow> string \<Rightarrow> substate \<Rightarrow> bool" where
  "entries_patchable lo hi st \<longleftrightarrow>
     (\<forall>k \<in> dom (kv_content (ss_kv st)). lo \<le> k \<and> k \<le> hi \<longrightarrow>
        keyServicePatch k \<noteq> None \<and> subscriptions st k \<noteq> None)"

definition patch_hits ::
  "(string \<Rightarrow> string option \<Rightarrow> SubData \<Rightarrow> bool) \<Rightarrow> string \<Rightarrow> string \<Rightarrow> substate \<Rightarrow> string set" where
  "patch_hits hit lo hi st =
     {k. lo \<le> k \<and> k \<le> hi \<and> (\<exists>v. kv_content (ss_kv st) k = Some v \<and> entry_hit hit (k, v))}"

lemma patchLoop_any:
  assumes "store_up st" "entries_patchable lo hi st" "kvGetRange lo hi (ss_kv st) = (Inr kvs, kv1)"
  shows "\<exists>st'. patchLoop e c hit exKey j kvs new_writer (st\<lparr>ss_kv := kv1\<rparr>) =
      (Some (writeHeader c new_writer), st') \<and> ss_prune st' = ss_prune st \<and>
      ss_hsmsub st' = ss_hsmsub st \<and>
      (if patch_hits hit lo hi st = {} then subscriptions st' = subscriptions st
       else \<exists>key \<in> patch_hits hit lo hi st.
         subscriptions st' = ((subscriptions st)(key := None))(exKey \<mapsto> entry_of j))"
proof -
  have c: "kv_content kv1 = kv_content (ss_kv st)" and rel: "kv_reliable kv1"
    and mem: "\<And>k v. (k, v) \<in> set kvs \<longleftrightarrow> kv_content (ss_kv st) k = Some v \<and> lo \<le> k \<and> k \<le> hi"
    using kv.range_read [of "ss_kv st" lo hi] assms(1,3) unfolding store_up_def by auto
  let ?st = "st\<lparr>ss_kv := kv1\<rparr>"
  have subs: "subscriptions ?st = subscriptions st" by (rule ext) (simp add: subscriptions_def c)
  have "patchable kvs"
    using assms(2) mem by (fastforce simp: patchable_def entries_patchable_def subscriptions_def)
  note loop = patchLoop_find [OF this, of e c hit exKey j new_writer ?st]
  show ?thesis
  proof (cases "find (entry_hit hit) kvs")
    case None
    then have "patch_hits hit lo hi st = {}" by (auto simp: patch_hits_def find_None_iff mem)
    then show ?thesis using loop None subs by simp
  next
    case (Some kv)
    then have kv: "kv \<in> set kvs" "entry_hit hit kv"
      by (auto simp: find_Some_iff)
    obtain key v where kveq: "kv = (key, v)" by force
    with kv have key: "key \<in> patch_hits hit lo hi st" by (auto simp: patch_hits_def mem)
    let ?r = "replaceEntry e c j key exKey new_writer ?st"
    have rel': "kv_reliable (ss_kv ?st)" using rel by simp
    have "subscriptions (snd ?r) = ((subscriptions st)(key := None))(exKey \<mapsto> entry_of j)"
      unfolding subs [symmetric] using replaceEntry_reliable(2) [OF rel', of e c j key exKey new_writer]
      by (intro subscriptions_move) (simp add: entry_of_def)
    moreover have "patchLoop e c hit exKey j kvs new_writer ?st = ?r" using loop Some kveq by simp
    moreover have "fst ?r = Some (writeHeader c new_writer)"
      by (rule replaceEntry_reliable(1) [OF rel'])
    ultimately show ?thesis
      using key replaceEntry_rest [of e c j key exKey new_writer ?st]
      by (intro exI [of _ "snd ?r"]) (auto simp: prod_eq_iff)
  qed
qed

lemma patchLoop_up:
  assumes "store_up st" "entries_patchable lo hi st" "patch_hits hit lo hi st \<subseteq> {key}"
    "kvGetRange lo hi (ss_kv st) = (Inr kvs, kv1)"
  shows "\<exists>st'. patchLoop e c hit exKey j kvs new_writer (st\<lparr>ss_kv := kv1\<rparr>) =
      (Some (writeHeader c new_writer), st') \<and> ss_prune st' = ss_prune st \<and>
      ss_hsmsub st' = ss_hsmsub st \<and>
      subscriptions st' = (if patch_hits hit lo hi st = {} then subscriptions st
        else ((subscriptions st)(key := None))(exKey \<mapsto> entry_of j))"
  using patchLoop_any [OF assms(1,2,4), of e c hit exKey j] assms(3) by (auto split: if_splits)

lemma patchLoop_local:
  "\<exists>key. (key = exKey \<or> (\<exists>v. (key, v) \<in> set kvs \<and> entry_hit hit (key, v))) \<and>
     (\<forall>k. k \<noteq> key \<longrightarrow> k \<noteq> exKey \<longrightarrow>
        kv_content (ss_kv (snd (patchLoop e c hit exKey j kvs w st))) k = kv_content (ss_kv st) k) \<and>
     ss_prune (snd (patchLoop e c hit exKey j kvs w st)) = ss_prune st \<and>
     ss_hsmsub (snd (patchLoop e c hit exKey j kvs w st)) = ss_hsmsub st"
  using patchLoop_cases [of e c hit exKey j kvs w st]
proof (elim disjE bexE conjE)
  assume "snd (patchLoop e c hit exKey j kvs w st) = st"
  then show ?thesis by auto
next
  fix kv
  assume "kv \<in> set kvs" "entry_hit hit kv"
    and "patchLoop e c hit exKey j kvs w st = replaceEntry e c j (fst kv) exKey w st"
  then show ?thesis
    by (intro exI [of _ "fst kv"]) (cases kv; simp add: replaceEntry_frame; blast)
qed

end
