(* ===== verification/Posts.thy ===== *)
theory Posts
  imports Subscribe
begin

text \<open>
  Concurrent POSTs. net/http runs every request in a goroutine of its own, and nothing locks the
  part of \<open>doSubscribePost\<close> and \<open>subscriptionsAgentPostHandler\<close> from the lookup of the key on: between the
  lookup, the store and the message to the HSM thread, other requests take their steps. \<open>post_step\<close> is one of
  these steps; the handlers of the theories Subscribe and SubscribeV2 are the runs in which they follow each other.
\<close>

section \<open>Steps\<close>

datatype post_pc = PLook | PPut | PTell | PDone writer

fun post_step :: "string \<Rightarrow> ScnSubscribe \<Rightarrow> string \<Rightarrow> post_pc \<Rightarrow> substate \<Rightarrow> post_pc \<times> substate" where
  "post_step errinst jdata subKey PLook st =
     (case kvGet subKey (ss_kv st) of (r, kv1) \<Rightarrow>
        (case r of
           Inl _ \<Rightarrow> PDone (internal errinst ''Failed KV service GET operation'' new_writer)
         | Inr (Some _) \<Rightarrow>
             PDone (invalid errinst ''Subscription exists, cannot modify in POST operation'' new_writer)
         | Inr None \<Rightarrow> PPut, st\<lparr>ss_kv := kv1\<rparr>))"
| "post_step errinst jdata subKey PPut st =
     (case makeSubscriptionEntry (subComponents jdata) (subUrl jdata) subKey (ss_kv st) of (err, kv2) \<Rightarrow>
        (if err then PDone (internal errinst (kv_errmsg kv2) new_writer) else PTell, st\<lparr>ss_kv := kv2\<rparr>))"
| "post_step errinst jdata subKey PTell st =
     (PDone (writeHeader 200 (setHeader ''Connection'' ''close'' new_writer)),
      st\<lparr>ss_hsmsub := ss_hsmsub st @ [jdata]\<rparr>)"
| "post_step errinst jdata subKey (PDone w) st = (PDone w, st)"

text \<open>The requests with their keys, where each of them is, and what they share.\<close>

record posting =
  pg_errinst :: string
  pg_sub :: ScnSubscribe
  pg_key :: string

definition posts_step :: "posting list \<Rightarrow> nat \<Rightarrow> post_pc list \<times> substate \<Rightarrow> post_pc list \<times> substate" where
  "posts_step qs i s =
     (case s of (pcs, st) \<Rightarrow>
        if i < length qs
        then (case post_step (pg_errinst (qs ! i)) (pg_sub (qs ! i)) (pg_key (qs ! i)) (pcs ! i) st of
                (pc, st') \<Rightarrow> (pcs[i := pc], st'))
        else (pcs, st))"

definition posts_run :: "posting list \<Rightarrow> nat list \<Rightarrow> substate \<Rightarrow> post_pc list \<times> substate" where
  "posts_run qs sched st = fold (posts_step qs) sched (replicate (length qs) PLook, st)"

fun answered :: "post_pc \<Rightarrow> bool" where
  "answered (PDone _) = True"
| "answered _ = False"

text \<open>On its own, a request does what the handler does.\<close>

lemma post_alone:
  "storeNew e j key new_writer st = (Some w, st') \<longleftrightarrow>
   posts_run [\<lparr>pg_errinst = e, pg_sub = j, pg_key = key\<rparr>] [0, 0, 0] st = ([PDone w], st')"
  by (auto simp: posts_run_def posts_step_def storeNew_def split: prod.splits sum.splits option.splits)

section \<open>Requests for different keys\<close>

definition pg_val :: "posting \<Rightarrow> string" where
  "pg_val q = marshal_SubData \<lparr>sdUrl = subUrl (pg_sub q), sdScnNodes = subComponents (pg_sub q)\<rparr>"

text \<open>Where a request can be that found its key free, and one that found it taken.\<close>

fun pc_ok :: "bool \<Rightarrow> post_pc \<Rightarrow> bool" where
  "pc_ok free PLook = True"
| "pc_ok free PPut = free"
| "pc_ok free PTell = free"
| "pc_ok free (PDone w) = (status_of w = (if free then 200 else 400))"

definition has_put :: "post_pc \<Rightarrow> bool" where
  "has_put pc \<longleftrightarrow> pc = PTell \<or> answered pc"

definition free0 :: "posting list \<Rightarrow> substate \<Rightarrow> nat \<Rightarrow> bool" where
  "free0 qs st0 i \<longleftrightarrow> kv_content (ss_kv st0) (pg_key (qs ! i)) = None"

definition told :: "posting list \<Rightarrow> substate \<Rightarrow> post_pc list \<Rightarrow> nat set" where
  "told qs st0 pcs = {i. i < length qs \<and> free0 qs st0 i \<and> answered (pcs ! i)}"

definition store_of :: "posting list \<Rightarrow> substate \<Rightarrow> post_pc list \<Rightarrow> kvs \<Rightarrow> bool" where
  "store_of qs st0 pcs s \<longleftrightarrow>
     (\<forall>i < length qs. kv_content s (pg_key (qs ! i)) =
        (if free0 qs st0 i \<and> has_put (pcs ! i) then Some (pg_val (qs ! i))
         else kv_content (ss_kv st0) (pg_key (qs ! i)))) \<and>
     (\<forall>k. k \<notin> pg_key ` set qs \<longrightarrow> kv_content s k = kv_content (ss_kv st0) k)"

definition posts_inv :: "posting list \<Rightarrow> substate \<Rightarrow> post_pc list \<times> substate \<Rightarrow> bool" where
  "posts_inv qs st0 s \<longleftrightarrow>
     (case s of (pcs, st) \<Rightarrow>
        length pcs = length qs \<and> store_up st \<and> ss_prune st = ss_prune st0 \<and>
        (\<forall>i < length qs. pc_ok (free0 qs st0 i) (pcs ! i)) \<and> store_of qs st0 pcs (ss_kv st) \<and>
        (\<exists>order. distinct order \<and> set order = told qs st0 pcs \<and>
           ss_hsmsub st = ss_hsmsub st0 @ map (\<lambda>i. pg_sub (qs ! i)) order))"

lemma told_update:
  "length pcs = length qs \<Longrightarrow> i < length qs \<Longrightarrow> told qs st0 (pcs[i := pc]) =
     (if free0 qs st0 i \<and> answered pc then insert i (told qs st0 pcs) else told qs st0 pcs - {i})"
  by (auto simp: told_def nth_list_update)

text \<open>The steps on a store that answers.\<close>

lemma look_up:
  assumes "store_up st" "post_step e j k PLook st = (pc, st')"
  shows "store_up st' \<and> kv_content (ss_kv st') = kv_content (ss_kv st) \<and> ss_prune st' = ss_prune st \<and>
    ss_hsmsub st' = ss_hsmsub st \<and>
    (if kv_content (ss_kv st) k = None then pc = PPut else \<exists>w. pc = PDone w \<and> status_of w = 400)"
proof -
  obtain r kv1 where g: "kvGet k (ss_kv st) = (r, kv1)" by force
  have "r = Inr (kv_content (ss_kv st) k)" "kv_content kv1 = kv_content (ss_kv st)" "kv_ok kv1" "kv_reliable kv1"
    using assms(1) g kv.reliable_get [of "ss_kv st" k] kv.get_frame [of k "ss_kv st"]
      kv.ok_keep(1) [of "ss_kv st" k] kv.reliable_keep(1) [of "ss_kv st" k] by (simp_all add: store_up_def)
  then show ?thesis
    using assms(2) g by (cases "kv_content (ss_kv st) k") (auto simp: store_up_def)
qed

lemma put_up:
  assumes "store_up st" "post_step e j k PPut st = (pc, st')"
  shows "store_up st' \<and> ss_prune st' = ss_prune st \<and> ss_hsmsub st' = ss_hsmsub st \<and> pc = PTell \<and>
    kv_content (ss_kv st') = (kv_content (ss_kv st))(k \<mapsto> marshal_SubData \<lparr>sdUrl = subUrl j, sdScnNodes = subComponents j\<rparr>)"
proof -
  let ?v = "marshal_SubData \<lparr>sdUrl = subUrl j, sdScnNodes = subComponents j\<rparr>"
  obtain err kv2 where p: "kvStore k ?v (ss_kv st) = (err, kv2)" by force
  have "\<not> err" "kv_content kv2 = (kv_content (ss_kv st))(k \<mapsto> ?v)" "kv_ok kv2" "kv_reliable kv2"
    using assms(1) p kv.reliable_store [of "ss_kv st" k ?v] kv.reliable_store_content [of "ss_kv st" k ?v]
      kv.ok_keep(3) [of "ss_kv st" k ?v] kv.reliable_keep(3) [of "ss_kv st" k ?v] by (simp_all add: store_up_def)
  then show ?thesis using assms(2) p by (auto simp: makeSubscriptionEntry_def store_up_def)
qed

lemma store_of_same:
  assumes "store_of qs st0 pcs s" "length pcs = length qs" "i < length qs" "kv_content s' = kv_content s"
    and "free0 qs st0 i \<longrightarrow> has_put pc = has_put (pcs ! i)"
  shows "store_of qs st0 (pcs[i := pc]) s'"
  using assms by (auto simp: store_of_def nth_list_update)

lemma store_of_put:
  assumes "store_of qs st0 pcs s" "length pcs = length qs" "i < length qs" "distinct (map pg_key qs)"
    and "kv_content s' = (kv_content s)(pg_key (qs ! i) \<mapsto> pg_val (qs ! i))" "free0 qs st0 i"
  shows "store_of qs st0 (pcs[i := PTell]) s'"
proof -
  have "pg_key (qs ! l) = pg_key (qs ! i) \<longleftrightarrow> l = i" if "l < length qs" for l
    using nth_eq_iff_index_eq [OF assms(4), of l i] that assms(3) by simp
  then show ?thesis using assms by (auto simp: store_of_def nth_list_update has_put_def)
qed

lemma posts_inv_step:
  assumes "distinct (map pg_key qs)" "posts_inv qs st0 s"
  shows "posts_inv qs st0 (posts_step qs i s)"
proof (cases "i < length qs")
  case True
  obtain pcs st where s: "s = (pcs, st)" by force
  let ?q = "qs ! i"
  obtain pc st' where p: "post_step (pg_errinst ?q) (pg_sub ?q) (pg_key ?q) (pcs ! i) st = (pc, st')" by force
  have step: "posts_step qs i s = (pcs[i := pc], st')" using True p by (simp add: s posts_step_def)
  have inv: "length pcs = length qs" "store_up st" "ss_prune st = ss_prune st0" "store_of qs st0 pcs (ss_kv st)"
    "\<forall>l < length qs. pc_ok (free0 qs st0 l) (pcs ! l)"
    using assms(2) by (simp_all add: posts_inv_def s)
  obtain order where order: "distinct order" "set order = told qs st0 pcs"
    "ss_hsmsub st = ss_hsmsub st0 @ map (\<lambda>i. pg_sub (qs ! i)) order"
    using assms(2) by (auto simp: posts_inv_def s)
  have ok: "pc_ok (free0 qs st0 i) (pcs ! i)" using inv(5) True by blast
  have oks: "\<forall>l < length qs. pc_ok (free0 qs st0 l) (pcs[i := pc] ! l)" if "pc_ok (free0 qs st0 i) pc"
    using inv(1,5) that True by (simp add: nth_list_update)
  have rest: "\<exists>order. distinct order \<and> set order = told qs st0 (pcs[i := pc]) \<and>
      ss_hsmsub st' = ss_hsmsub st0 @ map (\<lambda>i. pg_sub (qs ! i)) order"
    if "ss_hsmsub st' = ss_hsmsub st" "free0 qs st0 i \<longrightarrow> \<not> answered pc \<and> \<not> answered (pcs ! i)"
  proof -
    have "told qs st0 (pcs[i := pc]) = told qs st0 pcs"
      using that(2) told_update [OF inv(1) True, of st0 pc] by (auto simp: told_def)
    then show ?thesis using order that(1) by metis
  qed
  show ?thesis
  proof (cases "pcs ! i")
    case PLook
    have c: "kv_content (ss_kv st) (pg_key ?q) = kv_content (ss_kv st0) (pg_key ?q)"
      using inv(4) True PLook by (simp add: store_of_def has_put_def)
    note l = look_up [OF inv(2) p [unfolded PLook]]
    have free: "if free0 qs st0 i then pc = PPut else \<exists>w. pc = PDone w \<and> status_of w = 400"
      using l c by (simp add: free0_def)
    have "store_of qs st0 (pcs[i := pc]) (ss_kv st')"
      using l free PLook by (intro store_of_same [OF inv(4,1) True]) (auto simp: has_put_def)
    then show ?thesis
      using l free inv oks rest PLook by (auto simp: posts_inv_def step split: if_splits)
  next
    case PPut
    note l = put_up [OF inv(2) p [unfolded PPut]]
    have free: "free0 qs st0 i" using ok PPut by simp
    have "store_of qs st0 (pcs[i := PTell]) (ss_kv st')"
      using l free by (intro store_of_put [OF inv(4,1) True assms(1)]) (simp_all add: pg_val_def)
    then show ?thesis using l free inv oks rest PPut by (auto simp: posts_inv_def step)
  next
    case PTell
    have free: "free0 qs st0 i" using ok PTell by simp
    have l: "pc = PDone (writeHeader 200 (setHeader ''Connection'' ''close'' new_writer))"
      "st' = st\<lparr>ss_hsmsub := ss_hsmsub st @ [pg_sub ?q]\<rparr>"
      using p PTell by auto
    have "store_of qs st0 (pcs[i := pc]) (ss_kv st')"
      using PTell l by (intro store_of_same [OF inv(4,1) True]) (auto simp: has_put_def)
    moreover have "distinct (order @ [i])" "set (order @ [i]) = told qs st0 (pcs[i := pc])"
      using order free told_update [OF inv(1) True, of st0 pc] l(1) PTell by (auto simp: told_def)
    moreover have "ss_hsmsub st' = ss_hsmsub st0 @ map (\<lambda>i. pg_sub (qs ! i)) (order @ [i])"
      using order(3) l(2) by simp
    moreover have "store_up st'" "ss_prune st' = ss_prune st0" using inv(2,3) l(2) by (simp_all add: store_up_def)
    moreover have "\<forall>l < length qs. pc_ok (free0 qs st0 l) (pcs[i := pc] ! l)" using oks free l(1) by simp
    ultimately show ?thesis
      unfolding posts_inv_def step prod.case using inv(1) by (metis length_list_update)
  next
    case (PDone w)
    then have "pc = PDone w" "st' = st" using p by auto
    then have "posts_step qs i s = s" using step PDone by (simp add: s) (metis list_update_id)
    then show ?thesis using assms(2) by simp
  qed
qed (use assms(2) in \<open>simp add: posts_step_def split: prod.split\<close>)

lemma posts_inv_fold:
  "distinct (map pg_key qs) \<Longrightarrow> posts_inv qs st0 s \<Longrightarrow> posts_inv qs st0 (fold (posts_step qs) sched s)"
  by (induction sched arbitrary: s) (simp_all add: posts_inv_step)

lemma posts_inv_start: "store_up st \<Longrightarrow> posts_inv qs st (replicate (length qs) PLook, st)"
  by (auto simp: posts_inv_def store_of_def told_def has_put_def intro: exI [of _ "[]"])

section \<open>Properties\<close>

text \<open>
  C16: POST requests that run at the same time with different keys behave, in whatever way their
  steps are interleaved, as one after the other: on a store that answers each is answered by
  whether its key was free at the start, the store gains exactly the free keys, and each new
  subscription goes to HSM once.
\<close>

theorem posts_commute:
  assumes "store_up st" "distinct (map pg_key qs)" "posts_run qs sched st = (pcs, st')"
    and "\<forall>pc \<in> set pcs. answered pc"
  shows "(\<forall>i < length qs. \<exists>w. pcs ! i = PDone w \<and>
      status_of w = (if kv_content (ss_kv st) (pg_key (qs ! i)) = None then 200 else 400)) \<and>
    kv_content (ss_kv st') = map_of (map (\<lambda>q. (pg_key q, pg_val q)) qs) ++ kv_content (ss_kv st) \<and>
    ss_prune st' = ss_prune st \<and>
    (\<exists>order. distinct order \<and>
       set order = {i. i < length qs \<and> kv_content (ss_kv st) (pg_key (qs ! i)) = None} \<and>
       ss_hsmsub st' = ss_hsmsub st @ map (\<lambda>i. pg_sub (qs ! i)) order)"
proof -
  have "posts_inv qs st (pcs, st')"
    using posts_inv_fold [OF assms(2) posts_inv_start [OF assms(1)], of sched] assms(3) by (simp add: posts_run_def)
  then have inv: "length pcs = length qs" "ss_prune st' = ss_prune st" "store_of qs st pcs (ss_kv st')"
    "\<And>i. i < length qs \<Longrightarrow> pc_ok (free0 qs st i) (pcs ! i)"
    and order: "\<exists>order. distinct order \<and> set order = told qs st pcs \<and>
       ss_hsmsub st' = ss_hsmsub st @ map (\<lambda>i. pg_sub (qs ! i)) order"
    by (simp_all add: posts_inv_def)
  have ans: "answered (pcs ! i)" if "i < length qs" for i using assms(4) inv(1) that by simp
  have 1: "\<exists>w. pcs ! i = PDone w \<and> status_of w = (if kv_content (ss_kv st) (pg_key (qs ! i)) = None then 200 else 400)"
    if "i < length qs" for i
    using inv(4) [OF that] ans [OF that] by (cases "pcs ! i") (simp_all add: free0_def)
  have 2: "kv_content (ss_kv st') k = (map_of (map (\<lambda>q. (pg_key q, pg_val q)) qs) ++ kv_content (ss_kv st)) k" for k
  proof (cases "k \<in> pg_key ` set qs")
    case True
    then obtain i where i: "i < length qs" "k = pg_key (qs ! i)" by (metis imageE in_set_conv_nth)
    have "map_of (map (\<lambda>q. (pg_key q, pg_val q)) qs) k = Some (pg_val (qs ! i))"
      using assms(2) i by (intro map_of_is_SomeI) (auto simp: o_def)
    then show ?thesis using inv(3) ans [OF i(1)] i
      by (auto simp: store_of_def free0_def has_put_def map_add_def split: option.split)
  next
    case False
    then have "map_of (map (\<lambda>q. (pg_key q, pg_val q)) qs) k = None" by (auto simp: map_of_eq_None_iff)
    then show ?thesis using inv(3) False by (simp add: store_of_def map_add_def split: option.split)
  qed
  have "told qs st pcs = {i. i < length qs \<and> kv_content (ss_kv st) (pg_key (qs ! i)) = None}"
    using ans by (auto simp: told_def free0_def)
  then show ?thesis using 1 2 inv(2) order by auto
qed

definition ex_none :: substate where
  "ex_none = \<lparr>ss_kv = kv_open, ss_prune = [], ss_hsmsub = []\<rparr>"

definition ex_posting :: "string \<Rightarrow> string \<Rightarrow> posting" where
  "ex_posting key url = \<lparr>pg_errinst = [], pg_sub = ScnSubscribe0\<lparr>subUrl := url, subComponents := [''x0c0s1b0n0'']\<rparr>, pg_key = key\<rparr>"

lemma ex_none_up: "store_up ex_none" "kv_content (ss_kv ex_none) k = None"
  by (simp_all add: ex_none_def store_up_def kv_open_def kv_ok_def kv_reliable_def kv_content_def)

theorem posts_commute_witness:
  "\<exists>pcs st'. posts_run [ex_posting ''a'' ''u'', ex_posting ''b'' ''v''] [1, 0, 0, 1, 0, 1] ex_none = (pcs, st') \<and>
     (\<exists>w. pcs ! 0 = PDone w \<and> status_of w = 200) \<and> (\<exists>w. pcs ! 1 = PDone w \<and> status_of w = 200) \<and>
     kv_content (ss_kv st') ''b'' = Some (pg_val (ex_posting ''b'' ''v''))"
proof -
  let ?qs = "[ex_posting ''a'' ''u'', ex_posting ''b'' ''v'']"
  have "list_all answered (fst (posts_run ?qs [1, 0, 0, 1, 0, 1] ex_none))" by code_simp
  then obtain pcs st' where r: "posts_run ?qs [1, 0, 0, 1, 0, 1] ex_none = (pcs, st')" "\<forall>pc \<in> set pcs. answered pc"
    unfolding list_all_iff by (metis prod.exhaust_sel)
  have k: "pg_key (ex_posting k u) = k" for k u by (simp add: ex_posting_def)
  have d: "distinct (map pg_key ?qs)" by (simp add: k)
  note c = posts_commute [OF ex_none_up(1) d r]
  have "\<exists>w. pcs ! i = PDone w \<and> status_of w = 200" if "i < length ?qs" for i
    using c that by (simp only: ex_none_up(2)) simp
  from this [of 0] this [of 1] have "\<exists>w. pcs ! 0 = PDone w \<and> status_of w = 200" "\<exists>w. pcs ! 1 = PDone w \<and> status_of w = 200"
    by simp_all
  moreover have "kv_content (ss_kv st') = map_of (map (\<lambda>q. (pg_key q, pg_val q)) ?qs) ++ kv_content (ss_kv ex_none)"
    using c by blast
  then have "kv_content (ss_kv st') ''b'' = Some (pg_val (ex_posting ''b'' ''v''))"
    by (simp add: map_add_def ex_none_up(2) k)
  ultimately show ?thesis using r(1) by blast
qed

text \<open>
  C33: On a store that answers, two POST requests for the same free key can both be answered
  with 200, the second overwriting the subscription of the first; one after the other, the
  second is refused with 400 and changes nothing.
\<close>

theorem posts_race:
  assumes "store_up st" "kv_content (ss_kv st) key = None" "pg_key q1 = key" "pg_key q2 = key"
  shows "(\<exists>w1 w2 st'. posts_run [q1, q2] [0, 1, 0, 1, 0, 1] st = ([PDone w1, PDone w2], st') \<and>
      status_of w1 = 200 \<and> status_of w2 = 200 \<and>
      kv_content (ss_kv st') = (kv_content (ss_kv st))(key \<mapsto> pg_val q2) \<and>
      ss_hsmsub st' = ss_hsmsub st @ [pg_sub q1, pg_sub q2]) \<and>
    (\<exists>w1 w2 st'. posts_run [q1, q2] [0, 0, 0, 1, 1, 1] st = ([PDone w1, PDone w2], st') \<and>
      status_of w1 = 200 \<and> status_of w2 = 400 \<and>
      kv_content (ss_kv st') = (kv_content (ss_kv st))(key \<mapsto> pg_val q1) \<and>
      ss_hsmsub st' = ss_hsmsub st @ [pg_sub q1])"
proof (intro conjI)
  have look: "\<exists>st'. post_step (pg_errinst q) (pg_sub q) key PLook s = (PPut, st') \<and> store_up st' \<and>
      kv_content (ss_kv st') = kv_content (ss_kv s) \<and> ss_hsmsub st' = ss_hsmsub s"
    if "store_up s" "kv_content (ss_kv s) key = None" for q s
    using look_up [OF that(1), of "pg_errinst q" "pg_sub q" key] that(2)
    by (cases "post_step (pg_errinst q) (pg_sub q) key PLook s") auto
  have put: "\<exists>st'. post_step (pg_errinst q) (pg_sub q) key PPut s = (PTell, st') \<and> store_up st' \<and>
      kv_content (ss_kv st') = (kv_content (ss_kv s))(key \<mapsto> pg_val q) \<and> ss_hsmsub st' = ss_hsmsub s"
    if "store_up s" for q s
    using put_up [OF that, of "pg_errinst q" "pg_sub q" key]
    by (cases "post_step (pg_errinst q) (pg_sub q) key PPut s") (auto simp: pg_val_def)
  obtain s1 where 1: "post_step (pg_errinst q1) (pg_sub q1) key PLook st = (PPut, s1)" "store_up s1"
    "kv_content (ss_kv s1) = kv_content (ss_kv st)" "ss_hsmsub s1 = ss_hsmsub st" using look [OF assms(1,2)] by blast
  obtain s2 where 2: "post_step (pg_errinst q2) (pg_sub q2) key PLook s1 = (PPut, s2)" "store_up s2"
    "kv_content (ss_kv s2) = kv_content (ss_kv st)" "ss_hsmsub s2 = ss_hsmsub st"
    using look [OF 1(2), of q2] assms(2) 1(3,4) by auto
  obtain s3 where 3: "post_step (pg_errinst q1) (pg_sub q1) key PPut s2 = (PTell, s3)" "store_up s3"
    "kv_content (ss_kv s3) = (kv_content (ss_kv st))(key \<mapsto> pg_val q1)" "ss_hsmsub s3 = ss_hsmsub st"
    using put [OF 2(2), of q1] 2(3,4) by auto
  obtain s4 where 4: "post_step (pg_errinst q2) (pg_sub q2) key PPut s3 = (PTell, s4)" "store_up s4"
    "kv_content (ss_kv s4) = (kv_content (ss_kv st))(key \<mapsto> pg_val q2)" "ss_hsmsub s4 = ss_hsmsub st"
    using put [OF 3(2), of q2] 3(3,4) by auto
  show "\<exists>w1 w2 st'. posts_run [q1, q2] [0, 1, 0, 1, 0, 1] st = ([PDone w1, PDone w2], st') \<and>
      status_of w1 = 200 \<and> status_of w2 = 200 \<and>
      kv_content (ss_kv st') = (kv_content (ss_kv st))(key \<mapsto> pg_val q2) \<and>
      ss_hsmsub st' = ss_hsmsub st @ [pg_sub q1, pg_sub q2]"
    using 1(1) 2(1) 3(1) 4(1,3,4) assms(3,4)
    by (simp add: posts_run_def posts_step_def del: post_step.simps(1,2))
  obtain t2 where t2: "post_step (pg_errinst q1) (pg_sub q1) key PPut s1 = (PTell, t2)" "store_up t2"
    "kv_content (ss_kv t2) = (kv_content (ss_kv st))(key \<mapsto> pg_val q1)" "ss_hsmsub t2 = ss_hsmsub st"
    using put [OF 1(2), of q1] 1(3,4) by auto
  let ?t3 = "t2\<lparr>ss_hsmsub := ss_hsmsub t2 @ [pg_sub q1]\<rparr>"
  obtain pc t4 where 5: "post_step (pg_errinst q2) (pg_sub q2) key PLook ?t3 = (pc, t4)" by force
  have up: "store_up ?t3" and taken: "kv_content (ss_kv t2) key = Some (pg_val q1)"
    using t2 by (simp_all add: store_up_def)
  obtain w where "pc = PDone w" "status_of w = 400"
    using look_up [OF up 5] taken by auto
  moreover have "kv_content (ss_kv t4) = kv_content (ss_kv t2)" "ss_hsmsub t4 = ss_hsmsub st @ [pg_sub q1]"
    using look_up [OF up 5] t2(4) by simp_all
  ultimately show "\<exists>w1 w2 st'. posts_run [q1, q2] [0, 0, 0, 1, 1, 1] st = ([PDone w1, PDone w2], st') \<and>
      status_of w1 = 200 \<and> status_of w2 = 400 \<and>
      kv_content (ss_kv st') = (kv_content (ss_kv st))(key \<mapsto> pg_val q1) \<and>
      ss_hsmsub st' = ss_hsmsub st @ [pg_sub q1]"
    using 1(1) t2(1,3) 5 assms(3,4) by (simp add: posts_run_def posts_step_def del: post_step.simps(1,2))
qed

theorem posts_race_witness:
  "\<exists>w1 w2 st'. posts_run [ex_posting ''a'' ''u'', ex_posting ''a'' ''v''] [0, 1, 0, 1, 0, 1] ex_none =
      ([PDone w1, PDone w2], st') \<and> status_of w1 = 200 \<and> status_of w2 = 200"
proof -
  have k: "pg_key (ex_posting k u) = k" for k u by (simp add: ex_posting_def)
  from posts_race [OF ex_none_up(1,2) k [of "''a''" "''u''"] k [of "''a''" "''v''"]] show ?thesis by blast
qed

end
