(* ===== verification/Jobs.thy ===== *)
theory Jobs
  imports Subscribe
begin

text \<open>
  Sending a notification to one subscriber: the job type of cmd/hmi-nfd/worker_jobs.go and
  \<open>sendSCNToSubscriber\<close> of cmd/hmi-nfd/fanout.go, which a worker runs for it. What the network does
  is a parameter: \<open>out n\<close> is the outcome of attempt \<open>n\<close>. The pauses between attempts only take
  time and are left out.
\<close>

section \<open>Jobs\<close>

text \<open>\<open>JobStatus\<close> is a Go int; the constants are those of vendor/.../hms-base/v2/worker-pool.go.\<close>

abbreviation (input) JSTAT_DEFAULT :: int where "JSTAT_DEFAULT \<equiv> 0"
abbreviation (input) JSTAT_QUEUED :: int where "JSTAT_QUEUED \<equiv> 1"
abbreviation (input) JSTAT_PROCESSING :: int where "JSTAT_PROCESSING \<equiv> 2"
abbreviation (input) JSTAT_COMPLETE :: int where "JSTAT_COMPLETE \<equiv> 3"
abbreviation (input) JSTAT_CANCELLED :: int where "JSTAT_CANCELLED \<equiv> 4"
abbreviation (input) JSTAT_ERROR :: int where "JSTAT_ERROR \<equiv> 5"
abbreviation (input) JSTAT_MAX :: int where "JSTAT_MAX \<equiv> 6"
abbreviation (input) JTYPE_SCN_SEND :: int where "JTYPE_SCN_SEND \<equiv> 2"

record JobSCNSend =
  jobStatus :: int
  jobErr :: "string option"
  jobSCNData :: Scn
  jobSubscriber :: string
  jobUrl :: string

definition NewJobSCNSend :: "Scn \<Rightarrow> string \<Rightarrow> string \<Rightarrow> JobSCNSend" where
  "NewJobSCNSend sd subscriber url =
     \<lparr>jobStatus = JSTAT_DEFAULT, jobErr = None, jobSCNData = sd, jobSubscriber = subscriber,
      jobUrl = url\<rparr>"

definition job_Type :: "JobSCNSend \<Rightarrow> int" where
  "job_Type j = JTYPE_SCN_SEND"

definition GetStatus :: "JobSCNSend \<Rightarrow> int \<times> string option" where
  "GetStatus j = (if jobStatus j = JSTAT_ERROR then (jobStatus j, jobErr j) else (jobStatus j, None))"

text \<open>The status before the call, the error of the call, and the job.\<close>

definition SetStatus :: "int \<Rightarrow> string option \<Rightarrow> JobSCNSend \<Rightarrow> (int \<times> string option) \<times> JobSCNSend" where
  "SetStatus newStatus err j =
     (if JSTAT_MAX \<le> newStatus then ((jobStatus j, Some ''Error: Invalid Status''), j)
      else ((jobStatus j, None), j\<lparr>jobStatus := newStatus, jobErr := err\<rparr>))"

definition Cancel :: "JobSCNSend \<Rightarrow> int \<times> JobSCNSend" where
  "Cancel j =
     (let j' = (if jobStatus j = JSTAT_QUEUED \<or> jobStatus j = JSTAT_DEFAULT
                then j\<lparr>jobStatus := JSTAT_CANCELLED\<rparr> else j)
      in (jobStatus j', j'))"

section \<open>The interface that the pool works on\<close>

text \<open>
  \<open>base.Job\<close> as its callers rely on it: a status that was set is read back, a job that has begun
  cannot be cancelled, and neither call touches what the job is about.
\<close>

locale job_iface =
  fixes get :: "'j \<Rightarrow> int \<times> 'e option"
    and set_status :: "int \<Rightarrow> 'e option \<Rightarrow> 'j \<Rightarrow> (int \<times> 'e option) \<times> 'j"
    and cancel :: "'j \<Rightarrow> int \<times> 'j"
    and about :: "'j \<Rightarrow> 'p"
  assumes set_get: "s < JSTAT_MAX \<Longrightarrow> fst (get (snd (set_status s e j))) = s"
    and cancel_get: "fst (get (snd (cancel j))) =
      (if fst (get j) \<in> {JSTAT_QUEUED, JSTAT_DEFAULT} then JSTAT_CANCELLED else fst (get j))"
    and set_about: "about (snd (set_status s e j)) = about j"
    and cancel_about: "about (snd (cancel j)) = about j"
begin

text \<open>What a worker does with a job that it has run.\<close>

definition finished :: "'j \<Rightarrow> 'j" where
  "finished j = (if fst (get j) \<noteq> JSTAT_ERROR then snd (set_status JSTAT_COMPLETE None j) else j)"

lemma finished_get: "fst (get (finished j)) = (if fst (get j) = JSTAT_ERROR then JSTAT_ERROR else JSTAT_COMPLETE)"
  by (simp add: finished_def set_get)

lemma finished_about: "about (finished j) = about j"
  by (simp add: finished_def set_about)

lemma cancel_finished: "fst (get (snd (cancel (finished j)))) = fst (get (finished j))"
  by (simp add: cancel_get finished_get)

end

text \<open>The part of a job that \<open>Run\<close> uses.\<close>

definition payload :: "JobSCNSend \<Rightarrow> Scn \<times> string \<times> string" where
  "payload jb = (jobSCNData jb, jobSubscriber jb, jobUrl jb)"

interpretation job: job_iface GetStatus SetStatus Cancel payload
  by unfold_locales (auto simp: GetStatus_def SetStatus_def Cancel_def payload_def Let_def)

section \<open>Sending with retries\<close>

text \<open>
  An attempt: the request cannot be made, the client returns an error with this text, or an answer
  with this status comes back.
\<close>

datatype attempt = NoRequest | SendError string | Answer nat

definition refused :: "attempt \<Rightarrow> bool" where
  "refused a = (case a of SendError e \<Rightarrow> go_contains (to_lower e) ''connection refused'' | _ \<Rightarrow> False)"

text \<open>
  The retry loop. It returns the value of \<open>retry\<close> when it is left, whether it was left by the
  \<open>return\<close> of a refused connection, and the number of requests it has sent.
\<close>

function sendLoop :: "(int \<Rightarrow> attempt) \<Rightarrow> int \<Rightarrow> int \<Rightarrow> nat \<Rightarrow> int \<times> bool \<times> nat" where
  "sendLoop out retries retry sent =
     (if retry \<le> retries
      then (case out retry of
              NoRequest \<Rightarrow> sendLoop out retries (retry + 1) sent
            | SendError e \<Rightarrow>
                if refused (out retry) then (retry, True, sent + 1)
                else sendLoop out retries (retry + 1) (sent + 1)
            | Answer code \<Rightarrow>
                if code = 200 then (retry, False, sent + 1)
                else sendLoop out retries (retry + 1) (sent + 1))
      else (retry, False, sent))"
  by pat_completeness auto

termination
  by (relation "measure (\<lambda>(out, retries, retry, sent). nat (retries + 1 - retry))") auto

declare sendLoop.simps [simp del]

text \<open>The requests sent (the URL and the body of each) and the prune map.\<close>

definition sendSCNToSubscriber ::
  "(int \<Rightarrow> attempt) \<Rightarrow> int \<Rightarrow> Scn \<Rightarrow> string \<Rightarrow> string \<Rightarrow> (string, bool) gomap \<Rightarrow>
   (string \<times> string) list \<times> (string, bool) gomap" where
  "sendSCNToSubscriber out retries sd subscriber url prunemap =
     (if url = [] then ([], prunemap)
      else if gm_flag prunemap subscriber then ([], prunemap)
      else case sendLoop out retries 1 0 of (retry, ref, sent) \<Rightarrow>
        (replicate sent (url, marshal_Scn sd),
         if ref \<or> retries < retry then gm_put subscriber True prunemap else prunemap))"

text \<open>\<open>Run\<close>, the method the workers call.\<close>

definition job_Run ::
  "(int \<Rightarrow> attempt) \<Rightarrow> int \<Rightarrow> JobSCNSend \<Rightarrow> (string, bool) gomap \<Rightarrow>
   (string \<times> string) list \<times> (string, bool) gomap" where
  "job_Run out retries j = sendSCNToSubscriber out retries (jobSCNData j) (jobSubscriber j) (jobUrl j)"

section \<open>What a job does\<close>

text \<open>The first attempt that ends the loop, a success or a refused connection.\<close>

definition final :: "attempt \<Rightarrow> bool" where
  "final a \<longleftrightarrow> a = Answer 200 \<or> refused a"

lemma sendLoop_step:
  assumes "retry \<le> retries" "\<not> final (out retry)"
  shows "sendLoop out retries retry sent =
     sendLoop out retries (retry + 1) (if out retry = NoRequest then sent else sent + 1)"
  using assms by (subst sendLoop.simps) (auto simp: final_def split: attempt.split)

lemma sendLoop_final:
  assumes "retry \<le> retries" "final (out retry)"
  shows "sendLoop out retries retry sent = (retry, refused (out retry), sent + 1)"
  using assms by (subst sendLoop.simps) (auto simp: final_def refused_def split: attempt.split)

lemma card_from:
  assumes "(a :: int) \<le> b"
  shows "card {j \<in> {a..b}. P j} = (if P a then 1 else 0) + card {j \<in> {a + 1..b}. P j}"
proof -
  have "{j \<in> {a..b}. P j} = (if P a then {a} else {}) \<union> {j \<in> {a + 1..b}. P j}"
    using assms by (auto simp: order_le_less)
  moreover have "card ((if P a then {a} else {}) \<union> {j \<in> {a + 1..b}. P j}) =
      card (if P a then {a} else {}) + card {j \<in> {a + 1..b}. P j}"
    by (rule card_Un_disjoint) (auto intro: finite_subset [of _ "{a + 1..b}"])
  ultimately show ?thesis by simp
qed

lemma sendLoop_exhausted:
  "\<forall>i \<in> {retry..retries}. \<not> final (out i) \<Longrightarrow> sendLoop out retries retry sent =
     (max retry (retries + 1), False, sent + card {j \<in> {retry..retries}. out j \<noteq> NoRequest})"
proof (induction "nat (retries + 1 - retry)" arbitrary: retry sent)
  case 0
  then show ?case by (subst sendLoop.simps) auto
next
  case (Suc n)
  then have le: "retry \<le> retries" by simp
  then have nf: "\<not> final (out retry)" using Suc.prems by simp
  have "n = nat (retries + 1 - (retry + 1))" using Suc.hyps(2) by simp
  note ih = Suc.hyps(1) [OF this]
  show ?case
    unfolding sendLoop_step [of retry retries out, OF le nf] card_from [OF le]
    using Suc.prems le by (subst ih) auto
qed

lemma sendLoop_until:
  "retry \<le> i \<Longrightarrow> i \<le> retries \<Longrightarrow> final (out i) \<Longrightarrow> \<forall>j \<in> {retry..i - 1}. \<not> final (out j) \<Longrightarrow>
   sendLoop out retries retry sent =
     (i, refused (out i), sent + card {j \<in> {retry..i - 1}. out j \<noteq> NoRequest} + 1)"
proof (induction "nat (i - retry)" arbitrary: retry sent)
  case 0
  then show ?case using sendLoop_final [of i retries out] by auto
next
  case (Suc n)
  then have le: "retry \<le> i - 1" "retry \<le> retries" by simp_all
  then have nf: "\<not> final (out retry)" using Suc.prems by simp
  have n: "n = nat (i - (retry + 1))" "retry + 1 \<le> i" using Suc.hyps(2) by simp_all
  note ih = Suc.hyps(1) [OF n Suc.prems(2,3)]
  show ?case
    unfolding sendLoop_step [of retry retries out, OF le(2) nf] card_from [OF le(1)]
    using Suc.prems le by (subst ih) auto
qed

text \<open>There is a first final attempt or none.\<close>

lemma first_final:
  fixes out :: "int \<Rightarrow> attempt"
  assumes "\<exists>i \<in> {1..retries}. final (out i)"
  obtains i where "1 \<le> i" "i \<le> retries" "final (out i)" "\<forall>j \<in> {1..i - 1}. \<not> final (out j)"
proof -
  define n where "n = (LEAST n. final (out (int n + 1)))"
  obtain i where i: "1 \<le> i" "i \<le> retries" "final (out i)" using assms by auto
  then have ex: "final (out (int (nat (i - 1)) + 1))" by simp
  then have f: "final (out (int n + 1))" unfolding n_def by (rule LeastI)
  have least: "\<not> final (out (int m + 1))" if "m < n" for m
    using that unfolding n_def by (rule not_less_Least)
  have le: "n \<le> nat (i - 1)" unfolding n_def using ex by (rule Least_le)
  have "\<not> final (out j)" if "j \<in> {1..int n}" for j
  proof -
    have "nat (j - 1) < n" "int (nat (j - 1)) + 1 = j" using that by auto
    then show ?thesis using least [of "nat (j - 1)"] by simp
  qed
  then show ?thesis using that [of "int n + 1"] f le i by auto
qed

definition delivered :: "(int \<Rightarrow> attempt) \<Rightarrow> int \<Rightarrow> bool" where
  "delivered out retries \<longleftrightarrow>
     (\<exists>i \<in> {1..retries}. out i = Answer 200 \<and> (\<forall>j \<in> {1..i - 1}. \<not> refused (out j)))"

lemma card_attempts: "card {j \<in> {1..n :: int}. P j} \<le> nat n"
proof -
  have "card {j \<in> {1..n}. P j} \<le> card {1..n}" by (rule card_mono) auto
  then show ?thesis by simp
qed

lemma sendLoop_delivered:
  assumes "sendLoop out retries 1 0 = (retry, ref, sent)"
  shows "(ref \<or> retries < retry) \<longleftrightarrow> \<not> delivered out retries" and "sent \<le> nat retries"
proof -
  have "((ref \<or> retries < retry) \<longleftrightarrow> \<not> delivered out retries) \<and> sent \<le> nat retries"
  proof (cases "\<exists>i \<in> {1..retries}. final (out i)")
    case False
    then show ?thesis
      using sendLoop_exhausted [of 1 retries out 0] assms card_attempts [of retries]
      by (auto simp: delivered_def final_def)
  next
    case True
    then obtain i where i: "1 \<le> i" "i \<le> retries" "final (out i)" "\<forall>j \<in> {1..i - 1}. \<not> final (out j)"
      by (rule first_final)
    then have r: "retry = i" "ref = refused (out i)" "sent \<le> nat (i - 1) + 1"
      using sendLoop_until [OF i, of 0] assms card_attempts [of "i - 1"] by auto
    have "delivered out retries \<longleftrightarrow> \<not> refused (out i)"
    proof
      assume "delivered out retries"
      then obtain k where k: "1 \<le> k" "k \<le> retries" "out k = Answer 200" "\<forall>j \<in> {1..k - 1}. \<not> refused (out j)"
        by (auto simp: delivered_def)
      then have "i \<le> k" using i(4) by (force simp: final_def)
      then show "\<not> refused (out i)" using k i(1) by (cases "i = k") (auto simp: refused_def)
    next
      assume "\<not> refused (out i)"
      then show "delivered out retries"
        using i by (force simp: delivered_def final_def)
    qed
    then show ?thesis using r i(1,2) by auto
  qed
  then show "(ref \<or> retries < retry) \<longleftrightarrow> \<not> delivered out retries" "sent \<le> nat retries" by blast+
qed

text \<open>
  C20: A job that has a URL and whose subscriber is not pruned sends at most Scn_retries
  requests, all with its URL and the encoding of its notification; it puts its subscriber, and
  nobody else, into the prune map exactly when no attempt is answered with 200 before a
  connection is refused or the attempts are used up.
\<close>

theorem send_outcome:
  assumes "url \<noteq> []" "\<not> gm_flag prunemap subscriber"
    and "sendSCNToSubscriber out retries sd subscriber url prunemap = (posts, prunemap')"
  shows "set posts \<subseteq> {(url, marshal_Scn sd)} \<and> length posts \<le> nat retries \<and>
    (\<forall>s. gm_flag prunemap' s \<longleftrightarrow> gm_flag prunemap s \<or> s = subscriber \<and> \<not> delivered out retries)"
proof -
  obtain retry ref sent where l: "sendLoop out retries 1 0 = (retry, ref, sent)"
    by (cases "sendLoop out retries 1 0") auto
  have p: "posts = replicate sent (url, marshal_Scn sd)"
    "prunemap' = (if ref \<or> retries < retry then gm_put subscriber True prunemap else prunemap)"
    using assms l by (auto simp: sendSCNToSubscriber_def)
  show ?thesis
    using p sendLoop_delivered [OF l] assms(2) by auto
qed

theorem send_outcome_witness:
  "\<exists>posts prunemap'. sendSCNToSubscriber (\<lambda>n. if n = 2 then Answer 200 else Answer 503) 3 Scn0 ''x0c0s0b0n0''
      ''http://a'' [(''x1'', True)] = (posts, prunemap') \<and> length posts \<le> 3 \<and>
    \<not> gm_flag prunemap' ''x0c0s0b0n0'' \<and> gm_flag prunemap' ''x1''"
proof -
  let ?out = "\<lambda>n :: int. if n = 2 then Answer 200 else Answer 503"
  have d: "delivered ?out 3"
    by (auto simp: delivered_def refused_def intro!: bexI [of _ 2])
  obtain posts pm where r: "sendSCNToSubscriber ?out 3 Scn0 ''x0c0s0b0n0'' ''http://a'' [(''x1'', True)] = (posts, pm)"
    by force
  show ?thesis
    using send_outcome [OF _ _ r] r d by (auto simp: gm_flag_def)
qed

end
