(* ===== verification/SubscribeV2.thy ===== *)
theory SubscribeV2
  imports Subscribe
begin

text \<open>
  The subscription handlers of the v2 API, cmd/hmi-nfd/api_v2.go. They take the component and the
  agent from the path and share the store, the prune map and the queue with the v1 handlers.
\<close>

section \<open>DELETE\<close>

text \<open>
  The loop of both handlers over the subscriptions; \<open>hit\<close> is their test on the component and the
  agent of the key (the empty string when it has none), \<open>matched\<close> whether one has passed it.
\<close>

fun deleteLoop_v2 ::
  "(string \<Rightarrow> string \<Rightarrow> bool) \<Rightarrow> (string \<times> string) list \<Rightarrow> bool \<Rightarrow> substate \<Rightarrow> bool option \<times> substate" where
  "deleteLoop_v2 hit [] matched st = (Some matched, st)"
| "deleteLoop_v2 hit ((key, val) # rest) matched st =
     (case keyService key of
        None \<Rightarrow> (None, st)
      | Some (xname, agent) \<Rightarrow>
          if hit xname (case agent of None \<Rightarrow> [] | Some a \<Rightarrow> a)
          then deleteLoop_v2 hit rest True (deleteEntry key (svcName xname agent) st)
          else deleteLoop_v2 hit rest matched st)"

definition subscriptionsAgentDeleteHandler :: "request \<Rightarrow> substate \<Rightarrow> writer option \<times> substate" where
  "subscriptionsAgentDeleteHandler r st =
     (let w = new_writer; agent = rq_var r ''agent'';
          xname = VerifyNormalizeCompID (rq_var r ''xname'') in
      if xname = [] then (Some (invalid (rq_path r) ''Invalid XName in URL path'' w), st)
      else case kvGetRange KEYRANGE_START KEYRANGE_END (ss_kv st) of
        (Inl _, kv1) \<Rightarrow>
          (Some (internal (rq_path r) ''Key/Value ETCD service GET operation failed'' w),
           st\<lparr>ss_kv := kv1\<rparr>)
      | (Inr skvlist, kv1) \<Rightarrow>
          (case deleteLoop_v2 (\<lambda>subXName subAgent. xname = subXName \<and> agent = subAgent) skvlist
                  False (st\<lparr>ss_kv := kv1\<rparr>) of
             (None, st') \<Rightarrow> (None, st')
           | (Some matched, st') \<Rightarrow>
               (if \<not> matched
                then (Some (sendProblem ''Bad DELETE request''
                        ''No matching subscription for DELETE'' (rq_path r) 400 w), st')
                else (Some (writeHeader 204 w), st'))))"

definition subscriptionsXNameDeleteHandler :: "request \<Rightarrow> substate \<Rightarrow> writer option \<times> substate" where
  "subscriptionsXNameDeleteHandler r st =
     (let w = new_writer; xname = VerifyNormalizeCompID (rq_var r ''xname'') in
      if xname = [] then (Some (invalid (rq_path r) ''Invalid XName in URL path'' w), st)
      else case kvGetRange KEYRANGE_START KEYRANGE_END (ss_kv st) of
        (Inl _, kv1) \<Rightarrow>
          (Some (internal (rq_path r) ''Key/Value ETCD service GET operation failed'' w),
           st\<lparr>ss_kv := kv1\<rparr>)
      | (Inr skvlist, kv1) \<Rightarrow>
          (case deleteLoop_v2 (\<lambda>subXName subAgent. xname = subXName) skvlist
                  False (st\<lparr>ss_kv := kv1\<rparr>) of
             (None, st') \<Rightarrow> (None, st')
           | (Some matched, st') \<Rightarrow> (Some (writeHeader 204 w), st')))"

section \<open>POST\<close>

definition subscriptionsAgentPostHandler :: "request \<Rightarrow> substate \<Rightarrow> writer option \<times> substate" where
  "subscriptionsAgentPostHandler r st =
     (let w = new_writer; agent = rq_var r ''agent'';
          xname = VerifyNormalizeCompID (rq_var r ''xname'') in
      if xname = [] then (Some (invalid (rq_path r) ''Invalid XName in URL path'' w), st)
      else if rq_err r
      then (Some (invalid (rq_path r) ''Error reading inbound request body'' w), st)
      else case unmarshal_ScnSubscribe (to_lower (rq_body r)) of
        None \<Rightarrow> (Some (handleSubscribePostError (rq_path r) w (rq_body r)), st)
      | Some jdata \<Rightarrow>
          (case checkSubscription_v2 jdata of
             Some err \<Rightarrow> (Some (invalid (rq_path r) err w), st)
           | None \<Rightarrow>
               if \<not> hmsTypeValid xname
               then (Some (invalid (rq_path r) ''Subcriber is not a valid XName'' w), st)
               else storeNew (rq_path r) jdata (makeSubscriptionKey_V2 jdata xname agent) w st))"

section \<open>PATCH\<close>

text \<open>
  The range read comes from the \<open>Subscriber\<close> member of the body, the match is against the path.
  The body is not checked.
\<close>

definition patch_hit_v2 :: "string \<Rightarrow> string \<Rightarrow> string \<Rightarrow> string option \<Rightarrow> SubData \<Rightarrow> bool" where
  "patch_hit_v2 xname agent svcXName svcAgent sd \<longleftrightarrow>
     svcXName = xname \<and> (case svcAgent of None \<Rightarrow> [] | Some a \<Rightarrow> a) = agent"

definition subscriptionsAgentPatchHandler :: "request \<Rightarrow> substate \<Rightarrow> writer option \<times> substate" where
  "subscriptionsAgentPatchHandler r st =
     (let w = new_writer; agent = rq_var r ''agent'';
          xname = VerifyNormalizeCompID (rq_var r ''xname'') in
      if xname = [] then (Some (invalid (rq_path r) ''Invalid XName in URL path'' w), st)
      else if rq_err r
      then (Some (invalid (rq_path r) ''Error reading inbound request body'' w), st)
      else case unmarshal_ScnSubscribe (to_lower (rq_body r)) of
        None \<Rightarrow> (Some (handleSubscribePostError (rq_path r) w (rq_body r)), st)
      | Some jdata \<Rightarrow>
          (case patchRange jdata of
             None \<Rightarrow> (None, st)
           | Some (startKey, endKey) \<Rightarrow>
               (case kvGetRange startKey endKey (ss_kv st) of
                  (Inl _, kv1) \<Rightarrow>
                    (Some (internal (rq_path r) ''Key/Value ETCD service GET operation failed'' w),
                     st\<lparr>ss_kv := kv1\<rparr>)
                | (Inr skvlist, kv1) \<Rightarrow>
                    patchLoop (rq_path r) 204 (patch_hit_v2 xname agent)
                      (makeSubscriptionKey_V2 jdata xname agent) jdata skvlist w
                      (st\<lparr>ss_kv := kv1\<rparr>))))"

section \<open>Listing\<close>

definition subscriptionsXNameGetHandler :: "request \<Rightarrow> substate \<Rightarrow> writer option \<times> substate" where
  "subscriptionsXNameGetHandler r st =
     (if rq_method r \<noteq> ''GET'' then (Some (not_get (rq_path r) new_writer), st)
      else let xname = VerifyNormalizeCompID (rq_var r ''xname'') in
        if xname = [] then (Some (invalid (rq_path r) ''Invalid XName in URL path'' new_writer), st)
        else listReply (rq_path r) (\<lambda>subXName. subXName = xname) new_writer st)"

section \<open>What the handlers do\<close>

lemma deleteLoop_v2_fold:
  "\<forall>kv \<in> set kvs. keyService (fst kv) \<noteq> None \<Longrightarrow>
   deleteLoop_v2 hit kvs m st =
     (Some (m \<or> (\<exists>kv \<in> set kvs. hit (key_component (fst kv)) (key_agent (fst kv)))),
      deleteEntries (map fst (filter (\<lambda>kv. hit (key_component (fst kv)) (key_agent (fst kv))) kvs)) st)"
proof (induction hit kvs m st rule: deleteLoop_v2.induct)
  case (2 hit key val rest matched st)
  then obtain x a where k: "keyService key = Some (x, a)" by auto
  moreover have "x = key_component key" using keyService_component [OF k] .
  moreover have "key_agent key = (case a of None \<Rightarrow> [] | Some b \<Rightarrow> b)"
    using k by (simp add: key_agent_def split: option.split)
  moreover have "key_svcName key = svcName x a" using k by (simp add: key_svcName_def)
  ultimately show ?case using 2 by auto
qed simp

text \<open>Both deletions of the v2 API, for any test on the component and the agent.\<close>

lemma delete_v2_effect:
  assumes "store_up st" "keys_readable st"
  shows "\<exists>kvs kv1 st'. kvGetRange KEYRANGE_START KEYRANGE_END (ss_kv st) = (Inr kvs, kv1) \<and>
     deleteLoop_v2 hit kvs False (st\<lparr>ss_kv := kv1\<rparr>) = (Some (matching_keys hit st \<noteq> {}), st') \<and>
     deleted (matching_keys hit st) st st'"
proof -
  obtain kvs kv1 where r: "kvGetRange KEYRANGE_START KEYRANGE_END (ss_kv st) = (Inr kvs, kv1)"
    and c: "kv_content kv1 = kv_content (ss_kv st)" and rel: "kv_reliable kv1"
    and mem: "\<And>k v. (k, v) \<in> set kvs \<longleftrightarrow> kv_content (ss_kv st) k = Some v \<and> in_range k"
    using kv.range_read [of "ss_kv st" KEYRANGE_START KEYRANGE_END] assms(1)
    unfolding in_range_def store_up_def by blast
  let ?hit = "\<lambda>kv :: string \<times> string. hit (key_component (fst kv)) (key_agent (fst kv))"
  let ?ks = "map fst (filter ?hit kvs)"
  let ?st = "st\<lparr>ss_kv := kv1\<rparr>"
  have ok: "\<forall>kv \<in> set kvs. keyService (fst kv) \<noteq> None"
    using mem assms(2) by (auto simp: keys_readable_def dom_def)
  have H: "set ?ks = matching_keys hit st"
  proof -
    have "set ?ks = {k. hit (key_component k) (key_agent k) \<and> (\<exists>v. (k, v) \<in> set kvs)}" by force
    then show ?thesis by (auto simp: matching_keys_def mem)
  qed
  have any: "(\<exists>kv \<in> set kvs. ?hit kv) \<longleftrightarrow> matching_keys hit st \<noteq> {}"
    unfolding H [symmetric] set_empty map_is_Nil_conv filter_empty_conv by blast
  have "deleteLoop_v2 hit kvs False ?st = (Some (matching_keys hit st \<noteq> {}), deleteEntries ?ks ?st)"
    using deleteLoop_v2_fold [OF ok, of hit False ?st] any by simp
  then show ?thesis using r deleteEntries_deleted [OF rel c, of ?ks] unfolding H by blast
qed

lemma xname_delete_run:
  assumes "store_up st" "keys_readable st" "VerifyNormalizeCompID (rq_var r ''xname'') \<noteq> []"
  shows "\<exists>st'. subscriptionsXNameDeleteHandler r st = (Some (writeHeader 204 new_writer), st') \<and>
     deleted (matching_keys (\<lambda>c a. VerifyNormalizeCompID (rq_var r ''xname'') = c) st) st st'"
  using delete_v2_effect [OF assms(1,2), of "\<lambda>c a. VerifyNormalizeCompID (rq_var r ''xname'') = c"]
    assms(3)
  unfolding subscriptionsXNameDeleteHandler_def Let_def by auto

text \<open>
  On a store that answers, deleting by component is the restriction of the map of
  subscriptions to the other components; every subscriber removed is noted in the prune map, and
  nothing else is.
\<close>

lemma xname_delete_spec:
  assumes "store_up st" "keys_readable st" "VerifyNormalizeCompID (rq_var r ''xname'') \<noteq> []"
  shows "\<exists>st'. subscriptionsXNameDeleteHandler r st = (Some (writeHeader 204 new_writer), st') \<and>
     deleted (matching_keys (\<lambda>c a. VerifyNormalizeCompID (rq_var r ''xname'') = c) st) st st'"
  by (rule xname_delete_run [OF assms])

text \<open>Deleting by component and agent.\<close>

lemma agent_delete_spec:
  assumes "store_up st" "keys_readable st" "VerifyNormalizeCompID (rq_var r ''xname'') = xn" "xn \<noteq> []"
  shows "\<exists>w st'. subscriptionsAgentDeleteHandler r st = (Some w, st') \<and>
     status_of w = (if matching_keys (\<lambda>c a. xn = c \<and> rq_var r ''agent'' = a) st = {} then 400 else 204) \<and>
     deleted (matching_keys (\<lambda>c a. xn = c \<and> rq_var r ''agent'' = a) st) st st'"
  using delete_v2_effect [OF assms(1,2), of "\<lambda>c a. xn = c \<and> rq_var r ''agent'' = a"] assms(4)
  unfolding subscriptionsAgentDeleteHandler_def Let_def assms(3)
  by (cases "matching_keys (\<lambda>c a. xn = c \<and> rq_var r ''agent'' = a) st = {}") auto

text \<open>
  A valid v2 POST on a store that answers stores the URL and the components under the key
  built from the request and the path, queues the subscription to HSM and answers 200 when the
  key was free; it answers 400 and changes nothing when the key was taken.
\<close>

lemma agent_post_spec:
  assumes "store_up st" "\<not> rq_err r"
    and "VerifyNormalizeCompID (rq_var r ''xname'') = xn" "xn \<noteq> []"
    and "unmarshal_ScnSubscribe (to_lower (rq_body r)) = Some j" "checkSubscription_v2 j = None"
    and "makeSubscriptionKey_V2 j xn (rq_var r ''agent'') = key"
  shows "\<exists>w st'. subscriptionsAgentPostHandler r st = (Some w, st') \<and>
    (if kv_content (ss_kv st) key = None
     then status_of w = 200 \<and> subscriptions st' = (subscriptions st)(key \<mapsto> entry_of j) \<and>
       ss_hsmsub st' = ss_hsmsub st @ [j]
     else status_of w = 400 \<and> subscriptions st' = subscriptions st \<and> ss_hsmsub st' = ss_hsmsub st)"
proof -
  have "hmsTypeValid xn" using VerifyNormalizeCompID_valid assms(3,4) by blast
  then have "subscriptionsAgentPostHandler r st = storeNew (rq_path r) j key new_writer st"
    using assms by (simp add: subscriptionsAgentPostHandler_def Let_def)
  then show ?thesis using storeNew_up [OF assms(1)] by simp
qed

lemma post_v2_cases:
  "(\<exists>w. subscriptionsAgentPostHandler r st = (Some w, st) \<and> status_of w = 400) \<or>
   (\<exists>j key. subscriptionsAgentPostHandler r st = storeNew (rq_path r) j key new_writer st)"
  by (auto simp: subscriptionsAgentPostHandler_def Let_def handleSubscribePostError_def split: option.split)

lemma post_cases:
  assumes "h = doSubscribePost \<or> h = subscriptionsAgentPostHandler"
  obtains w where "h r st = (Some w, st)" "status_of w = 400"
  | e j key where "h r st = storeNew e j key new_writer st"
  using assms post_v1_cases [of r st] post_v2_cases [of r st] by metis

text \<open>
  C19: Whatever the store does, neither POST handler panics, changes or removes an existing key,
  or touches the prune map; 200 means that one new subscription was stored and queued to HSM,
  any other answer queues nothing, and 400 stores nothing.
\<close>

theorem post_keeps_subscriptions:
  assumes "h = doSubscribePost \<or> h = subscriptionsAgentPostHandler"
  shows "\<exists>w st'. h r st = (Some w, st') \<and> kv_content (ss_kv st) \<subseteq>\<^sub>m kv_content (ss_kv st') \<and>
    ss_prune st' = ss_prune st \<and>
    (if status_of w = 200
     then \<exists>key j. kv_content (ss_kv st) key = None \<and>
       subscriptions st' = (subscriptions st)(key \<mapsto> entry_of j) \<and> ss_hsmsub st' = ss_hsmsub st @ [j]
     else ss_hsmsub st' = ss_hsmsub st \<and>
       (status_of w = 400 \<longrightarrow> subscriptions st' = subscriptions st))"
proof -
  have sn: ?thesis if hs: "h r st = storeNew e j key new_writer st" for e j key
  proof -
    obtain w st' where s: "storeNew e j key new_writer st = (Some w, st')"
      using storeNew_not_panics [of e j key new_writer st] by (cases "storeNew e j key new_writer st") auto
    have "kv_content (ss_kv st) \<subseteq>\<^sub>m kv_content (ss_kv st')"
      using storeNew_frame [of st _ _ e j key new_writer] s by (auto simp: map_le_def dom_def)
    moreover have "status_of w = 400 \<Longrightarrow> subscriptions st' = subscriptions st"
      using storeNew_status [OF s] by (auto simp: subscriptions_def fun_eq_iff)
    moreover have "ss_prune st' = ss_prune st" using storeNew_prune [of e j key new_writer st] s by simp
    moreover have "subscriptions st' = (subscriptions st)(key \<mapsto> entry_of j)" if "status_of w = 200"
      using storeNew_status [OF s] that by (intro subscriptions_upd) (auto simp: entry_of_def)
    ultimately show ?thesis using hs s storeNew_status [OF s] by auto
  qed
  show ?thesis
  proof (rule post_cases [OF assms])
    fix w
    assume "h r st = (Some w, st)" "status_of w = 400"
    then show ?thesis by simp
  next
    fix e j key
    assume "h r st = storeNew e j key new_writer st"
    then show ?thesis by (rule sn)
  qed
qed

text \<open>
  C17: On a store that answers and whose entries can be listed, after a v2 POST of a plain
  subscription was answered with 200, listing the component answers with a list that holds the
  subscription: its agent, its attributes in lower case, its components and its URL.
\<close>

theorem listed_after_post:
  assumes "store_up st" "keys_listable st" "\<not> rq_err r"
    and "VerifyNormalizeCompID (rq_var r ''xname'') = xn" "xn \<noteq> []" "KEY_DELIM \<notin> set xn"
    and "unmarshal_ScnSubscribe (to_lower (rq_body r)) = Some j" "\<forall>x \<in> set (sub_attrs j). plain x"
    and "rq_var r ''agent'' = agent" "plain agent"
    and "subscriptionsAgentPostHandler r st = (Some w, st1)" "status_of w = 200"
    and "rq_method g = ''GET''" "VerifyNormalizeCompID (rq_var g ''xname'') = xn"
  shows "\<exists>infos st2. subscriptionsXNameGetHandler g st1 = (Some (list_answer infos), st2) \<and>
    subscriptions st2 = subscriptions st1 \<and>
    (listed j xn agent)\<lparr>subComponents := subComponents j, subUrl := subUrl j\<rparr> \<in> set infos"
proof -
  let ?k = "makeSubscriptionKey_V2 j xn agent"
  have v: "hmsTypeValid xn" using VerifyNormalizeCompID_valid assms(4,5) by blast
  have chk: "checkSubscription_v2 j = None"
    using assms by (auto simp: subscriptionsAgentPostHandler_def split: option.splits)
  have post: "subscriptionsAgentPostHandler r st = storeNew (rq_path r) j ?k new_writer st"
    using assms(3-9) chk v by (simp add: subscriptionsAgentPostHandler_def Let_def)
  have s1: "subscriptions st1 = (subscriptions st)(?k \<mapsto> entry_of j)"
    using storeNew_up [OF assms(1), of "rq_path r" j ?k] post assms(11,12) by (auto split: if_splits)
  have c1: "kv_content (ss_kv st1) = (kv_content (ss_kv st))(?k \<mapsto> marshal_SubData (entry_of j))"
    using storeNew_status [of "rq_path r" j ?k st w st1] post assms(11,12) by (simp add: entry_of_def)
  have up1: "store_up st1"
  proof -
    have "store_up (snd (storeNew (rq_path r) j ?k new_writer st))"
      using assms(1) storeNew_up_keep by blast
    then show ?thesis unfolding post [symmetric] assms(11) by simp
  qed
  have info: "subinfo_of_key ?k = Some (listed j xn agent)"
    by (rule subinfo_of_makeKey) (use assms in auto)
  have l1: "keys_listable st1"
    using assms(2) info by (auto simp: keys_listable_def s1 c1)
  have in1: "in_range ?k" using valid_key_in_range [OF v] .
  have comp: "key_component ?k = xn"
    by (rule key_component_makeKey) (use assms in \<open>auto simp: plain_def\<close>)
  obtain ks st2 where g: "listReply (rq_path g) (\<lambda>c. c = xn) new_writer st1 =
      (Some (list_answer (map (\<lambda>k. info_of k (the (subscriptions st1 k))) ks)), st2)"
    "set ks = {k. in_range k \<and> subscriptions st1 k \<noteq> None \<and> key_component k = xn}"
    "subscriptions st2 = subscriptions st1"
    using listReply_spec [OF up1 l1, of "rq_path g" "\<lambda>c. c = xn"] by blast
  have kin: "?k \<in> set ks" using g(2) in1 comp s1 by simp
  have e: "entry_of j = the (subscriptions st1 ?k)" using s1 by simp
  have "info_of ?k (entry_of j) \<in> set (map (\<lambda>k. info_of k (the (subscriptions st1 k))) ks)"
    unfolding e set_map using kin by (rule imageI)
  moreover have "info_of ?k (entry_of j) =
      (listed j xn agent)\<lparr>subComponents := subComponents j, subUrl := subUrl j\<rparr>"
    using info by (simp add: info_of_def entry_of_def)
  ultimately have "(listed j xn agent)\<lparr>subComponents := subComponents j, subUrl := subUrl j\<rparr>
      \<in> set (map (\<lambda>k. info_of k (the (subscriptions st1 k))) ks)" by (simp only:)
  moreover have "subscriptionsXNameGetHandler g st1 =
      (Some (list_answer (map (\<lambda>k. info_of k (the (subscriptions st1 k))) ks)), st2)"
    using g(1) assms(5,13,14) by (simp add: subscriptionsXNameGetHandler_def)
  ultimately show ?thesis using g(3) by blast
qed

text \<open>A v2 PATCH that meets at most one subscription of the agent.\<close>

lemma agent_patch_spec:
  assumes "store_up st" "\<not> rq_err r"
    and "VerifyNormalizeCompID (rq_var r ''xname'') = xn" "xn \<noteq> []"
    and "unmarshal_ScnSubscribe (to_lower (rq_body r)) = Some j" "patchRange j = Some (lo, hi)"
    and "entries_patchable lo hi st"
    and "patch_hits (patch_hit_v2 xn (rq_var r ''agent'')) lo hi st \<subseteq> {key}"
  shows "\<exists>st'. subscriptionsAgentPatchHandler r st = (Some (writeHeader 204 new_writer), st') \<and>
    ss_prune st' = ss_prune st \<and> ss_hsmsub st' = ss_hsmsub st \<and>
    subscriptions st' =
      (if patch_hits (patch_hit_v2 xn (rq_var r ''agent'')) lo hi st = {} then subscriptions st
       else ((subscriptions st)(key := None))
              (makeSubscriptionKey_V2 j xn (rq_var r ''agent'') \<mapsto> entry_of j))"
proof -
  obtain kvs kv1 where r: "kvGetRange lo hi (ss_kv st) = (Inr kvs, kv1)"
    using kv.range_read [of "ss_kv st" lo hi] assms(1) unfolding store_up_def by auto
  show ?thesis
    using patchLoop_up [OF assms(1,7,8) r, of "rq_path r" 204] assms(2-6) r
    by (simp add: subscriptionsAgentPatchHandler_def Let_def)
qed

lemma replaceEntry_up:
  assumes "store_up st"
  shows "store_up (snd (replaceEntry e c j key exKey w st))"
  using assms kv.ok_keep(3,4) kv.reliable_keep(3,4)
  by (auto simp: store_up_def replaceEntry_def makeSubscriptionEntry_def split: prod.split)
    (metis snd_conv)+

text \<open>A v2 PATCH that meets one subscription, with what it leaves in the store.\<close>

lemma agent_patch_content:
  assumes "store_up st" "\<not> rq_err r" "VerifyNormalizeCompID (rq_var r ''xname'') = xn" "xn \<noteq> []"
    and "unmarshal_ScnSubscribe (to_lower (rq_body r)) = Some j" "patchRange j = Some (lo, hi)"
    and "entries_patchable lo hi st" "patch_hits (patch_hit_v2 xn (rq_var r ''agent'')) lo hi st = {key}"
  shows "\<exists>st1. subscriptionsAgentPatchHandler r st = (Some (writeHeader 204 new_writer), st1) \<and> store_up st1 \<and>
    ss_prune st1 = ss_prune st \<and> kv_content (ss_kv st1) = ((kv_content (ss_kv st))(key := None))
      (makeSubscriptionKey_V2 j xn (rq_var r ''agent'') \<mapsto> marshal_SubData (entry_of j))"
proof -
  let ?hit = "patch_hit_v2 xn (rq_var r ''agent'')" and ?ex = "makeSubscriptionKey_V2 j xn (rq_var r ''agent'')"
  obtain kvs kv1 where g: "kvGetRange lo hi (ss_kv st) = (Inr kvs, kv1)" and c: "kv_content kv1 = kv_content (ss_kv st)"
    and mem: "\<And>k v. (k, v) \<in> set kvs \<longleftrightarrow> kv_content (ss_kv st) k = Some v \<and> lo \<le> k \<and> k \<le> hi"
    using kv.range_read [of "ss_kv st" lo hi] assms(1) unfolding store_up_def by blast
  let ?st = "st\<lparr>ss_kv := kv1\<rparr>"
  have up: "store_up ?st"
    using assms(1) g kv.ok_keep(2) [of "ss_kv st" lo hi] kv.reliable_keep(2) [of "ss_kv st" lo hi] by (simp add: store_up_def)
  have "patchable kvs"
    using assms(7) mem by (fastforce simp: patchable_def entries_patchable_def subscriptions_def)
  note loop = patchLoop_find [OF this, of "rq_path r" 204 ?hit ?ex j new_writer ?st]
  have hits: "\<And>k v. (k, v) \<in> set kvs \<Longrightarrow> entry_hit ?hit (k, v) \<Longrightarrow> k = key" "\<exists>kv \<in> set kvs. entry_hit ?hit kv"
    using assms(8) mem by (auto simp: patch_hits_def) blast
  then obtain kv where f: "find (entry_hit ?hit) kvs = Some kv" by (metis find_None_iff not_Some_eq)
  then have "kv \<in> set kvs" "entry_hit ?hit kv" by (auto simp: find_Some_iff)
  then have "fst kv = key" using hits(1) [of "fst kv" "snd kv"] by simp
  then have "subscriptionsAgentPatchHandler r st = replaceEntry (rq_path r) 204 j key ?ex new_writer ?st"
    using loop f g assms(2-6) by (simp add: subscriptionsAgentPatchHandler_def Let_def)
  moreover have "kv_reliable (ss_kv ?st)" using up by (simp add: store_up_def)
  ultimately show ?thesis
    using replaceEntry_up [OF up] replaceEntry_reliable [of ?st "rq_path r" 204 j key ?ex new_writer]
      replaceEntry_rest [of "rq_path r" 204 j key ?ex new_writer ?st] c
    by (intro exI [of _ "snd (replaceEntry (rq_path r) 204 j key ?ex new_writer ?st)"]) (simp add: prod_eq_iff entry_of_def)
qed

lemma patch_v2_cases:
  fixes r st
  defines "xn \<equiv> VerifyNormalizeCompID (rq_var r ''xname'')" and "agent \<equiv> rq_var r ''agent''"
  obtains w where "subscriptionsAgentPatchHandler r st = (Some w, st)"
  | lo hi e kv1 w where "kvGetRange lo hi (ss_kv st) = (Inl e, kv1)"
      "subscriptionsAgentPatchHandler r st = (Some w, st\<lparr>ss_kv := kv1\<rparr>)"
  | lo hi kvs kv1 j where "kvGetRange lo hi (ss_kv st) = (Inr kvs, kv1)"
      "subscriptionsAgentPatchHandler r st = patchLoop (rq_path r) 204 (patch_hit_v2 xn agent)
         (makeSubscriptionKey_V2 j xn agent) j kvs new_writer (st\<lparr>ss_kv := kv1\<rparr>)"
proof (cases "xn = [] \<or> rq_err r \<or> unmarshal_ScnSubscribe (to_lower (rq_body r)) = None")
  case True
  then have "\<exists>w. subscriptionsAgentPatchHandler r st = (Some w, st)"
    by (auto simp: subscriptionsAgentPatchHandler_def Let_def xn_def)
  then show ?thesis using that(1) by blast
next
  case False
  then obtain j where j: "unmarshal_ScnSubscribe (to_lower (rq_body r)) = Some j" by auto
  obtain lo hi where range: "patchRange j = Some (lo, hi)" using patchRange_total by blast
  obtain x kv1 where g: "kvGetRange lo hi (ss_kv st) = (x, kv1)" by force
  have "subscriptionsAgentPatchHandler r st = (case x of
      Inl _ \<Rightarrow> (Some (internal (rq_path r) ''Key/Value ETCD service GET operation failed'' new_writer),
                st\<lparr>ss_kv := kv1\<rparr>)
    | Inr kvs \<Rightarrow> patchLoop (rq_path r) 204 (patch_hit_v2 xn agent) (makeSubscriptionKey_V2 j xn agent)
        j kvs new_writer (st\<lparr>ss_kv := kv1\<rparr>))"
    using False unfolding xn_def agent_def
    by (simp add: subscriptionsAgentPatchHandler_def Let_def j range g split: sum.split)
  then show ?thesis using that(2,3) g by (cases x) auto
qed

text \<open>
  Whatever the store does, a v2 PATCH changes at most two keys: the one it builds and one
  existing key whose component and agent are those of the path; the prune map and the queue to
  HSM are not touched.
\<close>

lemma agent_patch_local:
  assumes "kv_ok (ss_kv st)"
    and "VerifyNormalizeCompID (rq_var r ''xname'') = xn" "rq_var r ''agent'' = agent"
  shows "\<exists>key exKey. (\<forall>k. k \<noteq> key \<longrightarrow> k \<noteq> exKey \<longrightarrow>
      subscriptions (snd (subscriptionsAgentPatchHandler r st)) k = subscriptions st k) \<and>
    (key = exKey \<or> kv_content (ss_kv st) key \<noteq> None \<and>
      (\<exists>a. keyServicePatch key = Some (xn, a) \<and> (case a of None \<Rightarrow> [] | Some b \<Rightarrow> b) = agent)) \<and>
    ss_prune (snd (subscriptionsAgentPatchHandler r st)) = ss_prune st \<and>
    ss_hsmsub (snd (subscriptionsAgentPatchHandler r st)) = ss_hsmsub st"
proof -
  let ?h = "subscriptionsAgentPatchHandler r st"
  have same: ?thesis if "kv_content (ss_kv (snd ?h)) = kv_content (ss_kv st)"
    "ss_prune (snd ?h) = ss_prune st" "ss_hsmsub (snd ?h) = ss_hsmsub st"
    using that by (auto simp: subscriptions_def)
  show ?thesis
  proof (cases rule: patch_v2_cases [of r st])
    case (1 w)
    then show ?thesis by (intro same) auto
  next
    case (2 lo hi e kv1 w)
    then show ?thesis using kv.range_frame [of lo hi "ss_kv st"] by (intro same) auto
  next
    case (3 lo hi kvs kv1 j)
    note 4 = 3 [unfolded assms(2,3)]
    have c: "kv_content kv1 = kv_content (ss_kv st)"
      using kv.range_frame [of lo hi "ss_kv st"] 4(1) by simp
    have dom: "kv_content (ss_kv st) k \<noteq> None" if "(k, v) \<in> set kvs" for k v
      using kv.range_mem_iff [OF assms(1) 4(1), of k v] that by simp
    let ?ex = "makeSubscriptionKey_V2 j xn agent"
    obtain key where key: "key = ?ex \<or> (\<exists>v. (key, v) \<in> set kvs \<and> entry_hit (patch_hit_v2 xn agent) (key, v))"
      "\<And>k. k \<noteq> key \<Longrightarrow> k \<noteq> ?ex \<Longrightarrow> kv_content (ss_kv (snd ?h)) k = kv_content (ss_kv st) k"
      "ss_prune (snd ?h) = ss_prune st" "ss_hsmsub (snd ?h) = ss_hsmsub st"
      using patchLoop_local [of ?ex kvs "patch_hit_v2 xn agent" "rq_path r" 204 j new_writer
          "st\<lparr>ss_kv := kv1\<rparr>"] unfolding 4(2) [symmetric] by (auto simp: c)
    have "key = ?ex \<or> kv_content (ss_kv st) key \<noteq> None \<and>
        (\<exists>a. keyServicePatch key = Some (xn, a) \<and> (case a of None \<Rightarrow> [] | Some b \<Rightarrow> b) = agent)"
    proof (cases "key = ?ex")
      case False
      then obtain v where v: "(key, v) \<in> set kvs" "entry_hit (patch_hit_v2 xn agent) (key, v)"
        using key(1) by blast
      then obtain x a where "keyServicePatch key = Some (x, a)"
        by (auto simp: entry_hit_def split: option.splits)
      then show ?thesis
        using v dom by (auto simp: entry_hit_def patch_hit_v2_def split: option.splits)
    qed simp
    then show ?thesis
      using key(2-4) by (intro exI [of _ key] exI [of _ ?ex]) (simp add: subscriptions_def)
  qed
qed

section \<open>A worked example\<close>

definition ex_sub :: ScnSubscribe where
  "ex_sub = ScnSubscribe0\<lparr>subComponents := [''x0c0s1b0n0''], subStates := [''On'', ''off''],
     subRoles := [''compute''], subUrl := ''http://a/scn''\<rparr>"

definition ex_key :: string where
  "ex_key = ''sub#x0c0s0b0n0#hs.on.off#roles.compute#svc.mon''"

definition ex_store :: "kv_outcome list \<Rightarrow> (string \<times> string) list \<Rightarrow> substate" where
  "ex_store script m = \<lparr>ss_kv = \<lparr>kv_mem = m, kv_script = script, kv_errmsg = ''etcd''\<rparr>,
     ss_prune = [], ss_hsmsub = []\<rparr>"

definition ex_val :: string where
  "ex_val = ''{\"Url\":\"http://a/scn\",\"ScnNodes\":[\"x0c0s1b0n0\"]}''"

definition ex_request :: "string \<Rightarrow> string \<Rightarrow> request" where
  "ex_request meth body = \<lparr>rq_method = meth, rq_path = ''/p'',
     rq_vars = [(''xname'', ''X0c0s00b0n0''), (''agent'', ''mon'')], rq_body = body, rq_err = False\<rparr>"

definition ex_body :: string where
  "ex_body = ''{\"Subscriber\":\"mon@x0c0s0b0n0\",\"Components\":[\"x0c0s1b0n0\"],\"States\":[\"Ready\"],\"Url\":\"http://b\"}''"

lemma ex_values:
  "makeSubscriptionKey_V2 ex_sub ''x0c0s0b0n0'' ''mon'' = ex_key"
  "unmarshal_SubData ex_val = Some \<lparr>sdUrl = ''http://a/scn'', sdScnNodes = [''x0c0s1b0n0'']\<rparr>"
  "marshal_SubData (entry_of ex_sub) = ex_val"
  "VerifyNormalizeCompID ''X0c0s00b0n0'' = ''x0c0s0b0n0''"
  "keyService ex_key = Some (''x0c0s0b0n0'', Some ''mon'')"
  "keyServicePatch ex_key = Some (''x0c0s0b0n0'', Some ''mon'')"
  by code_simp+

definition ex_patch :: ScnSubscribe where
  "ex_patch = ScnSubscribe0\<lparr>subSubscriber := ''mon@x0c0s0b0n0'', subComponents := [''x0c0s1b0n0''],
     subStates := [''ready''], subUrl := ''http://b''\<rparr>"

lemma ex_unmarshal: "unmarshal_ScnSubscribe (to_lower ex_body) = Some ex_patch"
  by code_simp

text \<open>
  A v2 PATCH whose store call fails after the deletion of the old key answers 204 with the
  subscription gone.
\<close>

lemma patch_may_lose:
  "\<exists>r st w st'. subscriptionsAgentPatchHandler r st = (Some w, st') \<and> status_of w = 204 \<and>
     kv_mem (ss_kv st) \<noteq> [] \<and> kv_mem (ss_kv st') = []"
proof -
  let ?r = "ex_request ''PATCH'' ex_body" and ?st = "ex_store [KV_ok, KV_ok, KV_lost] [(ex_key, ex_val)]"
  have "(case subscriptionsAgentPatchHandler ?r ?st of
      (Some w, st') \<Rightarrow> status_of w = 204 \<and> kv_mem (ss_kv st') = [] | _ \<Rightarrow> False)"
    by code_simp
  then obtain w st' where "subscriptionsAgentPatchHandler ?r ?st = (Some w, st')"
    "status_of w = 204" "kv_mem (ss_kv st') = []"
    by (auto split: prod.splits option.splits)
  moreover have "kv_mem (ss_kv ?st) \<noteq> []" by (simp add: ex_store_def)
  ultimately show ?thesis by blast
qed

lemma ex_up: "store_up (ex_store [] [])" "store_up (ex_store [] [(k, v)])"
  by (simp_all add: store_up_def ex_store_def kv_ok_def kv_reliable_def gm_ok_def)

lemma ex_content:
  "kv_content (ss_kv (ex_store s m)) = map_of m"
  by (simp add: kv_content_def ex_store_def)

lemma ex_in_range: "in_range ex_key"
  by (simp add: in_range_def ex_key_def)

lemma ex_subscriptions:
  "subscriptions (ex_store s [(ex_key, ex_val)]) =
     [ex_key \<mapsto> \<lparr>sdUrl = ''http://a/scn'', sdScnNodes = [''x0c0s1b0n0'']\<rparr>]"
  by (rule ext) (simp add: subscriptions_def ex_content ex_values)

lemma ex_readable: "keys_readable (ex_store [] [(ex_key, ex_val)])"
  "entries_readable (ex_store [] [(ex_key, ex_val)])"
  by (simp_all add: keys_readable_def entries_readable_def ex_content ex_values ex_subscriptions)

lemma ex_var: "VerifyNormalizeCompID (rq_var (ex_request m b) ''xname'') = ''x0c0s0b0n0''"
  "rq_var (ex_request m b) ''agent'' = ''mon''" "rq_err (ex_request m b) = False"
  "rq_method (ex_request m b) = m" "rq_body (ex_request m b) = b"
  by (simp_all add: ex_request_def rq_var_def ex_values)

lemma xname_delete_spec_example:
  "\<exists>st'. subscriptionsXNameDeleteHandler (ex_request ''DELETE'' [])
       (ex_store [] [(ex_key, ex_val)]) = (Some (writeHeader 204 new_writer), st') \<and>
     deleted (matching_keys (\<lambda>c a. VerifyNormalizeCompID (rq_var (ex_request ''DELETE'' []) ''xname'') = c)
       (ex_store [] [(ex_key, ex_val)])) (ex_store [] [(ex_key, ex_val)]) st'"
  by (rule xname_delete_spec) (simp_all add: ex_up ex_readable ex_var)

lemma ex_post: "checkSubscription_v2 ex_patch = None"
  "makeSubscriptionKey_V2 ex_patch ''x0c0s0b0n0'' ''mon'' = ''sub#x0c0s0b0n0#hs.ready#svc.mon''"
  by code_simp+

lemma agent_post_spec_example:
  "\<exists>w st'. subscriptionsAgentPostHandler (ex_request ''POST'' ex_body) (ex_store [] []) = (Some w, st') \<and>
     status_of w = 200 \<and>
     subscriptions st' = [''sub#x0c0s0b0n0#hs.ready#svc.mon'' \<mapsto> entry_of ex_patch] \<and>
     ss_hsmsub st' = [ex_patch]"
proof -
  have e: "subscriptions (ex_store [] []) = Map.empty" "ss_hsmsub (ex_store [] []) = []"
    by (auto simp: subscriptions_def ex_content) (simp add: ex_store_def)
  show ?thesis
    using agent_post_spec [of "ex_store [] []" "ex_request ''POST'' ex_body" "''x0c0s0b0n0''" ex_patch
        "''sub#x0c0s0b0n0#hs.ready#svc.mon''"]
    by (simp add: ex_up ex_var ex_unmarshal ex_post e ex_content del: writeHeader_def)
qed

theorem post_keeps_subscriptions_witness:
  "\<exists>w st'. subscriptionsAgentPostHandler (ex_request ''POST'' ex_body) (ex_store [KV_ok, KV_late] []) =
      (Some w, st') \<and> Map.empty \<subseteq>\<^sub>m kv_content (ss_kv st') \<and> ss_prune st' = []"
  using post_keeps_subscriptions [of subscriptionsAgentPostHandler "ex_request ''POST'' ex_body"
      "ex_store [KV_ok, KV_late] []"]
  by (auto simp: ex_store_def)

theorem listed_after_post_witness:
  "\<exists>w st1 infos st2.
     subscriptionsAgentPostHandler (ex_request ''POST'' ex_body) (ex_store [] []) = (Some w, st1) \<and>
     subscriptionsXNameGetHandler (ex_request ''GET'' []) st1 = (Some (list_answer infos), st2) \<and>
     (listed ex_patch ''x0c0s0b0n0'' ''mon'')\<lparr>subComponents := subComponents ex_patch,
        subUrl := subUrl ex_patch\<rparr> \<in> set infos"
proof -
  let ?r = "ex_request ''POST'' ex_body" and ?st = "ex_store [] []"
  have "(case subscriptionsAgentPostHandler ?r ?st of (Some w, _) \<Rightarrow> status_of w = 200 | _ \<Rightarrow> False)"
    by code_simp
  then obtain w st1 where p: "subscriptionsAgentPostHandler ?r ?st = (Some w, st1)" "status_of w = 200"
    by (auto split: prod.splits option.splits)
  have l: "keys_listable ?st" by (simp add: keys_listable_def ex_content)
  have pl: "\<forall>x \<in> set (sub_attrs ex_patch). plain x" "plain ''mon''"
    by (simp_all add: sub_attrs_def ex_patch_def ScnSubscribe0_def plain_def)
  show ?thesis
    using listed_after_post [OF ex_up(1) l _ ex_var(1) _ _ _ pl(1) ex_var(2) pl(2) p ex_var(4) ex_var(1)] p(1)
    by (simp add: ex_var ex_unmarshal) blast
qed

lemma ex_patch_range: "patchRange ex_patch = Some (''sub#x0c0s0b0n0'', ''sub#x0c0s0b0n0z'')"
  by code_simp

lemma ex_patch_hits:
  "patch_hits (patch_hit_v2 ''x0c0s0b0n0'' ''mon'') ''sub#x0c0s0b0n0'' ''sub#x0c0s0b0n0z''
     (ex_store [] [(ex_key, ex_val)]) = {ex_key}"
proof -
  have "''sub#x0c0s0b0n0'' \<le> ex_key" "ex_key \<le> ''sub#x0c0s0b0n0z''" by (simp_all add: ex_key_def)
  then show ?thesis
    by (auto simp: patch_hits_def ex_content entry_hit_def ex_values patch_hit_v2_def split: if_splits)
qed

lemma agent_patch_local_example:
  "\<exists>key exKey. \<forall>k. k \<noteq> key \<longrightarrow> k \<noteq> exKey \<longrightarrow>
     subscriptions (snd (subscriptionsAgentPatchHandler (ex_request ''PATCH'' ex_body)
       (ex_store [KV_ok, KV_late] [(ex_key, ex_val)]))) k =
     subscriptions (ex_store [KV_ok, KV_late] [(ex_key, ex_val)]) k"
proof -
  have "kv_ok (ss_kv (ex_store [KV_ok, KV_late] [(ex_key, ex_val)]))"
    by (simp add: ex_store_def kv_ok_def gm_ok_def)
  from agent_patch_local [OF this ex_var(1) ex_var(2)] show ?thesis by blast
qed

end
