(* ===== verification/Fanout.thy ===== *)
theory Fanout
  imports Jobs SubscribeV2
begin

text \<open>
  Fanning a notification out to the subscribers: \<open>intersect\<close>, \<open>isStateUnavailable\<close>, \<open>scnToLower\<close>,
  \<open>getSCNAttrs\<close> and \<open>doScn\<close> of cmd/hmi-nfd/api.go. \<open>doScn\<close> runs in a goroutine of its own, where a
  panic ends the process: the first component of its result says whether it panicked, the second
  are the jobs it had queued. The pool takes every job (\<open>doScn\<close> retries until \<open>Queue\<close> accepts).
  \<open>jdata_lc := jdata\<close> shares the slice of components, so that \<open>scnToLower\<close> also lowers those of \<open>jdata\<close>;
  nothing reads them afterwards.
\<close>

section \<open>The components of interest\<close>

text \<open>The regular expression \<open>^x.*b[0-9]+n[0-9]+$\<close>.\<close>

definition node_rx :: "rx list" where
  "node_rx = [One (In ''x''), Star NotNL, One (In ''b''), One (In ''0123456789''),
     Star (In ''0123456789''), One (In ''n''), One (In ''0123456789''), Star (In ''0123456789'')]"

text \<open>\<open>osa[ix] = v; ix++\<close>: an index outside the buffer panics.\<close>

definition put_next :: "string \<Rightarrow> string list \<times> nat \<Rightarrow> (string list \<times> nat) option" where
  "put_next v b = (case b of (osa, ix) \<Rightarrow>
     if ix < length osa then Some (osa[ix := v], ix + 1) else None)"

text \<open>The loop of the two wild cards and the loop over the exact names.\<close>

fun copy_if :: "(string \<Rightarrow> bool) \<Rightarrow> string list \<Rightarrow> string list \<times> nat \<Rightarrow> (string list \<times> nat) option" where
  "copy_if p [] b = Some b"
| "copy_if p (v # vs) b =
     (if p v then do { b' \<leftarrow> put_next v b; copy_if p vs b' } else copy_if p vs b)"

fun copy_named ::
  "(string, bool) gomap \<Rightarrow> string list \<Rightarrow> string list \<times> nat \<Rightarrow> (string list \<times> nat) option" where
  "copy_named dmap [] b = Some b"
| "copy_named dmap (v # vs) b =
     (if gm_get dmap v \<noteq> None then do { b' \<leftarrow> put_next v b; copy_named (gm_del v dmap) vs b' }
      else copy_named dmap vs b)"

definition intersect :: "string list \<Rightarrow> string list \<Rightarrow> string list option" where
  "intersect subarr hsmarr =
     (let tlen = max (length subarr) (length hsmarr);
          osa = replicate tlen [] in
      do { lcc \<leftarrow> go_nth subarr 0;
           (osa', ix) \<leftarrow>
             (if lcc = ''all'' then copy_if (\<lambda>_. True) hsmarr (osa, 0)
              else if lcc = ''allnodes'' then copy_if (rx_match node_rx) hsmarr (osa, 0)
              else copy_named (fold (\<lambda>s. gm_put s True) subarr []) hsmarr (osa, 0));
           Some (take ix osa') })"

section \<open>The notification\<close>

definition isStateUnavailable :: "Scn \<Rightarrow> bool" where
  "isStateUnavailable scn \<longleftrightarrow>
     to_lower (scnState scn) = to_lower ''Empty'' \<or> to_lower (scnState scn) = to_lower ''Off'' \<or>
     to_lower (scnState scn) = to_lower ''Halt'' \<or> scnEnabled scn = Some False"

definition scnToLower :: "Scn \<Rightarrow> Scn" where
  "scnToLower s = s\<lparr>scnComponents := map to_lower (scnComponents s),
     scnFlag := to_lower (scnFlag s), scnRole := to_lower (scnRole s),
     scnSubRole := to_lower (scnSubRole s), scnSoftwareStatus := to_lower (scnSoftwareStatus s),
     scnState := to_lower (scnState s)\<rparr>"

definition getSCNAttrs :: "Scn \<Rightarrow> string list" where
  "getSCNAttrs jdata =
     (if scnEnabled jdata \<noteq> None then [''enbl''] else []) @
     (if scnRole jdata \<noteq> [] then [to_lower (scnRole jdata)] else []) @
     (if scnSubRole jdata \<noteq> [] then [to_lower (scnSubRole jdata)] else []) @
     (if scnState jdata \<noteq> [] then [to_lower (scnState jdata)] else []) @
     (if scnSoftwareStatus jdata \<noteq> [] then [to_lower (scnSoftwareStatus jdata)] else [])"

section \<open>Sending\<close>

text \<open>What a subscriber is sent: every member of the notification but \<open>Flag\<close>.\<close>

definition sendData_of :: "Scn \<Rightarrow> string list \<Rightarrow> Scn" where
  "sendData_of jdata comps = Scn0\<lparr>scnEnabled := scnEnabled jdata, scnRole := scnRole jdata,
     scnSubRole := scnSubRole jdata, scnSoftwareStatus := scnSoftwareStatus jdata,
     scnState := scnState jdata, scnTimestamp := scnTimestamp jdata, scnComponents := comps\<rparr>"

text \<open>A job once \<open>scnWorkPool.Queue\<close> has taken it.\<close>

definition queued :: "JobSCNSend \<Rightarrow> JobSCNSend" where
  "queued j = snd (SetStatus JSTAT_QUEUED None j)"

fun doScnLoop ::
  "Scn \<Rightarrow> bool \<Rightarrow> (string, bool) gomap \<Rightarrow> (string \<times> string) list \<Rightarrow> JobSCNSend list \<Rightarrow>
   bool \<times> JobSCNSend list" where
  "doScnLoop jdata prune prunemap_copy [] jobs = (False, jobs)"
| "doScnLoop jdata prune prunemap_copy ((key, val) # rest) jobs =
     (let jdata_lc = scnToLower jdata;
          attrMatch = list_ex (go_contains key) (getSCNAttrs jdata_lc) in
      case go_nth (split_on KEY_DELIM key) 1 of
        None \<Rightarrow> (True, jobs)
      | Some subxname \<Rightarrow>
          if attrMatch \<and> \<not> (prune \<and> gm_flag prunemap_copy subxname)
          then (case unmarshal_SubData val of
                  None \<Rightarrow> (False, jobs)
                | Some nsdata \<Rightarrow>
                    (case intersect (sdScnNodes nsdata) (scnComponents jdata_lc) of
                       None \<Rightarrow> (True, jobs)
                     | Some comps \<Rightarrow>
                         doScnLoop jdata prune prunemap_copy rest
                           (if length comps < 1 then jobs
                            else jobs @ [queued (NewJobSCNSend (sendData_of jdata comps) subxname
                                                   (sdUrl nsdata))])))
          else doScnLoop jdata prune prunemap_copy rest jobs)"

text \<open>
  The copy of the prune map is taken only when the notification makes its components unavailable;
  it then holds these components and whatever was in the map before.
\<close>

definition doScn :: "Scn \<Rightarrow> substate \<Rightarrow> (bool \<times> JobSCNSend list) \<times> substate" where
  "doScn jdata st =
     (let jdata_lc = scnToLower jdata;
          prune = isStateUnavailable jdata;
          prunemap = (if prune then fold (\<lambda>c. gm_put c True) (scnComponents jdata_lc) (ss_prune st)
                      else ss_prune st);
          prunemap_copy = (if prune then prunemap else []) in
      case kvGetRange KEYRANGE_START KEYRANGE_END (ss_kv st) of
        (Inl _, kv1) \<Rightarrow> ((False, []), st\<lparr>ss_kv := kv1, ss_prune := prunemap\<rparr>)
      | (Inr kvlist, kv1) \<Rightarrow>
          (doScnLoop jdata prune prunemap_copy kvlist [], st\<lparr>ss_kv := kv1, ss_prune := prunemap\<rparr>))"

section \<open>Properties of the intersection\<close>

lemma copy_if_spec:
  "ix + length vs \<le> length osa \<Longrightarrow>
   \<exists>osa'. copy_if p vs (osa, ix) = Some (osa', ix + length (filter p vs)) \<and>
     length osa' = length osa \<and>
     take (ix + length (filter p vs)) osa' = take ix osa @ filter p vs"
proof (induction vs arbitrary: osa ix)
  case (Cons v vs)
  show ?case
  proof (cases "p v")
    case True
    have len: "Suc ix + length vs \<le> length (osa[ix := v])" using Cons.prems by simp
    obtain osa' where "copy_if p vs (osa[ix := v], Suc ix) = Some (osa', Suc ix + length (filter p vs))"
      "length osa' = length osa"
      "take (Suc ix + length (filter p vs)) osa' = take (Suc ix) (osa[ix := v]) @ filter p vs"
      using Cons.IH [OF len] by auto
    moreover have "take (Suc ix) (osa[ix := v]) = take ix osa @ [v]"
      using Cons.prems by (simp add: take_Suc_conv_app_nth)
    ultimately show ?thesis using True Cons.prems by (simp add: put_next_def)
  next
    case False
    then show ?thesis using Cons by simp
  qed
qed simp

text \<open>The first occurrences of the names that \<open>dmap\<close> holds.\<close>

fun named :: "string set \<Rightarrow> string list \<Rightarrow> string list" where
  "named D [] = []"
| "named D (v # vs) = (if v \<in> D then v # named (D - {v}) vs else named D vs)"

lemma named_set: "set (named D vs) = D \<inter> set vs"
  by (induction D vs rule: named.induct) auto

lemma named_distinct: "distinct (named D vs)"
  by (induction D vs rule: named.induct) (auto simp: named_set)

lemma named_length: "length (named D vs) \<le> length vs"
  by (induction D vs rule: named.induct) auto

lemma copy_named_spec:
  "ix + length vs \<le> length osa \<Longrightarrow>
   \<exists>osa'. copy_named dmap vs (osa, ix) = Some (osa', ix + length (named (dom (map_of dmap)) vs)) \<and>
     length osa' = length osa \<and>
     take (ix + length (named (dom (map_of dmap)) vs)) osa' =
       take ix osa @ named (dom (map_of dmap)) vs"
proof (induction vs arbitrary: osa ix dmap)
  case (Cons v vs)
  show ?case
  proof (cases "v \<in> dom (map_of dmap)")
    case True
    have len: "Suc ix + length vs \<le> length (osa[ix := v])" using Cons.prems by simp
    have dom: "dom (map_of (gm_del v dmap)) = dom (map_of dmap) - {v}"
      unfolding gm_get_del by auto
    let ?D = "dom (map_of dmap) - {v}"
    obtain osa' where "copy_named (gm_del v dmap) vs (osa[ix := v], Suc ix) =
        Some (osa', Suc ix + length (named ?D vs))" "length osa' = length osa"
      "take (Suc ix + length (named ?D vs)) osa' = take (Suc ix) (osa[ix := v]) @ named ?D vs"
      using Cons.IH [OF len, of "gm_del v dmap"] unfolding dom by auto
    moreover have "take (Suc ix) (osa[ix := v]) = take ix osa @ [v]"
      using Cons.prems by (simp add: take_Suc_conv_app_nth)
    ultimately show ?thesis using True Cons.prems by (auto simp: put_next_def)
  next
    case False
    then show ?thesis using Cons by (auto simp: domIff)
  qed
qed simp

lemma dom_fold_put: "dom (map_of (fold (\<lambda>s. gm_put s True) xs m)) = dom (map_of m) \<union> set xs"
  by (induction xs arbitrary: m) auto

definition wanted :: "string list \<Rightarrow> string list \<Rightarrow> string list" where
  "wanted subs comps =
     (if hd subs = ''all'' then comps
      else if hd subs = ''allnodes'' then filter (rx_match node_rx) comps
      else named (set subs) comps)"

lemma intersect_wanted:
  assumes "subarr \<noteq> []"
  shows "intersect subarr hsmarr = Some (wanted subarr hsmarr)"
proof -
  let ?osa = "replicate (max (length subarr) (length hsmarr)) ([] :: string)"
  have len: "0 + length hsmarr \<le> length ?osa" by simp
  have hd: "go_nth subarr 0 = Some (hd subarr)" using assms by (simp add: go_nth_def hd_conv_nth)
  have named: "dom (map_of (fold (\<lambda>s. gm_put s True) subarr [])) = set subarr"
    unfolding dom_fold_put by simp
  show ?thesis
    using copy_if_spec [OF len, of "\<lambda>_. True"] copy_if_spec [OF len, of "rx_match node_rx"]
      copy_named_spec [OF len, of "fold (\<lambda>s. gm_put s True) subarr []"]
    unfolding intersect_def Let_def hd wanted_def named
    by auto
qed

lemma intersect_Nil: "intersect [] hsmarr = None"
  by (simp add: intersect_def go_nth_def)

section \<open>Who receives what\<close>

definition attr_match :: "Scn \<Rightarrow> string \<Rightarrow> bool" where
  "attr_match jdata key \<longleftrightarrow> (\<exists>a \<in> set (getSCNAttrs (scnToLower jdata)). sublist a key)"

lemma attr_match_ex:
  "list_ex (go_contains key) (getSCNAttrs (scnToLower jdata)) = attr_match jdata key"
  by (auto simp: attr_match_def list_ex_iff go_contains_iff)

text \<open>The job for a subscription, and the subscriptions that get one.\<close>

definition job_for :: "Scn \<Rightarrow> string \<Rightarrow> SubData \<Rightarrow> JobSCNSend" where
  "job_for jdata k sd = queued (NewJobSCNSend
     (sendData_of jdata (wanted (sdScnNodes sd) (scnComponents (scnToLower jdata))))
     (key_component k) (sdUrl sd))"

definition fans_to :: "Scn \<Rightarrow> bool \<Rightarrow> (string, bool) gomap \<Rightarrow> string \<Rightarrow> SubData \<Rightarrow> bool" where
  "fans_to jdata prune pm k sd \<longleftrightarrow> attr_match jdata k \<and> \<not> (prune \<and> gm_flag pm (key_component k)) \<and>
     wanted (sdScnNodes sd) (scnComponents (scnToLower jdata)) \<noteq> []"

definition sd_of :: "string \<times> string \<Rightarrow> SubData" where
  "sd_of kv = the (unmarshal_SubData (snd kv))"

lemma doScnLoop_map:
  assumes "\<forall>kv \<in> set kvs. in_range (fst kv) \<and>
    (\<exists>sd. unmarshal_SubData (snd kv) = Some sd \<and> sdScnNodes sd \<noteq> [])"
  shows "doScnLoop jdata prune pm kvs jobs = (False, jobs @
    map (\<lambda>kv. job_for jdata (fst kv) (sd_of kv))
      (filter (\<lambda>kv. fans_to jdata prune pm (fst kv) (sd_of kv)) kvs))"
  using assms
proof (induction jdata prune pm kvs jobs rule: doScnLoop.induct)
  case (2 jdata prune pm key val rest jobs)
  then obtain sd where v: "unmarshal_SubData val = Some sd" and ne: "sdScnNodes sd \<noteq> []" by auto
  obtain xn ts where "split_on KEY_DELIM key = ''sub'' # xn # ts"
    using split_range_key [of key] "2.prems" by (auto simp: in_range_def)
  then have n: "go_nth (split_on KEY_DELIM key) 1 = Some (key_component key)"
    by (simp add: go_nth_def key_component_def)
  let ?cs = "wanted (sdScnNodes sd) (scnComponents (scnToLower jdata))"
  note i = intersect_wanted [OF ne, of "scnComponents (scnToLower jdata)"]
  have sd: "sd_of (key, val) = sd" by (simp add: sd_of_def v)
  have rest: "\<forall>kv \<in> set rest. in_range (fst kv) \<and>
    (\<exists>sd. unmarshal_SubData (snd kv) = Some sd \<and> sdScnNodes sd \<noteq> [])" using "2.prems" by simp
  show ?case
  proof (cases "attr_match jdata key \<and> \<not> (prune \<and> gm_flag pm (key_component key))")
    case True
    have ih: "doScnLoop jdata prune pm rest jobs' = (False, jobs' @
        map (\<lambda>kv. job_for jdata (fst kv) (sd_of kv))
          (filter (\<lambda>kv. fans_to jdata prune pm (fst kv) (sd_of kv)) rest))"
      if "jobs' = (if length ?cs < 1 then jobs else jobs @ [queued (NewJobSCNSend (sendData_of jdata ?cs)
            (key_component key) (sdUrl sd))])" for jobs'
      using "2.IH"(1) [OF refl refl n _ v i rest] True that by (simp add: attr_match_ex)
    show ?thesis
      using True by (simp add: Let_def n [unfolded One_nat_def] attr_match_ex v i ih sd fans_to_def job_for_def)
  next
    case False
    have "doScnLoop jdata prune pm rest jobs = (False, jobs @
        map (\<lambda>kv. job_for jdata (fst kv) (sd_of kv))
          (filter (\<lambda>kv. fans_to jdata prune pm (fst kv) (sd_of kv)) rest))"
      using "2.IH"(2) [OF refl refl n _ rest] False by (simp add: attr_match_ex)
    then show ?thesis using False by (auto simp: Let_def n [unfolded One_nat_def] attr_match_ex fans_to_def)
  qed
qed simp

definition deliverable :: "substate \<Rightarrow> bool" where
  "deliverable st \<longleftrightarrow> (\<forall>k \<in> dom (kv_content (ss_kv st)). in_range k \<longrightarrow>
     (\<exists>sd. subscriptions st k = Some sd \<and> sdScnNodes sd \<noteq> []))"

text \<open>
  The components whose subscribers a notification passes over. Only one that makes its components
  unavailable passes anybody over: the components in the prune map, its own among them. Any other
  notification has no copy of the map, and a subscriber that waits for the next round of
  pruning gets a job as well (\<open>doScn_ignores_pending\<close>); the worker is the one who drops it.
\<close>

definition left_out :: "Scn \<Rightarrow> substate \<Rightarrow> string set" where
  "left_out jdata st = (if isStateUnavailable jdata
     then {n. gm_flag (ss_prune st) n} \<union> to_lower ` set (scnComponents jdata) else {})"

definition recipients :: "Scn \<Rightarrow> substate \<Rightarrow> string set" where
  "recipients jdata st = {k. in_range k \<and> attr_match jdata k \<and> key_component k \<notin> left_out jdata st \<and>
     (\<exists>sd. subscriptions st k = Some sd \<and>
        wanted (sdScnNodes sd) (scnComponents (scnToLower jdata)) \<noteq> [])}"

lemma doScn_ignores_pending:
  "\<not> isStateUnavailable jdata \<Longrightarrow> fst (doScn jdata (st\<lparr>ss_prune := m\<rparr>)) = fst (doScn jdata st)"
  by (simp add: doScn_def Let_def split: prod.split sum.split)

lemma gm_flag_fold_put:
  "gm_flag (fold (\<lambda>c. gm_put c True) cs m) n \<longleftrightarrow> gm_flag m n \<or> n \<in> set cs"
  by (induction cs arbitrary: m) auto

lemma doScn_run:
  assumes "store_up st" "deliverable st"
  shows "\<exists>ks st'. doScn jdata st =
      ((False, map (\<lambda>k. job_for jdata k (the (subscriptions st k))) ks), st') \<and>
    distinct ks \<and> set ks = recipients jdata st \<and> subscriptions st' = subscriptions st \<and>
    (\<forall>n. gm_flag (ss_prune st') n \<longleftrightarrow> gm_flag (ss_prune st) n \<or> n \<in> left_out jdata st)"
proof -
  obtain kvs kv1 where r: "kvGetRange KEYRANGE_START KEYRANGE_END (ss_kv st) = (Inr kvs, kv1)"
    and c: "kv_content kv1 = kv_content (ss_kv st)" and d: "distinct (map fst kvs)"
    and mem: "\<And>k v. (k, v) \<in> set kvs \<longleftrightarrow> kv_content (ss_kv st) k = Some v \<and> in_range k"
    using kv.range_read [of "ss_kv st" KEYRANGE_START KEYRANGE_END] assms(1)
    unfolding in_range_def store_up_def by blast
  let ?un = "isStateUnavailable jdata"
  let ?pm = "if ?un then fold (\<lambda>c. gm_put c True) (scnComponents (scnToLower jdata)) (ss_prune st)
    else ss_prune st"
  let ?copy = "if ?un then ?pm else []"
  let ?f = "\<lambda>kv. fans_to jdata ?un ?copy (fst kv) (sd_of kv)"
  have ok: "\<forall>kv \<in> set kvs. in_range (fst kv) \<and>
      (\<exists>sd. unmarshal_SubData (snd kv) = Some sd \<and> sdScnNodes sd \<noteq> [])"
    using assms(2) mem by (fastforce simp: deliverable_def subscriptions_def)
  have sub: "subscriptions st (fst kv) = Some (sd_of kv)" if "kv \<in> set kvs" for kv
    using that mem [of "fst kv" "snd kv"] ok by (fastforce simp: subscriptions_def sd_of_def)
  have flags: "gm_flag ?pm n \<longleftrightarrow> gm_flag (ss_prune st) n \<or> n \<in> left_out jdata st" for n
    by (auto simp: left_out_def gm_flag_fold_put scnToLower_def)
  have copy: "?un \<and> gm_flag ?copy n \<longleftrightarrow> n \<in> left_out jdata st" for n
    by (auto simp: left_out_def gm_flag_fold_put scnToLower_def)
  have fan: "?f kv \<longleftrightarrow> fst kv \<in> recipients jdata st" if "kv \<in> set kvs" for kv
    using sub [OF that] ok that unfolding fans_to_def copy by (auto simp: recipients_def)
  let ?ks = "map fst (filter ?f kvs)"
  have "doScn jdata st =
      ((False, map (\<lambda>kv. job_for jdata (fst kv) (sd_of kv)) (filter ?f kvs)),
       st\<lparr>ss_kv := kv1, ss_prune := ?pm\<rparr>)"
    unfolding doScn_def Let_def r using doScnLoop_map [OF ok, of jdata ?un ?copy "[]"] by simp
  moreover have "map (\<lambda>kv. job_for jdata (fst kv) (sd_of kv)) (filter ?f kvs) =
      map (\<lambda>k. job_for jdata k (the (subscriptions st k))) ?ks"
    using sub by simp
  moreover have "distinct ?ks" using d by (simp add: distinct_map_filter)
  moreover have "set ?ks = recipients jdata st"
  proof -
    have "set ?ks = {k. \<exists>v. (k, v) \<in> set kvs \<and> k \<in> recipients jdata st}" using fan by force
    then show ?thesis unfolding mem by (auto simp: recipients_def subscriptions_def bind_eq_Some_conv)
  qed
  moreover have "subscriptions (st\<lparr>ss_kv := kv1, ss_prune := ?pm\<rparr>) = subscriptions st"
    by (rule ext) (simp add: subscriptions_def c)
  ultimately show ?thesis using flags
    by (intro exI [of _ ?ks] exI [of _ "st\<lparr>ss_kv := kv1, ss_prune := ?pm\<rparr>"]) (simp only: substate.simps, simp)
qed

text \<open>A subscription with an empty list of components that the notification matches ends the fan-out.\<close>

lemma doScnLoop_crash:
  assumes "\<forall>kv \<in> set kvs. in_range (fst kv) \<and> unmarshal_SubData (snd kv) \<noteq> None"
    and "\<exists>kv \<in> set kvs. attr_match jdata (fst kv) \<and> \<not> (prune \<and> gm_flag pm (key_component (fst kv))) \<and> sdScnNodes (sd_of kv) = []"
  shows "fst (doScnLoop jdata prune pm kvs jobs)"
  using assms
proof (induction kvs arbitrary: jobs)
  case (Cons kv kvs)
  obtain k v where kv: "kv = (k, v)" by force
  obtain sd where sd: "unmarshal_SubData v = Some sd" using Cons.prems(1) kv by auto
  obtain xn ts where "split_on KEY_DELIM k = ''sub'' # xn # ts"
    using split_range_key [of k] Cons.prems(1) kv by (auto simp: in_range_def)
  then have n: "go_nth (split_on KEY_DELIM k) 1 = Some (key_component k)"
    by (simp add: go_nth_def key_component_def)
  have rest: "fst (doScnLoop jdata prune pm kvs js)"
    if "\<not> (attr_match jdata k \<and> \<not> (prune \<and> gm_flag pm (key_component k)) \<and> sdScnNodes sd = [])" for js
    using Cons kv that by (auto simp: sd_of_def sd)
  show ?case
  proof (cases "attr_match jdata k \<and> \<not> (prune \<and> gm_flag pm (key_component k)) \<and> sdScnNodes sd = []")
    case True
    then show ?thesis by (simp add: kv Let_def n [unfolded One_nat_def] attr_match_ex sd intersect_Nil)
  next
    case False
    then show ?thesis
      using rest [OF False] by (simp add: kv Let_def n [unfolded One_nat_def] attr_match_ex sd split: option.split)
  qed
qed simp

lemma doScn_crashes:
  assumes "store_up st" "\<forall>k \<in> dom (kv_content (ss_kv st)). in_range k \<longrightarrow> subscriptions st k \<noteq> None"
    and "subscriptions st k = Some sd" "sdScnNodes sd = []" "in_range k" "attr_match jdata k" "key_component k \<notin> left_out jdata st"
  shows "fst (fst (doScn jdata st))"
proof -
  obtain kvs kv1 where r: "kvGetRange KEYRANGE_START KEYRANGE_END (ss_kv st) = (Inr kvs, kv1)"
    and mem: "\<And>k v. (k, v) \<in> set kvs \<longleftrightarrow> kv_content (ss_kv st) k = Some v \<and> in_range k"
    using kv.range_read [of "ss_kv st" KEYRANGE_START KEYRANGE_END] assms(1)
    unfolding in_range_def store_up_def by blast
  obtain v where v: "kv_content (ss_kv st) k = Some v" "unmarshal_SubData v = Some sd"
    using assms(3) by (auto simp: subscriptions_def split: Option.bind_splits)
  have "(k, v) \<in> set kvs" "sd_of (k, v) = sd" using mem v assms(5) by (simp_all add: sd_of_def)
  moreover have "\<forall>kv \<in> set kvs. in_range (fst kv) \<and> unmarshal_SubData (snd kv) \<noteq> None"
    using mem assms(2) by (fastforce simp: subscriptions_def)
  moreover have "\<not> gm_flag (fold (\<lambda>c. gm_put c True) (scnComponents (scnToLower jdata)) (ss_prune st)) (key_component k)"
    if "isStateUnavailable jdata" using assms(7) that by (auto simp: left_out_def gm_flag_fold_put scnToLower_def)
  ultimately show ?thesis
    using r assms(4,6) by (auto simp: doScn_def Let_def intro!: doScnLoop_crash bexI [of _ "(k, v)"])
qed

lemma doScn_keep:
  assumes "store_up st"
  shows "store_up (snd (doScn scn st)) \<and> kv_content (ss_kv (snd (doScn scn st))) = kv_content (ss_kv st)"
proof -
  have "ss_kv (snd (doScn scn st)) = snd (kvGetRange KEYRANGE_START KEYRANGE_END (ss_kv st))"
    by (simp add: doScn_def Let_def split: prod.split sum.split)
  then show ?thesis
    using assms kv.range_frame [of KEYRANGE_START KEYRANGE_END "ss_kv st"]
      kv.ok_keep(2) [of "ss_kv st"] kv.reliable_keep(2) [of "ss_kv st"]
    by (simp add: store_up_def)
qed

text \<open>
  C2: With a store that answers and entries that can be read, the fan-out of a notification does
  not panic and queues exactly one job for each subscription in the range whose key holds an
  attribute of the notification, whose component list intersects its components and which the
  notification does not pass over, and no other job. A notification that makes its components
  unavailable passes over the subscribers at these components and at those already in the prune
  map; any other notification passes over nobody, not even a subscriber that is waiting to be
  pruned. The subscriptions stay as they are and the prune map gains the components the
  notification made unavailable.
\<close>

theorem doScn_exact:
  assumes "store_up st" "deliverable st"
  shows "(\<exists>ks st'. doScn jdata st =
      ((False, map (\<lambda>k. job_for jdata k (the (subscriptions st k))) ks), st') \<and>
    distinct ks \<and> set ks = recipients jdata st \<and> subscriptions st' = subscriptions st \<and>
    (\<forall>n. gm_flag (ss_prune st') n \<longleftrightarrow> gm_flag (ss_prune st) n \<or> n \<in> left_out jdata st)) \<and>
    (isStateUnavailable jdata \<or> fst (doScn jdata (st\<lparr>ss_prune := m\<rparr>)) = fst (doScn jdata st))"
  using doScn_run [OF assms] doScn_ignores_pending by blast

lemma one_lang: "u \<in> rxs_lang (One k # ps) \<longleftrightarrow> (\<exists>c t. u = c # t \<and> in_cls c k \<and> t \<in> rxs_lang ps)"
  by (auto intro: exI [of _ "[_]"])

lemma star_lang:
  "u \<in> rxs_lang (Star k # ps) \<longleftrightarrow> (\<exists>s t. u = s @ t \<and> (\<forall>c \<in> set s. in_cls c k) \<and> t \<in> rxs_lang ps)"
  by auto

text \<open>A letter and a number.\<close>

lemma field_lang:
  "u \<in> rxs_lang (One (In [c]) # One (In K) # Star (In K) # ps) \<longleftrightarrow>
     (\<exists>d v. u = c # d @ v \<and> d \<noteq> [] \<and> set d \<subseteq> set K \<and> v \<in> rxs_lang ps)" (is "?l \<longleftrightarrow> ?r")
proof
  assume ?l
  then obtain x s t where "u = c # x # s @ t" "x \<in> set K" "\<forall>y \<in> set s. y \<in> set K" "t \<in> rxs_lang ps"
    unfolding one_lang star_lang by auto
  then show ?r by (intro exI [of _ "x # s"] exI [of _ t]) auto
next
  assume ?r
  then obtain d v where "u = c # d @ v" "d \<noteq> []" "set d \<subseteq> set K" "v \<in> rxs_lang ps" by blast
  then show ?l unfolding one_lang star_lang by (cases d) auto
qed

lemma node_lang:
  "u \<in> rxs_lang [One (In ''x''), Star NotNL, One (In ''b''), One (In K), Star (In K), One (In ''n''),
       One (In K), Star (In K)] \<longleftrightarrow>
     (\<exists>m d e. u = ''x'' @ m @ ''b'' @ d @ ''n'' @ e \<and> CHR 0x0A \<notin> set m \<and> d \<noteq> [] \<and> e \<noteq> [] \<and>
        set d \<subseteq> set K \<and> set e \<subseteq> set K)"
proof -
  have nl: "(\<forall>c \<in> set m. in_cls c NotNL) \<longleftrightarrow> CHR 0x0A \<notin> set m" for m by auto
  show ?thesis
    unfolding one_lang [of _ "In ''x''"] star_lang [of _ NotNL] field_lang nl by fastforce
qed

lemma node_rx_iff:
  "rx_match node_rx s \<longleftrightarrow> (\<exists>m d e. s = ''x'' @ m @ ''b'' @ d @ ''n'' @ e \<and> CHR 0x0A \<notin> set m \<and>
     d \<noteq> [] \<and> e \<noteq> [] \<and> set d \<subseteq> set ''0123456789'' \<and> set e \<subseteq> set ''0123456789'')"
  unfolding rx_match_lang node_rx_def by (rule node_lang)

definition node_name :: "string \<Rightarrow> bool" where
  "node_name s \<longleftrightarrow> (\<exists>m d e. s = ''x'' @ m @ ''b'' @ d @ ''n'' @ e \<and> CHR 0x0A \<notin> set m \<and>
     d \<noteq> [] \<and> e \<noteq> [] \<and> set d \<subseteq> set ''0123456789'' \<and> set e \<subseteq> set ''0123456789'')"

text \<open>
  C21: intersect panics exactly on an empty subscription list; otherwise it returns all
  components for the wild card all, the names of the form x...b<n>n<n> for allnodes, and else
  the components common to both lists, each once.
\<close>

theorem intersect_spec:
  "case intersect subarr hsmarr of
     None \<Rightarrow> subarr = []
   | Some r \<Rightarrow> subarr \<noteq> [] \<and>
       (if hd subarr = ''all'' then r = hsmarr
        else if hd subarr = ''allnodes'' then r = filter node_name hsmarr
        else distinct r \<and> set r = set subarr \<inter> set hsmarr)"
proof -
  have "rx_match node_rx = node_name" by (rule ext) (simp only: node_rx_iff node_name_def)
  then show ?thesis
    by (cases "subarr = []")
      (simp_all add: intersect_Nil intersect_wanted wanted_def named_set named_distinct)
qed

text \<open>Unavailable\<close>

lemma doScnLoop_subscriber:
  "job \<in> set (snd (doScnLoop jdata prune pm kvs jobs)) \<Longrightarrow>
   job \<in> set jobs \<or> \<not> (prune \<and> gm_flag pm (jobSubscriber job))"
proof (induction jdata prune pm kvs jobs rule: doScnLoop.induct)
  case (2 jdata prune pm key val rest jobs)
  show ?case
  proof (cases "go_nth (split_on KEY_DELIM key) 1")
    case None
    then show ?thesis using "2.prems" by (simp add: Let_def)
  next
    case (Some xn)
    show ?thesis
    proof (cases "list_ex (go_contains key) (getSCNAttrs (scnToLower jdata)) \<and> \<not> (prune \<and> gm_flag pm xn)")
      case False
      then show ?thesis using "2.prems" "2.IH"(2) [OF refl refl Some False] Some by (auto simp: Let_def)
    next
      case True
      show ?thesis
      proof (cases "unmarshal_SubData val")
        case None
        then show ?thesis using "2.prems" Some True by (simp add: Let_def)
      next
        case sd: (Some sd)
        show ?thesis
        proof (cases "intersect (sdScnNodes sd) (scnComponents (scnToLower jdata))")
          case None
          then show ?thesis using "2.prems" Some True sd by (simp add: Let_def)
        next
          case cs: (Some cs)
          then show ?thesis
            using "2.prems" Some True sd "2.IH"(1) [OF refl refl Some True sd cs]
            by (auto simp: Let_def queued_def NewJobSCNSend_def SetStatus_def split: if_splits)
        qed
      qed
    qed
  qed
qed simp

text \<open>
  C14: A notification that says its components are unavailable puts each of them, in lower case,
  into the prune map and queues no job for a subscriber on one of them, whatever the store does
  and holds.
\<close>

theorem unavailable_not_notified:
  assumes "isStateUnavailable jdata" "doScn jdata st = ((crashed, jobs), st')" "c \<in> set (scnComponents jdata)"
  shows "gm_flag (ss_prune st') (to_lower c) \<and> (\<forall>job \<in> set jobs. jobSubscriber job \<noteq> to_lower c)"
proof -
  let ?pm = "fold (\<lambda>c. gm_put c True) (scnComponents (scnToLower jdata)) (ss_prune st)"
  have fl: "gm_flag ?pm (to_lower c)" using assms(3) by (simp add: gm_flag_fold_put scnToLower_def)
  obtain x kv1 where r: "kvGetRange KEYRANGE_START KEYRANGE_END (ss_kv st) = (x, kv1)" by force
  show ?thesis
  proof (cases x)
    case (Inl e)
    then show ?thesis using assms(1,2) r fl by (auto simp: doScn_def Let_def)
  next
    case (Inr kvs)
    then have "jobs = snd (doScnLoop jdata True ?pm kvs [])" "ss_prune st' = ?pm"
      using assms(1,2) r by (auto simp: doScn_def Let_def)
    then show ?thesis using fl doScnLoop_subscriber [of _ jdata True ?pm kvs "[]"] by fastforce
  qed
qed

text \<open>Reaches\<close>

lemma sublist_join_mem: "t \<in> set ts \<Longrightarrow> sublist t (join d ts)"
proof (induction ts)
  case (Cons u ts)
  show ?case
  proof (cases "ts = []")
    case False
    then have j: "join d (u # ts) = u @ d # join d ts" by (rule join_Cons)
    show ?thesis
    proof (cases "t = u")
      case True
      show ?thesis unfolding j True using sublist_appendI [of u "[]"] by simp
    next
      case False
      then obtain p q where "join d ts = p @ t @ q" using Cons by (auto simp: sublist_def)
      then have "join d (u # ts) = (u @ d # p) @ t @ q" using j by simp
      then show ?thesis unfolding sublist_def by blast
    qed
  qed (use Cons.prems in simp)
qed simp

lemma attr_in_tok: "x \<in> set xs \<Longrightarrow> \<exists>t \<in> set (attr_tok n xs). sublist (to_lower x) t"
  unfolding attr_tok_def by (auto intro!: sublist_join_mem)

lemma attr_in_key:
  assumes "x \<in> set (sub_attrs j)"
  shows "sublist (to_lower x) (makeSubscriptionKey_V2 j xn svc)"
proof -
  have "\<exists>t \<in> set (attr_toks j). sublist (to_lower x) t"
    using assms attr_in_tok [of x "subStates j" "''hs''"] attr_in_tok [of x "subSoftwareStatus j" "''ss''"]
      attr_in_tok [of x "subRoles j" "''roles''"] attr_in_tok [of x "subSubRoles j" "''subroles''"]
    unfolding sub_attrs_def attr_toks_def set_append by blast
  then obtain t where "t \<in> set (attr_toks j)" "sublist (to_lower x) t" by blast
  then show ?thesis
    unfolding makeKey_join
    using sublist_join_mem [of t "''sub'' # xn # attr_toks j @ svc_tok svc" KEY_DELIM]
      sublist_order.order_trans by auto
qed

lemma enbl_in_key:
  assumes "subEnabled j \<noteq> None"
  shows "sublist ''enbl'' (makeSubscriptionKey_V2 j xn svc)"
proof -
  have "''enbl.enbl'' \<in> set (''sub'' # xn # attr_toks j @ svc_tok svc)"
    using assms by (simp add: attr_toks_def enbl_tok_def)
  from sublist_join_mem [OF this, of KEY_DELIM] have "sublist ''enbl.enbl'' (makeSubscriptionKey_V2 j xn svc)"
    unfolding makeKey_join .
  then show ?thesis
    by (rule sublist_order.order_trans [rotated]) (simp add: sublist_def, metis append_Cons append_Nil)
qed

text \<open>A subscription asks for a notification when one of its attributes is in it.\<close>

definition asks_for :: "ScnSubscribe \<Rightarrow> Scn \<Rightarrow> bool" where
  "asks_for j scn \<longleftrightarrow>
     scnState scn \<noteq> [] \<and> to_lower (scnState scn) \<in> to_lower ` set (subStates j) \<or>
     scnSoftwareStatus scn \<noteq> [] \<and> to_lower (scnSoftwareStatus scn) \<in> to_lower ` set (subSoftwareStatus j) \<or>
     scnRole scn \<noteq> [] \<and> to_lower (scnRole scn) \<in> to_lower ` set (subRoles j) \<or>
     scnSubRole scn \<noteq> [] \<and> to_lower (scnSubRole scn) \<in> to_lower ` set (subSubRoles j) \<or>
     scnEnabled scn \<noteq> None \<and> subEnabled j \<noteq> None"

lemma asks_for_match:
  assumes "asks_for j scn"
  shows "attr_match scn (makeSubscriptionKey_V2 j xn svc)"
proof -
  let ?k = "makeSubscriptionKey_V2 j xn svc"
  have by_attr: "attr_match scn ?k"
    if h: "to_lower a \<in> to_lower ` set xs" "set xs \<subseteq> set (sub_attrs j)"
      "to_lower a \<in> set (getSCNAttrs (scnToLower scn))" for a xs
  proof -
    obtain x where "to_lower a = to_lower x" "x \<in> set (sub_attrs j)" using h(1,2) by auto
    then show ?thesis using attr_in_key [of x j xn svc] h(3) unfolding attr_match_def by metis
  qed
  have attrs: "set (subStates j) \<subseteq> set (sub_attrs j)" "set (subSoftwareStatus j) \<subseteq> set (sub_attrs j)"
    "set (subRoles j) \<subseteq> set (sub_attrs j)" "set (subSubRoles j) \<subseteq> set (sub_attrs j)"
    by (auto simp: sub_attrs_def)
  have mem: "scnState scn \<noteq> [] \<Longrightarrow> to_lower (scnState scn) \<in> set (getSCNAttrs (scnToLower scn))"
    "scnSoftwareStatus scn \<noteq> [] \<Longrightarrow>
      to_lower (scnSoftwareStatus scn) \<in> set (getSCNAttrs (scnToLower scn))"
    "scnRole scn \<noteq> [] \<Longrightarrow> to_lower (scnRole scn) \<in> set (getSCNAttrs (scnToLower scn))"
    "scnSubRole scn \<noteq> [] \<Longrightarrow> to_lower (scnSubRole scn) \<in> set (getSCNAttrs (scnToLower scn))"
    "scnEnabled scn \<noteq> None \<Longrightarrow> ''enbl'' \<in> set (getSCNAttrs (scnToLower scn))"
    by (auto simp: getSCNAttrs_def scnToLower_def)
  show ?thesis
    using assms unfolding asks_for_def
  proof (elim disjE conjE)
    assume "scnEnabled scn \<noteq> None" "subEnabled j \<noteq> None"
    then show ?thesis using mem(5) enbl_in_key [of j xn svc] unfolding attr_match_def by blast
  qed (use by_attr attrs mem in blast)+
qed

text \<open>
  C9: Nobody is forgotten: when the store answers and its entries can be read, a subscription of
  a valid component stored under the key built from a request whose parts have no key separator
  and that asks for the state, software status, role, sub-role or enablement of a notification
  gets a job that carries its URL, its component and every component of the notification it
  wants, unless the notification passes over its component (C2).
\<close>

theorem doScn_reaches:
  assumes "store_up st" "deliverable st" "hmsTypeValid xn" "KEY_DELIM \<notin> set xn" "KEY_DELIM \<notin> set svc"
    "\<forall>x \<in> set (sub_attrs j). KEY_DELIM \<notin> set x"
    and "subscriptions st (makeSubscriptionKey_V2 j xn svc) = Some sd"
    and "asks_for j scn" "xn \<notin> left_out scn st"
    and "c \<in> set (wanted (sdScnNodes sd) (map to_lower (scnComponents scn)))"
    and "doScn scn st = ((crashed, jobs), st')"
  shows "\<not> crashed \<and> (\<exists>job \<in> set jobs. jobSubscriber job = xn \<and> jobUrl job = sdUrl sd \<and>
      c \<in> set (scnComponents (jobSCNData job)))"
proof -
  let ?k = "makeSubscriptionKey_V2 j xn svc"
  obtain ks where ks: "\<not> crashed" "jobs = map (\<lambda>k. job_for scn k (the (subscriptions st k))) ks"
    "set ks = recipients scn st"
    using doScn_run [OF assms(1,2), of scn] assms(11) by auto
  have comp: "key_component ?k = xn" by (rule key_component_makeKey) (use assms in auto)
  have w: "c \<in> set (wanted (sdScnNodes sd) (scnComponents (scnToLower scn)))"
    using assms(10) by (simp add: scnToLower_def)
  have "?k \<in> recipients scn st"
    using valid_key_in_range [OF assms(3)] asks_for_match [OF assms(8)] comp assms(7,9) w
    by (auto simp: recipients_def)
  then have "job_for scn ?k sd \<in> set jobs" using ks assms(7) by force
  moreover have "jobSubscriber (job_for scn ?k sd) = xn" "jobUrl (job_for scn ?k sd) = sdUrl sd"
    "scnComponents (jobSCNData (job_for scn ?k sd)) = wanted (sdScnNodes sd) (scnComponents (scnToLower scn))"
    by (simp_all add: job_for_def queued_def NewJobSCNSend_def SetStatus_def comp sendData_of_def)
  ultimately show ?thesis using ks(1) w by metis
qed

section \<open>Instances\<close>

definition ex_scn :: Scn where
  "ex_scn = Scn0\<lparr>scnComponents := [''x0c0s1b0n0'', ''x0c0s2b0n0''], scnState := ''On''\<rparr>"

definition ex_off :: Scn where
  "ex_off = Scn0\<lparr>scnComponents := [''X0c0s0b0n0''], scnState := ''Off''\<rparr>"

abbreviation ex_one :: substate where
  "ex_one \<equiv> ex_store [] [(ex_key, ex_val)]"

lemma ex_deliverable: "deliverable ex_one"
  by (simp add: deliverable_def ex_content ex_subscriptions)

theorem doScn_exact_witness:
  "(\<exists>ks st'. doScn ex_scn ex_one =
      ((False, map (\<lambda>k. job_for ex_scn k (the (subscriptions ex_one k))) ks), st') \<and>
    distinct ks \<and> set ks = recipients ex_scn ex_one \<and> subscriptions st' = subscriptions ex_one \<and>
    (\<forall>n. gm_flag (ss_prune st') n \<longleftrightarrow> gm_flag (ss_prune ex_one) n \<or> n \<in> left_out ex_scn ex_one)) \<and>
    (isStateUnavailable ex_scn \<or>
     fst (doScn ex_scn (ex_one\<lparr>ss_prune := [(''x0c0s0b0n0'', True)]\<rparr>)) = fst (doScn ex_scn ex_one))"
  by (rule doScn_exact [OF ex_up(2) ex_deliverable])

theorem doScn_reaches_witness:
  "\<exists>jobs st'. doScn ex_scn ex_one = ((False, jobs), st') \<and>
     (\<exists>job \<in> set jobs. jobSubscriber job = ''x0c0s0b0n0'' \<and> jobUrl job = ''http://a/scn'' \<and>
        ''x0c0s1b0n0'' \<in> set (scnComponents (jobSCNData job)))"
proof -
  obtain c jobs st' where d: "doScn ex_scn ex_one = ((c, jobs), st')" by (metis prod.exhaust)
  have "hmsTypeValid ''x0c0s0b0n0''" by code_simp
  moreover have "\<forall>x \<in> set (sub_attrs ex_sub). KEY_DELIM \<notin> set x"
    by (simp add: sub_attrs_def ex_sub_def ScnSubscribe0_def)
  moreover have "subscriptions ex_one (makeSubscriptionKey_V2 ex_sub ''x0c0s0b0n0'' ''mon'') =
      Some \<lparr>sdUrl = ''http://a/scn'', sdScnNodes = [''x0c0s1b0n0'']\<rparr>"
    by (simp add: ex_values ex_subscriptions)
  moreover have "asks_for ex_sub ex_scn"
    by (simp add: asks_for_def ex_sub_def ex_scn_def ScnSubscribe0_def Scn0_def)
  moreover have "''x0c0s0b0n0'' \<notin> left_out ex_scn ex_one"
    by (simp add: left_out_def isStateUnavailable_def ex_scn_def Scn0_def to_lower_def lower_char_def)
  moreover have "''x0c0s1b0n0'' \<in> set (wanted [''x0c0s1b0n0''] (map to_lower (scnComponents ex_scn)))"
    by code_simp
  ultimately show ?thesis
    using doScn_reaches [OF ex_up(2) ex_deliverable, of "''x0c0s0b0n0''" "''mon''" ex_sub _ ex_scn
        "''x0c0s1b0n0''" c jobs st'] d by auto
qed

theorem unavailable_not_notified_witness:
  "\<exists>crashed jobs st'. doScn ex_off ex_one = ((crashed, jobs), st') \<and>
     gm_flag (ss_prune st') ''x0c0s0b0n0'' \<and> (\<forall>job \<in> set jobs. jobSubscriber job \<noteq> ''x0c0s0b0n0'')"
proof -
  obtain c jobs st' where d: "doScn ex_off ex_one = ((c, jobs), st')" by (metis prod.exhaust)
  have "isStateUnavailable ex_off" "to_lower ''X0c0s0b0n0'' = ''x0c0s0b0n0''"
    "''X0c0s0b0n0'' \<in> set (scnComponents ex_off)" by code_simp+
  then show ?thesis using unavailable_not_notified [OF _ d, of "''X0c0s0b0n0''"] d by auto
qed

end
