(* ===== verification/Prune.thy ===== *)
theory Prune
  imports Fanout
begin

text \<open>
  Removing subscriptions: \<open>subPrune\<close> and one round of \<open>prune\<close> in cmd/hmi-nfd/api.go. They run in a
  goroutine of their own; a round is one step here, and is taken apart in the theory Steps. The
  first component of a result says whether it panicked, which ends the process.
\<close>

section \<open>Operations\<close>

definition pruneName :: "string \<Rightarrow> string option \<Rightarrow> string" where
  "pruneName xname agent =
     (case agent of None \<Rightarrow> ''bad_sub'' | Some a \<Rightarrow> a @ [SVC_DELIM] @ xname)"

fun subPruneLoop :: "(string \<times> string) list \<Rightarrow> substate \<Rightarrow> bool \<times> substate" where
  "subPruneLoop [] st = (False, st)"
| "subPruneLoop ((key, val) # rest) st =
     (case keyService key of
        None \<Rightarrow> (True, st)
      | Some (xname, agent) \<Rightarrow>
          if gm_flag (ss_prune st) xname \<or> gm_flag (ss_prune st) (pruneName xname agent)
          then subPruneLoop rest (st\<lparr>ss_kv := snd (kvDelete key (ss_kv st))\<rparr>)
          else subPruneLoop rest st)"

definition subPrune :: "substate \<Rightarrow> bool \<times> substate" where
  "subPrune st =
     (case kvGetRange KEYRANGE_START KEYRANGE_END (ss_kv st) of
        (Inl _, kv1) \<Rightarrow> (False, st\<lparr>ss_kv := kv1\<rparr>)
      | (Inr kvlist, kv1) \<Rightarrow> subPruneLoop kvlist (st\<lparr>ss_kv := kv1\<rparr>))"

text \<open>One round of \<open>prune\<close>, after its sleep.\<close>

definition prune_round :: "substate \<Rightarrow> bool \<times> substate" where
  "prune_round st =
     (if ss_prune st \<noteq> []
      then (case subPrune st of
              (True, st') \<Rightarrow> (True, st')
            | (False, st') \<Rightarrow> (False, st'\<lparr>ss_prune := []\<rparr>))
      else (False, st))"

section \<open>What a round removes\<close>

definition prune_hit :: "(string, bool) gomap \<Rightarrow> string \<Rightarrow> bool" where
  "prune_hit pm key \<longleftrightarrow> gm_flag pm (key_component key) \<or>
     (\<exists>x a. keyService key = Some (x, a) \<and> gm_flag pm (pruneName x a))"

lemma subPruneLoop_fold:
  "\<forall>kv \<in> set kvs. keyService (fst kv) \<noteq> None \<Longrightarrow>
   subPruneLoop kvs st = (False, st\<lparr>ss_kv :=
     fold (\<lambda>k s. snd (kvDelete k s)) (filter (prune_hit (ss_prune st)) (map fst kvs)) (ss_kv st)\<rparr>)"
proof (induction kvs st rule: subPruneLoop.induct)
  case (2 key val rest st)
  then obtain x a where k: "keyService key = Some (x, a)" by auto
  then have "x = key_component key" by (rule keyService_component)
  then have "prune_hit (ss_prune st) key \<longleftrightarrow>
      gm_flag (ss_prune st) x \<or> gm_flag (ss_prune st) (pruneName x a)"
    using k by (simp add: prune_hit_def)
  then show ?case using "2.IH" [OF k refl] "2.prems" k by simp
qed simp

text \<open>A key that cannot be taken apart ends every round that has something to prune.\<close>

lemma subPruneLoop_panics: "\<exists>kv \<in> set kvs. keyService (fst kv) = None \<Longrightarrow> fst (subPruneLoop kvs st)"
proof (induction kvs arbitrary: st)
  case (Cons kv kvs)
  obtain k v where kv: "kv = (k, v)" by force
  show ?case
  proof (cases "keyService k")
    case (Some xa)
    then have "\<exists>kv \<in> set kvs. keyService (fst kv) = None" using Cons.prems kv by auto
    then show ?thesis using Cons.IH kv Some by (simp split: prod.split)
  qed (simp add: kv)
qed simp

lemma prune_round_panics:
  assumes "store_up st" "kv_content (ss_kv st) key \<noteq> None" "in_range key" "keyService key = None" "ss_prune st \<noteq> []"
  shows "fst (prune_round st)"
proof -
  obtain kvs kv1 where r: "kvGetRange KEYRANGE_START KEYRANGE_END (ss_kv st) = (Inr kvs, kv1)"
    and mem: "\<And>k v. (k, v) \<in> set kvs \<longleftrightarrow> kv_content (ss_kv st) k = Some v \<and> in_range k"
    using kv.range_read [of "ss_kv st" KEYRANGE_START KEYRANGE_END] assms(1)
    unfolding in_range_def store_up_def by blast
  obtain v where "kv_content (ss_kv st) key = Some v" using assms(2) by blast
  then have "\<exists>kv \<in> set kvs. keyService (fst kv) = None" using mem assms(3,4) by (intro bexI [of _ "(key, v)"]) simp_all
  then have "fst (subPrune st)" using r subPruneLoop_panics by (simp add: subPrune_def)
  then show ?thesis using assms(5) by (auto simp: prune_round_def split: prod.split bool.split)
qed

lemma svc_at_end:
  assumes "in_range key" "index_of key ''svc'' + 3 = int (length key)"
  shows "keyService key = None"
proof -
  have "4 \<le> length key" using range_key_prefix [of key] assms(1) by (auto simp: in_range_def prefix_def)
  then have "0 < index_of key ''svc''" "slice_from key (index_of key ''svc'' + 3 + 1) = None"
    using assms(2) by (auto simp: slice_from_def)
  then show ?thesis by (simp add: keyService_def Let_def split: Option.bind_splits)
qed

lemma subPruneLoop_frame:
  "ss_prune (snd (subPruneLoop kvs st)) = ss_prune st \<and> ss_hsmsub (snd (subPruneLoop kvs st)) = ss_hsmsub st \<and>
   kv_content (ss_kv (snd (subPruneLoop kvs st))) \<subseteq>\<^sub>m kv_content (ss_kv st)"
proof (induction kvs st rule: subPruneLoop.induct)
  case (2 key val rest st)
  show ?case
  proof (cases "keyService key")
    case (Some xa)
    obtain x a where xa: "xa = (x, a)" by (cases xa)
    show ?thesis
    proof (cases "gm_flag (ss_prune st) x \<or> gm_flag (ss_prune st) (pruneName x a)")
      case True
      then show ?thesis
        using "2.IH"(1) [OF Some xa [symmetric] True] kv.delete_submap [of key "ss_kv st"] Some xa
        by (auto intro: map_le_trans)
    next
      case False
      then show ?thesis using "2.IH"(2) [OF Some xa [symmetric] False] Some xa by simp
    qed
  qed simp
qed simp

lemma prune_round_run:
  assumes "store_up st" "keys_readable st"
  shows "\<exists>st'. prune_round st = (False, st') \<and> ss_prune st' = [] \<and> ss_hsmsub st' = ss_hsmsub st \<and>
    subscriptions st' = subscriptions st |` {k. \<not> (in_range k \<and> prune_hit (ss_prune st) k)}"
proof (cases "ss_prune st = []")
  case True
  have "\<not> prune_hit [] k" for k by (simp add: prune_hit_def)
  then show ?thesis using True by (simp add: prune_round_def restrict_map_def)
next
  case False
  obtain kvs kv1 where r: "kvGetRange KEYRANGE_START KEYRANGE_END (ss_kv st) = (Inr kvs, kv1)"
    and c: "kv_content kv1 = kv_content (ss_kv st)" and rel: "kv_reliable kv1"
    and mem: "\<And>k v. (k, v) \<in> set kvs \<longleftrightarrow> kv_content (ss_kv st) k = Some v \<and> in_range k"
    using kv.range_read [of "ss_kv st" KEYRANGE_START KEYRANGE_END] assms(1)
    unfolding in_range_def store_up_def by blast
  let ?ks = "filter (prune_hit (ss_prune st)) (map fst kvs)"
  let ?st' = "st\<lparr>ss_kv := fold (\<lambda>k s. snd (kvDelete k s)) ?ks kv1\<rparr>"
  have ok: "\<forall>kv \<in> set kvs. keyService (fst kv) \<noteq> None"
    using mem assms(2) by (auto simp: keys_readable_def dom_def)
  have "subPrune st = (False, ?st')"
    by (simp add: subPrune_def r subPruneLoop_fold [OF ok])
  moreover have "kv_content (ss_kv ?st') = kv_content (ss_kv st) |` (- set ?ks)"
    using kv.reliable_delete_many [OF rel, of ?ks] c by simp
  moreover have "subscriptions st |` (- set ?ks) =
      subscriptions st |` {k. \<not> (in_range k \<and> prune_hit (ss_prune st) k)}"
  proof (rule ext)
    fix k
    have "k \<in> set ?ks \<longleftrightarrow> prune_hit (ss_prune st) k \<and> (\<exists>v. (k, v) \<in> set kvs)" by force
    then have "k \<in> set ?ks \<longleftrightarrow> prune_hit (ss_prune st) k \<and> in_range k \<and> kv_content (ss_kv st) k \<noteq> None"
      unfolding mem by auto
    then show "(subscriptions st |` (- set ?ks)) k =
        (subscriptions st |` {k. \<not> (in_range k \<and> prune_hit (ss_prune st) k)}) k"
      by (auto simp: restrict_map_def subscriptions_def)
  qed
  moreover have "subscriptions (?st'\<lparr>ss_prune := []\<rparr>) = subscriptions ?st'"
    by (rule ext) (simp add: subscriptions_def)
  ultimately show ?thesis
    using False subscriptions_restrict [of ?st' st "- set ?ks"]
    by (intro exI [of _ "?st'\<lparr>ss_prune := []\<rparr>"]) (simp add: prune_round_def)
qed

text \<open>
  C15: On a store that answers and whose entries can be read, after a notification that made a
  component unavailable and the next round of pruning, no subscription of that component is left
  in the store.
\<close>

theorem unavailable_then_pruned:
  assumes "store_up st" "keys_readable st" "deliverable st" "isStateUnavailable scn"
    and "doScn scn st = ((crashed, jobs), st1)" "c \<in> set (scnComponents scn)"
    and "prune_round st1 = (crashed', st2)"
    and "in_range k" "key_component k = to_lower c"
  shows "\<not> crashed' \<and> subscriptions st2 k = None"
proof -
  obtain ks where d: "subscriptions st1 = subscriptions st"
    "\<And>n. gm_flag (ss_prune st1) n \<longleftrightarrow> gm_flag (ss_prune st) n \<or> n \<in> left_out scn st"
    using doScn_run [OF assms(1,3), of scn] assms(5) by auto
  have up: "store_up st1" "kv_content (ss_kv st1) = kv_content (ss_kv st)"
    using doScn_keep [OF assms(1), of scn] assms(5) by simp_all
  have kr: "keys_readable st1" using assms(2) up(2) by (simp add: keys_readable_def)
  obtain st' where p: "prune_round st1 = (False, st')"
    "subscriptions st' = subscriptions st1 |` {k. \<not> (in_range k \<and> prune_hit (ss_prune st1) k)}"
    using prune_round_run [OF up(1) kr] by blast
  have "prune_hit (ss_prune st1) k"
    using d(2) assms(4,6,9) by (simp add: prune_hit_def left_out_def)
  then show ?thesis using p assms(7,8) by (simp add: restrict_map_def)
qed

theorem unavailable_then_pruned_witness:
  "\<exists>crashed jobs st1 st2. doScn ex_off ex_one = ((crashed, jobs), st1) \<and> prune_round st1 = (False, st2) \<and>
     subscriptions st2 ex_key = None"
proof -
  obtain c jobs st1 where d: "doScn ex_off ex_one = ((c, jobs), st1)" by (metis prod.exhaust)
  obtain c' st2 where p: "prune_round st1 = (c', st2)" by force
  have "isStateUnavailable ex_off" "''X0c0s0b0n0'' \<in> set (scnComponents ex_off)"
    "key_component ex_key = to_lower ''X0c0s0b0n0''" by code_simp+
  then show ?thesis
    using unavailable_then_pruned [OF ex_up(2) ex_readable(1) ex_deliverable _ d _ p ex_in_range] d p
    by auto
qed

end
