(* ===== verification/Params.thy ===== *)
theory Params
  imports Subscribe "HOL-Library.Word"
begin

text \<open>
  The operating parameters of cmd/hmi-nfd/hmnfd.go: their defaults, the command line
  (\<open>parseCmdLine\<close>, after \<open>flag.Parse\<close> of the standard library), the environment (\<open>parseEnvVars\<close>),
  \<open>parseParamJson\<close> and \<open>genCurParamJson\<close>, and the handlers \<open>paramsGet\<close> and \<open>paramsPatch\<close> of
  cmd/hmi-nfd/api.go. A Go \<open>int\<close> has 64 bits; it is an \<open>int\<close> here, and every way one enters the
  program is cut down to that range: \<open>int64_of\<close> refuses a JSON number outside it, the environment
  reads 64 unsigned bits and converts them, which wraps.
\<close>

section \<open>Parameters\<close>

record opParams =
  Debug :: int
  Help :: int
  KV_url :: string
  Nosm :: int
  Port :: int
  Scn_in_url :: string
  Scn_max_cache :: int
  Scn_cache_delay :: int
  Scn_retries :: int
  Scn_backoff :: int
  SM_retries :: int
  SM_timeout :: int
  SM_url :: string
  Telemetry_host :: string
  Use_telemetry :: int

record gstate =
  app_params :: opParams
  url_port :: int
  featureFlag_xnameApiEnable :: int
  fanoutSyncMode :: int

definition default_params :: opParams where
  "default_params = \<lparr>Debug = 0, Help = 0, KV_url = ''mem:'', Nosm = 0, Port = 28600,
     Scn_in_url = [], Scn_max_cache = 100, Scn_cache_delay = 5, Scn_retries = 5, Scn_backoff = 1,
     SM_retries = 3, SM_timeout = 3, SM_url = ''https://localhost:27999/hsm/v2'',
     Telemetry_host = [], Use_telemetry = 0\<rparr>"

definition initial_gstate :: gstate where
  "initial_gstate = \<lparr>app_params = default_params, url_port = 28600, featureFlag_xnameApiEnable = 0,
     fanoutSyncMode = 0\<rparr>"

section \<open>Numbers in JSON\<close>

text \<open>\<open>strconv.ParseInt(s, 10, 64)\<close> on the literal of a JSON number.\<close>

fun dec_nat :: "int \<Rightarrow> string \<Rightarrow> int option" where
  "dec_nat acc [] = Some acc"
| "dec_nat acc (c # cs) =
     (if is_digit c then dec_nat (acc * 10 + int (of_char c - 48)) cs else None)"

definition int64_ok :: "int \<Rightarrow> bool" where
  "int64_ok i \<longleftrightarrow> - (2 ^ 63) \<le> i \<and> i < 2 ^ 63"

definition int64_of :: "string \<Rightarrow> int option" where
  "int64_of s =
     do { i \<leftarrow> (case s of
                  c # cs \<Rightarrow> if c = CHR ''-'' then map_option uminus (dec_nat 0 cs) else dec_nat 0 s
                | [] \<Rightarrow> None);
          if int64_ok i then Some i else None }"

fun dec_int :: "json \<Rightarrow> int \<Rightarrow> bool \<times> int" where
  "dec_int (JNum t) old = (case int64_of t of None \<Rightarrow> (True, old) | Some i \<Rightarrow> (False, i))"
| "dec_int JNull old = (False, old)"
| "dec_int _ old = (True, old)"

text \<open>The decimal literal that \<open>Marshal\<close> writes.\<close>

fun show_nat :: "nat \<Rightarrow> string" where
  "show_nat n = (if n < 10 then [char_of (48 + n)] else show_nat (n div 10) @ [char_of (48 + n mod 10)])"

declare show_nat.simps [simp del]

definition show_int :: "int \<Rightarrow> string" where
  "show_int i = (if i < 0 then CHR ''-'' # show_nat (nat (- i)) else show_nat (nat i))"

section \<open>The parameters as JSON\<close>

text \<open>\<open>Help\<close> is marked as not encoded.\<close>

definition param_fields :: "opParams field_table" where
  "param_fields = [
     (''debug'', dec_into dec_int Debug (\<lambda>x. Debug_update (\<lambda>_. x))),
     (''kv_url'', dec_into dec_string KV_url (\<lambda>x. KV_url_update (\<lambda>_. x))),
     (''nosm'', dec_into dec_int Nosm (\<lambda>x. Nosm_update (\<lambda>_. x))),
     (''port'', dec_into dec_int Port (\<lambda>x. Port_update (\<lambda>_. x))),
     (''scn_in_url'', dec_into dec_string Scn_in_url (\<lambda>x. Scn_in_url_update (\<lambda>_. x))),
     (''scn_max_cache'', dec_into dec_int Scn_max_cache (\<lambda>x. Scn_max_cache_update (\<lambda>_. x))),
     (''scn_cache_delay'', dec_into dec_int Scn_cache_delay (\<lambda>x. Scn_cache_delay_update (\<lambda>_. x))),
     (''scn_retries'', dec_into dec_int Scn_retries (\<lambda>x. Scn_retries_update (\<lambda>_. x))),
     (''scn_backoff'', dec_into dec_int Scn_backoff (\<lambda>x. Scn_backoff_update (\<lambda>_. x))),
     (''sm_retries'', dec_into dec_int SM_retries (\<lambda>x. SM_retries_update (\<lambda>_. x))),
     (''sm_timeout'', dec_into dec_int SM_timeout (\<lambda>x. SM_timeout_update (\<lambda>_. x))),
     (''sm_url'', dec_into dec_string SM_url (\<lambda>x. SM_url_update (\<lambda>_. x))),
     (''telemetry_host'', dec_into dec_string Telemetry_host (\<lambda>x. Telemetry_host_update (\<lambda>_. x))),
     (''use_telemetry'', dec_into dec_int Use_telemetry (\<lambda>x. Use_telemetry_update (\<lambda>_. x)))]"

definition json_params :: "opParams \<Rightarrow> json" where
  "json_params p = JObj [
     (''Debug'', JNum (show_int (Debug p))), (''KV_url'', JStr (KV_url p)),
     (''Nosm'', JNum (show_int (Nosm p))), (''Port'', JNum (show_int (Port p))),
     (''Scn_in_url'', JStr (Scn_in_url p)), (''Scn_max_cache'', JNum (show_int (Scn_max_cache p))),
     (''Scn_cache_delay'', JNum (show_int (Scn_cache_delay p))),
     (''Scn_retries'', JNum (show_int (Scn_retries p))),
     (''Scn_backoff'', JNum (show_int (Scn_backoff p))),
     (''SM_retries'', JNum (show_int (SM_retries p))),
     (''SM_timeout'', JNum (show_int (SM_timeout p))), (''SM_url'', JStr (SM_url p)),
     (''Telemetry_host'', JStr (Telemetry_host p)),
     (''Use_telemetry'', JNum (show_int (Use_telemetry p)))]"

definition genCurParamJson :: "gstate \<Rightarrow> string" where
  "genCurParamJson g = jprint (json_params (app_params g))"

section \<open>parseParamJson\<close>

text \<open>The values that stand for a member the JSON does not have.\<close>

definition unseen :: opParams where
  "unseen = \<lparr>Debug = - 1, Help = 0, KV_url = ''xxx'', Nosm = - 1, Port = - 1, Scn_in_url = ''xxx'',
     Scn_max_cache = - 1, Scn_cache_delay = - 1, Scn_retries = - 1, Scn_backoff = - 1,
     SM_retries = - 1, SM_timeout = - 1, SM_url = ''xxx'', Telemetry_host = ''xxx'',
     Use_telemetry = - 1\<rparr>"

datatype whence = PARAM_START | PARAM_PATCH

text \<open>
  Which fields of a JSON that does not unmarshal have the wrong type. The switch does not mention
  Scn_retries, Scn_backoff, SM_retries and SM_timeout.
\<close>

definition param_type_error :: "(string \<times> json) list \<Rightarrow> string \<Rightarrow> string" where
  "param_type_error v name =
     (let nm = to_lower name in
      case map_of (rev v) nm of
        None \<Rightarrow> []
      | Some JNull \<Rightarrow> []
      | Some j \<Rightarrow>
          let ok = (if nm \<in> {''debug'', ''nosm'', ''port'', ''scn_max_cache'', ''scn_cache_delay'',
                             ''use_telemetry''}
                    then (case j of JNum _ \<Rightarrow> True | _ \<Rightarrow> False)
                    else if nm \<in> {''kv_url'', ''scn_in_url'', ''sm_url'', ''telemetry_host''}
                    then (case j of JStr _ \<Rightarrow> True | _ \<Rightarrow> False)
                    else True) in
          if ok then [] else ''Invalid data type in '' @ name @ '' field. '')"

definition param_names :: "string list" where
  "param_names = [''Debug'', ''Help'', ''KV_url'', ''Nosm'', ''Port'', ''Scn_in_url'',
     ''Scn_max_cache'', ''Scn_cache_delay'', ''Scn_retries'', ''Scn_backoff'', ''SM_retries'',
     ''SM_timeout'', ''SM_url'', ''Telemetry_host'', ''Use_telemetry'']"

text \<open>
  The error of \<open>parseParamJson\<close>: the text it built, or the decoder's own, which the model does not
  spell out.
\<close>

datatype param_error = PErr string | PDecodeErr

definition seen_int :: "int \<Rightarrow> int \<Rightarrow> int" where
  "seen_int new old = (if new \<noteq> - 1 then new else old)"

definition seen_str :: "string \<Rightarrow> string \<Rightarrow> string" where
  "seen_str new old = (if new \<noteq> ''xxx'' then new else old)"

definition parseParamJson :: "string \<Rightarrow> whence \<Rightarrow> gstate \<Rightarrow> param_error option \<times> gstate" where
  "parseParamJson param_json wh g =
     (case unmarshal param_fields unseen param_json of
        None \<Rightarrow>
          (case unmarshal_generic (to_lower param_json) of
             None \<Rightarrow> (Some PDecodeErr, g)
           | Some v \<Rightarrow> (Some (PErr (concat (map (param_type_error v) param_names))), g))
      | Some jdata \<Rightarrow>
          let old = app_params g;
              tpd = old\<lparr>Debug := seen_int (Debug jdata) (Debug old),
                        KV_url := seen_str (KV_url jdata) (KV_url old),
                        Nosm := seen_int (Nosm jdata) (Nosm old),
                        Scn_max_cache := seen_int (Scn_max_cache jdata) (Scn_max_cache old),
                        Scn_cache_delay := seen_int (Scn_cache_delay jdata) (Scn_cache_delay old),
                        Scn_backoff := seen_int (Scn_backoff jdata) (Scn_backoff old),
                        Scn_retries := seen_int (Scn_retries jdata) (Scn_retries old),
                        SM_url := seen_str (SM_url jdata) (SM_url old),
                        SM_retries := seen_int (SM_retries jdata) (SM_retries old),
                        SM_timeout := seen_int (SM_timeout jdata) (SM_timeout old),
                        Telemetry_host := seen_str (Telemetry_host jdata) (Telemetry_host old),
                        Use_telemetry := seen_int (Use_telemetry jdata) (Use_telemetry old)\<rparr>;
              bad_port = (Port jdata \<noteq> - 1 \<and> wh = PARAM_PATCH);
              bad_url = (Scn_in_url jdata \<noteq> ''xxx'' \<and> wh = PARAM_PATCH);
              tpd' = (if wh = PARAM_PATCH then tpd
                      else tpd\<lparr>Port := seen_int (Port jdata) (Port old),
                               Scn_in_url := seen_str (Scn_in_url jdata) (Scn_in_url old)\<rparr>) in
          if bad_port \<or> bad_url
          then (Some (PErr (
                  (if bad_port then ''Parameter 'port' can't be changed in PATCH operation; '' else []) @
                  (if bad_url then ''Parameter 'scn_in_url' can't be changed in PATCH operation; '' else []))),
                g)
          else (None, if wh = PARAM_START then g\<lparr>app_params := tpd', url_port := Port tpd'\<rparr>
                      else g\<lparr>app_params := tpd'\<rparr>))"

section \<open>The /params handlers\<close>

definition paramsGet :: "gstate \<Rightarrow> writer" where
  "paramsGet g =
     writeBody (Bytes (genCurParamJson g))
       (writeHeader 200 (setHeader ''Content-Type'' ''application/json'' new_writer))"

text \<open>\<open>perr_text\<close> is the text of an error of the decoder.\<close>

definition paramsPatch :: "string \<Rightarrow> request \<Rightarrow> gstate \<Rightarrow> kvs \<Rightarrow> writer \<times> gstate \<times> kvs" where
  "paramsPatch perr_text r g s =
     (let errinst = ''/params''; w = new_writer in
      if rq_err r then (invalid errinst ''Error reading inbound request'' w, g, s)
      else case parseParamJson (rq_body r) PARAM_PATCH g of
        (Some e, g1) \<Rightarrow>
          (invalid errinst (case e of PErr t \<Rightarrow> t | PDecodeErr \<Rightarrow> perr_text) w, g1, s)
      | (None, g1) \<Rightarrow>
          let rparams = genCurParamJson g1 in
          (case kvStore ''hmnfd_params'' rparams s of (err, s1) \<Rightarrow>
             if err then (internal errinst ''Failed KV service STORE operation'' w, g1, s1)
             else (writeBody (Bytes rparams) (writeHeader 200 w), g1, s1)))"

section \<open>The environment\<close>

text \<open>
  \<open>strconv.ParseUint(s, 0, 64)\<close>: the base comes from the prefix, underscores may separate digits.
  \<open>us_ok\<close> is \<open>underscoreOK\<close> after the prefix; \<open>CHR ''0''\<close> in its state means that a digit (or the
  prefix) was last, \<open>CHR ''_''\<close> an underscore, another character anything else.
\<close>

definition uint_digit :: "char \<Rightarrow> nat option" where
  "uint_digit c =
     (let l = lower_char c in
      if is_digit c then Some (of_char c - 48)
      else if CHR ''a'' \<le> l \<and> l \<le> CHR ''z'' then Some (of_char l - 87)
      else None)"

fun uint_digits :: "nat \<Rightarrow> nat \<Rightarrow> string \<Rightarrow> nat option" where
  "uint_digits base acc [] = Some acc"
| "uint_digits base acc (c # cs) =
     (if c = CHR ''_'' then uint_digits base acc cs
      else case uint_digit c of
        None \<Rightarrow> None
      | Some d \<Rightarrow> if d < base \<and> acc * base + d < 2 ^ 64 then uint_digits base (acc * base + d) cs
                  else None)"

fun us_ok :: "bool \<Rightarrow> char \<Rightarrow> string \<Rightarrow> bool" where
  "us_ok hex i [] = (i \<noteq> CHR ''_'')"
| "us_ok hex i (c # cs) =
     (if is_digit c \<or> hex \<and> CHR ''a'' \<le> lower_char c \<and> lower_char c \<le> CHR ''f''
      then us_ok hex (CHR ''0'') cs
      else if c = CHR ''_'' then i = CHR ''0'' \<and> us_ok hex (CHR ''_'') cs
      else i \<noteq> CHR ''_'' \<and> us_ok hex (CHR ''!'') cs)"

definition ParseUint :: "string \<Rightarrow> nat option" where
  "ParseUint s =
     (case s of
        [] \<Rightarrow> None
      | c # cs \<Rightarrow>
          let pre = (if c = CHR ''0'' then (case cs of d # ds \<Rightarrow> lower_char d | [] \<Rightarrow> CHR '' '') else CHR '' '');
              (base, digits) =
                (if c \<noteq> CHR ''0'' then (10, s)
                 else if 3 \<le> length s \<and> pre = CHR ''b'' then (2, drop 2 s)
                 else if 3 \<le> length s \<and> pre = CHR ''o'' then (8, drop 2 s)
                 else if 3 \<le> length s \<and> pre = CHR ''x'' then (16, drop 2 s)
                 else (8, cs));
              underscores = (CHR ''_'' \<in> set digits);
              prefixed = (pre = CHR ''b'' \<or> pre = CHR ''o'' \<or> pre = CHR ''x'') in
          (case uint_digits base 0 digits of
             None \<Rightarrow> None
           | Some n \<Rightarrow>
               if underscores \<and>
                  \<not> (if prefixed then us_ok (pre = CHR ''x'') (CHR ''0'') (drop 2 s)
                     else us_ok False (CHR ''^'') s)
               then None else Some n))"

type_synonym environ = "(string, string) gomap"

text \<open>\<open>int(ival)\<close> of a \<open>uint64\<close> keeps the bits.\<close>

definition env_parse_int :: "environ \<Rightarrow> string \<Rightarrow> int \<Rightarrow> int" where
  "env_parse_int env envvar old =
     (case gm_get env envvar of
        None \<Rightarrow> old
      | Some val \<Rightarrow>
          if val = [] then old
          else (case ParseUint val of
                  None \<Rightarrow> old | Some n \<Rightarrow> sint (word_of_int (int n) :: 64 word)))"

definition env_parse_bool :: "environ \<Rightarrow> string \<Rightarrow> int \<Rightarrow> int" where
  "env_parse_bool env envvar old =
     (case gm_get env envvar of
        None \<Rightarrow> old
      | Some val \<Rightarrow>
          let lcut = to_lower val in
          if lcut \<in> {''0'', ''no'', ''off'', ''false''} then 0
          else if lcut \<in> {''1'', ''yes'', ''on'', ''true''} then 1 else old)"

definition env_parse_string :: "environ \<Rightarrow> string \<Rightarrow> string \<Rightarrow> string" where
  "env_parse_string env envvar old =
     (case gm_get env envvar of None \<Rightarrow> old | Some val \<Rightarrow> if val = [] then old else val)"

definition parseEnvVars :: "environ \<Rightarrow> gstate \<Rightarrow> gstate" where
  "parseEnvVars env g =
     (let p = app_params g in
      g\<lparr>app_params := p\<lparr>
          Debug := env_parse_int env ''HMNFD_DEBUG'' (Debug p),
          KV_url := env_parse_string env ''HMNFD_KV_URL'' (KV_url p),
          Nosm := env_parse_int env ''HMNFD_NOSM'' (Nosm p),
          Port := env_parse_int env ''HMNFD_PORT'' (Port p),
          Scn_in_url := env_parse_string env ''HMNFD_SCN_IN_URL'' (Scn_in_url p),
          Scn_max_cache := env_parse_int env ''HMNFD_SCN_MAX_CACHE'' (Scn_max_cache p),
          Scn_cache_delay := env_parse_int env ''HMNFD_SCN_CACHE_DELAY'' (Scn_cache_delay p),
          Scn_backoff := env_parse_int env ''HMNFD_SCN_BACKOFF'' (Scn_backoff p),
          Scn_retries := env_parse_int env ''HMNFD_SCN_RETRIES'' (Scn_retries p),
          SM_retries := env_parse_int env ''HMNFD_SM_RETRIES'' (SM_retries p),
          SM_timeout := env_parse_int env ''HMNFD_SM_TIMEOUT'' (SM_timeout p),
          SM_url := env_parse_string env ''HMNFD_SM_URL'' (SM_url p),
          Telemetry_host := env_parse_string env ''HMNFD_TELEMETRY_HOST'' (Telemetry_host p),
          Use_telemetry := env_parse_int env ''HMNFD_USE_TELEMETRY'' (Use_telemetry p)\<rparr>,
        featureFlag_xnameApiEnable :=
          env_parse_int env ''HMNFD_FEATURE_XNAME_API'' (featureFlag_xnameApiEnable g),
        fanoutSyncMode := env_parse_int env ''HMNFD_FANOUT_SYNC'' (fanoutSyncMode g)\<rparr>)"

section \<open>The command line\<close>

text \<open>The values of the flags after \<open>flag.Parse\<close>; \<open>unseen\<close> has the defaults of those of \<open>opParams\<close>.\<close>

record cmdFlags =
  fl_params :: opParams
  fl_help :: bool
  fl_nosm :: bool
  fl_use_telemetry :: bool

text \<open>\<open>None\<close>: the help text was asked for and the process exits.\<close>

definition parseCmdLine :: "cmdFlags \<Rightarrow> gstate \<Rightarrow> gstate option" where
  "parseCmdLine f g =
     (if fl_help f then None
      else let v = fl_params f; p = app_params g in
        Some (g\<lparr>app_params := p\<lparr>
            Debug := (if Debug v \<noteq> - 1 then (if Debug v < 0 then 0 else Debug v) else Debug p),
            KV_url := seen_str (KV_url v) (KV_url p),
            Nosm := (if fl_nosm f then 1 else Nosm p),
            Port := seen_int (Port v) (Port p),
            Scn_in_url := seen_str (Scn_in_url v) (Scn_in_url p),
            Scn_max_cache := seen_int (Scn_max_cache v) (Scn_max_cache p),
            Scn_cache_delay := seen_int (Scn_cache_delay v) (Scn_cache_delay p),
            Scn_backoff := seen_int (Scn_backoff v) (Scn_backoff p),
            Scn_retries := seen_int (Scn_retries v) (Scn_retries p),
            SM_retries := seen_int (SM_retries v) (SM_retries p),
            SM_timeout := seen_int (SM_timeout v) (SM_timeout p),
            SM_url := seen_str (SM_url v) (SM_url p),
            Telemetry_host := seen_str (Telemetry_host v) (Telemetry_host p),
            Use_telemetry := (if fl_use_telemetry f then 1 else Use_telemetry p)\<rparr>,
          url_port := seen_int (Port v) (url_port g)\<rparr>))"

section \<open>Numbers survive the round trip\<close>

lemma digit_char: "d < 10 \<Longrightarrow> is_digit (char_of (48 + d :: nat)) \<and> of_char (char_of (48 + d)) = (48 + d :: nat)"
  by (simp add: is_digit_def less_eq_char_def)

lemma dec_nat_append: "dec_nat acc (s @ t) = Option.bind (dec_nat acc s) (\<lambda>a. dec_nat a t)"
  by (induction s arbitrary: acc) auto

lemma show_nat_digits: "set (show_nat n) \<subseteq> Collect is_digit"
  by (induction n rule: show_nat.induct) (subst show_nat.simps, auto simp: digit_char)

lemma show_nat_not_Nil [simp]: "show_nat n \<noteq> []"
  by (subst show_nat.simps) simp

lemma dec_show_nat: "dec_nat 0 (show_nat n) = Some (int n)"
proof (induction n rule: show_nat.induct)
  case (1 n)
  show ?case
  proof (cases "n < 10")
    case True
    then show ?thesis using digit_char [of n] by (subst show_nat.simps) simp
  next
    case False
    have "dec_nat 0 (show_nat n) = dec_nat (int (n div 10)) [char_of (48 + n mod 10)]"
      using False 1 by (subst show_nat.simps) (simp add: dec_nat_append)
    also have "\<dots> = Some (int (n div 10) * 10 + int (n mod 10))"
      using digit_char [of "n mod 10"] by simp
    also have "int (n div 10) * 10 + int (n mod 10) = int n"
      by (metis div_mult_mod_eq of_nat_add of_nat_mult of_nat_numeral)
    finally show ?thesis .
  qed
qed

lemma show_nat_head_digit: "\<exists>c cs. show_nat n = c # cs \<and> is_digit c \<and> c \<noteq> CHR ''-''"
proof -
  obtain c cs where s: "show_nat n = c # cs" by (cases "show_nat n") auto
  then have "is_digit c" using show_nat_digits [of n] by simp
  moreover from this have "c \<noteq> CHR ''-''" by (auto simp: is_digit_def less_eq_char_def)
  ultimately show ?thesis using s by blast
qed

lemma int64_of_show: "int64_ok i \<Longrightarrow> int64_of (show_int i) = Some i"
proof (cases "i < 0")
  case True
  assume "int64_ok i"
  then show ?thesis using True by (simp add: int64_of_def show_int_def dec_show_nat)
next
  case False
  assume "int64_ok i"
  moreover obtain c cs where "show_nat (nat i) = c # cs" "c \<noteq> CHR ''-''"
    using show_nat_head_digit by blast
  moreover have "dec_nat 0 (show_nat (nat i)) = Some i" using False dec_show_nat [of "nat i"] by simp
  ultimately show ?thesis using False by (simp add: int64_of_def show_int_def)
qed

lemma show_nat_no_zero: "0 < n \<Longrightarrow> hd (show_nat n) \<noteq> CHR ''0''"
proof (induction n rule: show_nat.induct)
  case (1 n)
  show ?case
  proof (cases "n < 10")
    case True
    have e: "(of_char (char_of (48 + n)) :: nat) = 48 + n" using digit_char [OF True] by blast
    have "char_of (48 + n) \<noteq> CHR ''0''"
    proof
      assume "char_of (48 + n) = CHR ''0''"
      then have "48 + n = (of_char (CHR ''0'') :: nat)" using e by simp
      then show False using 1(2) by simp
    qed
    then show ?thesis using True by (subst show_nat.simps) simp
  next
    case False
    then show ?thesis using 1(1) by (subst show_nat.simps) (simp add: hd_append)
  qed
qed

lemma int_part_show: "int_part (show_nat n) = Some (show_nat n, [])"
proof -
  have all: "\<forall>c \<in> set (show_nat n). is_digit c" using show_nat_digits [of n] by blast
  then have tw: "takeWhile is_digit (show_nat n) = show_nat n" "dropWhile is_digit (show_nat n) = []"
    by (simp_all add: takeWhile_eq_all_conv dropWhile_eq_Nil_conv)
  obtain c cs where s: "show_nat n = c # cs" "is_digit c" using show_nat_head_digit by blast
  show ?thesis
  proof (cases "n = 0")
    case True
    then show ?thesis using digit_char [of 0] by (subst (1 2) show_nat.simps) (simp add: int_part_def)
  next
    case False
    then have "c \<noteq> CHR ''0''" using show_nat_no_zero [of n] s by simp
    then show ?thesis using s tw by (simp add: int_part_def)
  qed
qed

lemma num_lit_show: "num_lit (show_int i)"
proof (cases "i < 0")
  case True
  then show ?thesis
    by (simp add: num_lit_def lex_num_def show_int_def int_part_show frac_part_def exp_part_def)
next
  case False
  obtain c cs where "show_nat (nat i) = c # cs" "c \<noteq> CHR ''-''" using show_nat_head_digit by blast
  then show ?thesis
    using False int_part_show [of "nat i"]
    by (simp add: num_lit_def lex_num_def show_int_def frac_part_def exp_part_def)
qed

definition params_ok :: "opParams \<Rightarrow> bool" where
  "params_ok p \<longleftrightarrow> int64_ok (Debug p) \<and> int64_ok (Nosm p) \<and> int64_ok (Port p) \<and>
     int64_ok (Scn_max_cache p) \<and> int64_ok (Scn_cache_delay p) \<and> int64_ok (Scn_retries p) \<and>
     int64_ok (Scn_backoff p) \<and> int64_ok (SM_retries p) \<and> int64_ok (SM_timeout p) \<and>
     int64_ok (Use_telemetry p)"

lemma lower_params [simp]:
  "to_lower ''Debug'' = ''debug''" "to_lower ''KV_url'' = ''kv_url''" "to_lower ''Nosm'' = ''nosm''"
  "to_lower ''Port'' = ''port''" "to_lower ''Scn_in_url'' = ''scn_in_url''"
  "to_lower ''Scn_max_cache'' = ''scn_max_cache''" "to_lower ''Scn_cache_delay'' = ''scn_cache_delay''"
  "to_lower ''Scn_retries'' = ''scn_retries''" "to_lower ''Scn_backoff'' = ''scn_backoff''"
  "to_lower ''SM_retries'' = ''sm_retries''" "to_lower ''SM_timeout'' = ''sm_timeout''"
  "to_lower ''SM_url'' = ''sm_url''" "to_lower ''Telemetry_host'' = ''telemetry_host''"
  "to_lower ''Use_telemetry'' = ''use_telemetry''"
  by code_simp+

lemma dec_show_int: "int64_ok i \<Longrightarrow> dec_int (JNum (show_int i)) old = (False, i)"
  by (simp add: int64_of_show)

lemma params_round:
  assumes "params_ok p"
  shows "unmarshal param_fields p0 (jprint (json_params p)) = Some (p\<lparr>Help := Help p0\<rparr>)"
proof -
  have "jok (json_params p)" by (simp add: json_params_def num_lit_show)
  moreover have "dec_struct param_fields p0 (json_params p) = Some (p\<lparr>Help := Help p0\<rparr>)"
    using assms unfolding params_ok_def
    by (simp add: dec_struct_def json_params_def param_fields_def dec_into_def dec_show_int
        del: dec_int.simps)
  ultimately show ?thesis by (simp add: unmarshal_jprint)
qed

section \<open>Properties\<close>

text \<open>
  The JSON that GET on /params answers reads back as the parameters.
\<close>

lemma params_round_trip:
  assumes "params_ok (app_params g)"
  shows "unmarshal param_fields p0 (genCurParamJson g) = Some ((app_params g)\<lparr>Help := Help p0\<rparr>)"
  unfolding genCurParamJson_def by (rule params_round [OF assms])

lemma parseParamJson_frame:
  "(case parseParamJson s PARAM_PATCH g of
      (Some e, g') \<Rightarrow> g' = g
    | (None, g') \<Rightarrow> \<exists>j. unmarshal param_fields unseen s = Some j \<and>
        g' = g\<lparr>app_params := (app_params g)\<lparr>
          Debug := seen_int (Debug j) (Debug (app_params g)),
          KV_url := seen_str (KV_url j) (KV_url (app_params g)),
          Nosm := seen_int (Nosm j) (Nosm (app_params g)),
          Scn_max_cache := seen_int (Scn_max_cache j) (Scn_max_cache (app_params g)),
          Scn_cache_delay := seen_int (Scn_cache_delay j) (Scn_cache_delay (app_params g)),
          Scn_backoff := seen_int (Scn_backoff j) (Scn_backoff (app_params g)),
          Scn_retries := seen_int (Scn_retries j) (Scn_retries (app_params g)),
          SM_url := seen_str (SM_url j) (SM_url (app_params g)),
          SM_retries := seen_int (SM_retries j) (SM_retries (app_params g)),
          SM_timeout := seen_int (SM_timeout j) (SM_timeout (app_params g)),
          Telemetry_host := seen_str (Telemetry_host j) (Telemetry_host (app_params g)),
          Use_telemetry := seen_int (Use_telemetry j) (Use_telemetry (app_params g))\<rparr>\<rparr>)"
  by (auto simp: parseParamJson_def Let_def split: option.split)

text \<open>
  What a PATCH asks for: a document that unmarshals and names neither the port nor the URL for
  notifications; and the parameters it asks for, where a member that is not given (or has the value that
  stands for this) leaves the parameter as it is.
\<close>

definition patch_wanted :: "request \<Rightarrow> opParams option" where
  "patch_wanted r =
     (if rq_err r then None
      else case unmarshal param_fields unseen (rq_body r) of
        None \<Rightarrow> None
      | Some j \<Rightarrow> if Port j = - 1 \<and> Scn_in_url j = ''xxx'' then Some j else None)"

definition merged :: "opParams \<Rightarrow> opParams \<Rightarrow> opParams" where
  "merged j p = p\<lparr>
     Debug := seen_int (Debug j) (Debug p), KV_url := seen_str (KV_url j) (KV_url p),
     Nosm := seen_int (Nosm j) (Nosm p), Scn_max_cache := seen_int (Scn_max_cache j) (Scn_max_cache p),
     Scn_cache_delay := seen_int (Scn_cache_delay j) (Scn_cache_delay p),
     Scn_retries := seen_int (Scn_retries j) (Scn_retries p),
     Scn_backoff := seen_int (Scn_backoff j) (Scn_backoff p), SM_url := seen_str (SM_url j) (SM_url p),
     SM_retries := seen_int (SM_retries j) (SM_retries p), SM_timeout := seen_int (SM_timeout j) (SM_timeout p),
     Telemetry_host := seen_str (Telemetry_host j) (Telemetry_host p),
     Use_telemetry := seen_int (Use_telemetry j) (Use_telemetry p)\<rparr>"

lemma merged_fixed [simp]:
  "Port (merged j p) = Port p" "Scn_in_url (merged j p) = Scn_in_url p" "Help (merged j p) = Help p"
  by (simp_all add: merged_def)

lemma parse_wanted:
  "\<not> rq_err r \<Longrightarrow> (case patch_wanted r of
       None \<Rightarrow> \<exists>e. parseParamJson (rq_body r) PARAM_PATCH g = (Some e, g)
     | Some j \<Rightarrow> parseParamJson (rq_body r) PARAM_PATCH g = (None, g\<lparr>app_params := merged j (app_params g)\<rparr>))"
  by (auto simp: parseParamJson_def patch_wanted_def merged_def Let_def split: option.split)

text \<open>Every integer parameter is a Go int, whatever way it was set.\<close>

datatype config = Env environ | Flags cmdFlags | Json string whence

fun configure :: "config \<Rightarrow> gstate \<Rightarrow> gstate" where
  "configure (Env env) g = parseEnvVars env g"
| "configure (Flags f) g = (case parseCmdLine f g of None \<Rightarrow> g | Some g' \<Rightarrow> g')"
| "configure (Json s wh) g = snd (parseParamJson s wh g)"

lemma env_parse_int_ok: "int64_ok old \<Longrightarrow> int64_ok (env_parse_int env k old)"
proof -
  have "int64_ok (sint (w :: 64 word))" for w
    using sint_greater_eq [of w] sint_less [of w] by (simp add: int64_ok_def)
  then show "int64_ok old \<Longrightarrow> int64_ok (env_parse_int env k old)"
    by (auto simp: env_parse_int_def split: option.split)
qed

lemma dec_int_ok: "int64_ok old \<Longrightarrow> int64_ok (snd (dec_int j old))"
  by (cases j) (auto simp: int64_of_def split: option.splits bind_splits if_splits list.splits)

lemma dec_members_inv:
  assumes "\<And>k d j r. map_of tbl k = Some d \<Longrightarrow> P r \<Longrightarrow> P (snd (d j r))" "P r"
  shows "P (snd (dec_members tbl ms (e, r)))"
  using assms(2)
proof (induction ms arbitrary: e r)
  case (Cons m ms)
  obtain k j where m: "m = (k, j)" by force
  show ?case
  proof (cases "map_of tbl (to_lower k)")
    case (Some d)
    obtain e' r' where d: "d j r = (e', r')" by force
    then have "P r'" using assms(1) [OF Some Cons.prems, of j] by simp
    then show ?thesis using Cons.IH Some d m by simp
  qed (use Cons m in simp)
qed simp

lemma snd_dec_into: "snd (dec_into d get put j r) = put (snd (d j (get r))) r"
  by (simp add: dec_into_def split: prod.split)

lemma param_fields_ok:
  assumes "map_of param_fields k = Some d" "params_ok r"
  shows "params_ok (snd (d j r))"
proof -
  have "\<forall>kd \<in> set param_fields. params_ok (snd (snd kd j r))"
    using assms(2) unfolding param_fields_def params_ok_def
    by (simp add: snd_dec_into dec_int_ok)
  then show ?thesis using map_of_SomeD [OF assms(1)] by fastforce
qed

lemma unmarshal_params_ok:
  assumes "unmarshal param_fields unseen s = Some p"
  shows "params_ok p"
proof -
  have u: "params_ok unseen" by (simp add: params_ok_def unseen_def int64_ok_def)
  have ms: "params_ok (snd (dec_members param_fields ms (False, unseen)))" for ms
    by (rule dec_members_inv [where P = params_ok]) (auto intro: param_fields_ok u)
  obtain j where j: "dec_struct param_fields unseen j = Some p"
    using assms by (auto simp: unmarshal_def split: option.splits)
  show ?thesis
  proof (cases j)
    case (JObj m)
    obtain e r where d: "dec_members param_fields m (False, unseen) = (e, r)" by force
    then have "p = r" using j JObj by (simp add: dec_struct_def split: if_splits)
    then show ?thesis using ms [of m] d by simp
  qed (use j u in \<open>simp_all add: dec_struct_def\<close>)
qed

lemma env_fields:
  "Debug (app_params (parseEnvVars env g)) =
     env_parse_int env ''HMNFD_DEBUG'' (Debug (app_params g))"
  "Nosm (app_params (parseEnvVars env g)) =
     env_parse_int env ''HMNFD_NOSM'' (Nosm (app_params g))"
  "Port (app_params (parseEnvVars env g)) =
     env_parse_int env ''HMNFD_PORT'' (Port (app_params g))"
  "Scn_max_cache (app_params (parseEnvVars env g)) =
     env_parse_int env ''HMNFD_SCN_MAX_CACHE'' (Scn_max_cache (app_params g))"
  "Scn_cache_delay (app_params (parseEnvVars env g)) =
     env_parse_int env ''HMNFD_SCN_CACHE_DELAY'' (Scn_cache_delay (app_params g))"
  "Scn_retries (app_params (parseEnvVars env g)) =
     env_parse_int env ''HMNFD_SCN_RETRIES'' (Scn_retries (app_params g))"
  "Scn_backoff (app_params (parseEnvVars env g)) =
     env_parse_int env ''HMNFD_SCN_BACKOFF'' (Scn_backoff (app_params g))"
  "SM_retries (app_params (parseEnvVars env g)) =
     env_parse_int env ''HMNFD_SM_RETRIES'' (SM_retries (app_params g))"
  "SM_timeout (app_params (parseEnvVars env g)) =
     env_parse_int env ''HMNFD_SM_TIMEOUT'' (SM_timeout (app_params g))"
  "Use_telemetry (app_params (parseEnvVars env g)) =
     env_parse_int env ''HMNFD_USE_TELEMETRY'' (Use_telemetry (app_params g))"
  unfolding parseEnvVars_def Let_def by simp_all

definition config_ok :: "config \<Rightarrow> bool" where
  "config_ok c = (case c of Flags f \<Rightarrow> params_ok (fl_params f) | _ \<Rightarrow> True)"

lemma seen_int_ok: "int64_ok a \<Longrightarrow> int64_ok b \<Longrightarrow> int64_ok (seen_int a b)"
  by (simp add: seen_int_def)

lemma int64_small [simp]: "int64_ok 0" "int64_ok 1"
  by (simp_all add: int64_ok_def)

lemma flags_ok:
  assumes "params_ok (fl_params f)" "params_ok (app_params g)" "parseCmdLine f g = Some g'"
  shows "params_ok (app_params g')"
proof -
  have g': "g' = the (parseCmdLine f g)" "\<not> fl_help f"
    using assms(3) by (auto simp: parseCmdLine_def split: if_splits)
  have dbg: "int64_ok (if Debug (fl_params f) \<noteq> - 1 then if Debug (fl_params f) < 0 then 0
      else Debug (fl_params f) else Debug (app_params g))"
    and one: "int64_ok (if b then 1 else x)" if "int64_ok x" for b x
    using assms(1,2) that by (simp_all add: params_ok_def int64_ok_def)
  note ok = assms(1,2) [unfolded params_ok_def]
  show ?thesis
    unfolding g'(1) params_ok_def using g'(2) ok
    by (simp add: parseCmdLine_def Let_def seen_int_ok dbg one del: if_split)
qed

lemma configure_ok: "config_ok c \<Longrightarrow> params_ok (app_params g) \<Longrightarrow> params_ok (app_params (configure c g))"
proof (cases c)
  case (Env env)
  assume "params_ok (app_params g)"
  then show ?thesis
    unfolding Env configure.simps params_ok_def env_fields
    by (intro conjI env_parse_int_ok) (elim conjE, assumption)+
next
  case (Flags f)
  assume "config_ok c" "params_ok (app_params g)"
  then show ?thesis
    by (cases "parseCmdLine f g") (simp_all add: Flags config_ok_def flags_ok)
next
  case (Json s wh)
  assume g: "params_ok (app_params g)"
  show ?thesis
  proof (cases "unmarshal param_fields unseen s")
    case None
    then show ?thesis using g by (simp add: Json parseParamJson_def split: option.split)
  next
    case (Some j)
    then show ?thesis
      using unmarshal_params_ok [OF Some] g
      by (cases wh) (simp_all add: Json parseParamJson_def Let_def params_ok_def seen_int_ok)
  qed
qed

text \<open>
  From the defaults, after any sequence of environments, command lines and JSON documents,
  every integer parameter is within 64 bits.
\<close>

lemma params_in_range:
  assumes "\<forall>c \<in> set cs. config_ok c"
  shows "params_ok (app_params (fold configure cs initial_gstate))"
proof -
  have "params_ok (app_params (fold configure cs g))" if "params_ok (app_params g)" "\<forall>c \<in> set cs. config_ok c" for g
    using that by (induction cs arbitrary: g) (simp_all add: configure_ok)
  moreover have "params_ok (app_params initial_gstate)"
    by (simp add: params_ok_def initial_gstate_def default_params_def int64_ok_def)
  ultimately show ?thesis using assms by blast
qed

lemma params_in_range_example:
  "params_ok (app_params (fold configure
     [Env [(''HMNFD_SCN_RETRIES'', ''18446744073709551615'')], Json ''{\"Debug\":3}'' PARAM_PATCH] initial_gstate))"
  by (rule params_in_range) (simp add: config_ok_def)

lemma merged_ok: "params_ok p \<Longrightarrow> params_ok j \<Longrightarrow> params_ok (merged j p)"
  by (simp add: params_ok_def merged_def seen_int_ok)


lemma uint_digits_bound: "acc < 2 ^ 64 \<Longrightarrow> uint_digits base acc cs = Some n \<Longrightarrow> n < 2 ^ 64"
  by (induction base acc cs rule: uint_digits.induct) (auto split: if_splits option.splits)

lemma ParseUint_bound: "ParseUint s = Some n \<Longrightarrow> n < 2 ^ 64"
  by (cases s) (auto simp: ParseUint_def Let_def split: prod.splits option.splits if_splits
      dest!: uint_digits_bound [rotated])

lemma sint64:
  assumes "n < 2 ^ 64"
  shows "sint (word_of_int (int n) :: 64 word) = (if n < 2 ^ 63 then int n else int n - 2 ^ 64)"
proof -
  have "sint (word_of_int (int n) :: 64 word) = (int n mod 2 ^ 64 + 2 ^ 63) mod 2 ^ 64 - 2 ^ 63"
    by (simp add: sint_uint signed_take_bit_eq_take_bit_shift take_bit_eq_mod unsigned_of_nat zmod_int)
  also have "int n mod 2 ^ 64 = int n" using assms by simp
  also have "(int n + 2 ^ 63) mod 2 ^ 64 = (if n < 2 ^ 63 then int n + 2 ^ 63 else int n - 2 ^ 63)"
    using assms by (auto simp: mod_pos_pos_trivial intro: int_mod_pos_eq [where q = 1])
  finally show ?thesis by simp
qed

text \<open>
  An integer variable that is set is read as an unsigned 64-bit number and kept as a signed
  one: from 2^63 on the parameter is the negative number 2^64 below, and a value that is no such
  number leaves the parameter as it was.
\<close>

lemma env_int_wraps:
  assumes "gm_get env var = Some val" "val \<noteq> []"
  shows "env_parse_int env var old =
    (case ParseUint val of
       None \<Rightarrow> old | Some n \<Rightarrow> if n < 2 ^ 63 then int n else int n - 2 ^ 64)"
  using assms ParseUint_bound [of val] sint64
  by (auto simp: env_parse_int_def split: option.split)

text \<open>The value that stands for a member that is not given cannot be set.\<close>

lemma minus_one_ignored:
  "Scn_retries (app_params (snd (parseParamJson ''{\"Scn_retries\":-1}'' PARAM_PATCH initial_gstate))) = 5"
proof -
  have "int64_of ''-1'' = Some (- 1)" by (simp add: int64_of_def int64_ok_def is_digit_def less_eq_char_def)
  moreover have "parse_json ''{\"Scn_retries\":-1}'' = Some (JObj [(''Scn_retries'', JNum ''-1'')])"
    by code_simp
  ultimately have "unmarshal param_fields unseen ''{\"Scn_retries\":-1}'' = Some unseen"
    by (simp add: unmarshal_def dec_struct_def param_fields_def dec_into_def) (simp add: unseen_def)
  then show ?thesis
    unfolding parseParamJson_def by (simp add: initial_gstate_def default_params_def unseen_def seen_int_def)
qed

definition ex_params_patch :: request where
  "ex_params_patch = \<lparr>rq_method = ''PATCH'', rq_path = ''/hmi/v1/params'', rq_vars = [],
     rq_body = ''{\"Debug\":3}'', rq_err = False\<rparr>"


end
