(* ===== verification/Hsm.thy ===== *)
theory Hsm
  imports Params
begin

text \<open>
  The side of hmnfd that talks to the state manager (HSM), in cmd/hmi-nfd/fanout.go: the tracker of
  what has been subscribed (\<open>needHSMSubs\<close>, \<open>makeHSMSubInfo\<close>), the request (\<open>sendHsmScnSubscription\<close>),
  one round of the goroutine \<open>subscribeToHsmScn\<close>, and \<open>pruneDeadWood\<close>. The network is a
  parameter: what each request of the program comes back with.

  A Go map is a reference, so the copy \<open>ttmp := tracker\<close> of \<open>needHSMSubs\<close> shares the four maps with
  the caller's tracker and only the flag \<open>enabled\<close> is a copy. The maps are therefore kept apart, as
  \<open>trackMaps\<close>: \<open>needHSMSubs\<close> returns them updated, and they are the caller's at once.
\<close>

section \<open>Tracking\<close>

record trackMaps =
  hwStates :: "string list"
  swStatus :: "string list"
  trkRoles :: "string list"
  trkSubRoles :: "string list"

text \<open>One of the loops: the keys that are new go into the map.\<close>

fun track :: "string list \<Rightarrow> string list \<Rightarrow> bool \<Rightarrow> bool \<times> string list" where
  "track [] m needSub = (needSub, m)"
| "track (x # xs) m needSub =
     (let stl = to_lower x in
      if stl \<in> set m then track xs m needSub else track xs (m @ [stl]) True)"

text \<open>Whether a request is needed, the maps after the call, and \<open>ttmp.enabled\<close>.\<close>

definition needHSMSubs :: "ScnSubscribe \<Rightarrow> trackMaps \<Rightarrow> bool \<Rightarrow> bool \<times> trackMaps \<times> bool" where
  "needHSMSubs sub t enabled =
     (case track (subStates sub) (hwStates t) False of (n1, hw) \<Rightarrow>
      case track (subSoftwareStatus sub) (swStatus t) n1 of (n2, sw) \<Rightarrow>
      case track (subRoles sub) (trkRoles t) n2 of (n3, ro) \<Rightarrow>
      case track (subSubRoles sub) (trkSubRoles t) n3 of (n4, sr) \<Rightarrow>
        (if \<not> enabled \<and> subEnabled sub = Some True
         then (True, \<lparr>hwStates = hw, swStatus = sw, trkRoles = ro, trkSubRoles = sr\<rparr>, True)
         else (n4, \<lparr>hwStates = hw, swStatus = sw, trkRoles = ro, trkSubRoles = sr\<rparr>, enabled)))"

text \<open>The record kept in the store for other instances, \<open>hsmSubscriptionInfo\<close>.\<close>

definition makeHSMSubInfo :: "trackMaps \<Rightarrow> bool \<Rightarrow> string" where
  "makeHSMSubInfo t enabled = jprint (JObj (
     omit_strs ''HWStates'' (hwStates t) @ omit_strs ''SWStatus'' (swStatus t) @
     omit_strs ''Roles'' (trkRoles t) @ omit_strs ''SubRoles'' (trkSubRoles t) @
     (if enabled then [(''Enabled'', JBool True)] else [])))"

section \<open>The request\<close>

datatype hsm_reply = HsmFail | HsmStatus nat

record hsmstate =
  h_maps :: trackMaps
  h_enabled :: bool
  h_chan :: "ScnSubscribe list"
  h_ix :: int
  h_sent :: "(string \<times> string) list"
  h_subscribed :: "ScnSubscribe list"
  h_kv :: kvs

text \<open>
  \<open>h_sent\<close> logs the URL and the body of the requests made, \<open>h_subscribed\<close> the subscriptions that
  HSM has accepted; neither is a variable of the program.
\<close>

definition hsm_accepts :: "hsm_reply \<Rightarrow> bool" where
  "hsm_accepts r = (case r of HsmFail \<Rightarrow> False | HsmStatus c \<Rightarrow> c = 200 \<or> c = 204 \<or> c = 202)"

text \<open>\<open>host\<close> is the name of the pod; the result says whether there was an error.\<close>

definition sendHsmScnSubscription ::
  "string \<Rightarrow> opParams \<Rightarrow> hsm_reply \<Rightarrow> ScnSubscribe \<Rightarrow> hsmstate \<Rightarrow> bool \<times> hsmstate" where
  "sendHsmScnSubscription host p reply scn st =
     (let scn' = scn\<lparr>subComponents := [],
                     subSubscriber := host @ ''_'' @ show_int (h_ix st),
                     subUrl := Scn_in_url p\<rparr>;
          st1 = st\<lparr>h_ix := h_ix st + 1\<rparr> in
      if Nosm p \<noteq> 0 then (False, st1)
      else let st2 = st1\<lparr>h_sent := h_sent st1 @
                           [(SM_url p @ ''/Subscriptions/SCN'', marshal_ScnSubscribe scn')]\<rparr> in
        if hsm_accepts reply then (False, st2\<lparr>h_subscribed := h_subscribed st2 @ [scn]\<rparr>)
        else (True, st2))"

text \<open>One round of the loop of \<open>subscribeToHsmScn\<close>, for the subscription at the head of the queue.\<close>

definition hsm_round :: "string \<Rightarrow> opParams \<Rightarrow> hsm_reply \<Rightarrow> hsmstate \<Rightarrow> hsmstate" where
  "hsm_round host p reply st =
     (case h_chan st of
        [] \<Rightarrow> st
      | sub # rest \<Rightarrow>
          (case needHSMSubs sub (h_maps st) (h_enabled st) of (needSub, maps, enabled_tmp) \<Rightarrow>
            (let st1 = st\<lparr>h_chan := rest, h_maps := maps\<rparr> in
             if \<not> needSub then st1
             else case (if Nosm p = 0 then sendHsmScnSubscription host p reply sub st1
                        else (False, st1)) of (err, st2) \<Rightarrow>
               if err then st2\<lparr>h_chan := h_chan st2 @ [sub]\<rparr>
               else let st3 = st2\<lparr>h_enabled := enabled_tmp\<rparr>;
                        jstr = makeHSMSubInfo (h_maps st3) (h_enabled st3);
                        kv1 = snd (kvStore ''hsmsubs'' jstr (h_kv st3));
                        kv2 = snd (kvStore ''hsmsubs'' jstr kv1) in
                 st3\<lparr>h_kv := kv2\<rparr>)))"

text \<open>What \<open>main\<close> puts into the queue after the threads are started.\<close>

definition mandatory_scn :: "opParams \<Rightarrow> ScnSubscribe" where
  "mandatory_scn p = ScnSubscribe0\<lparr>subSubscriber := ''hmnfd'', subUrl := Scn_in_url p,
     subStates := [''Empty'', ''Populated'', ''Off'', ''On'', ''Standby'', ''Halt'', ''Ready''],
     subEnabled := Some True, subRoles := [''compute'', ''service'']\<rparr>"

definition subscribeMandatoryScn :: "opParams \<Rightarrow> hsmstate \<Rightarrow> hsmstate" where
  "subscribeMandatoryScn p st = st\<lparr>h_chan := h_chan st @ [mandatory_scn p]\<rparr>"

section \<open>What the tracker knows\<close>

lemma track_set: "set (snd (track xs m n)) = set m \<union> to_lower ` set xs"
  by (induction xs m n rule: track.induct) (auto simp: Let_def)

lemma track_distinct: "distinct m \<Longrightarrow> distinct (snd (track xs m n))"
  by (induction xs m n rule: track.induct) (auto simp: Let_def)

lemma track_need: "fst (track xs m n) \<longleftrightarrow> n \<or> \<not> to_lower ` set xs \<subseteq> set m"
  by (induction xs m n rule: track.induct) (auto simp: Let_def)

text \<open>The attributes of a subscription and of the maps, each with its kind.\<close>

datatype kind = KState | KSoft | KRole | KSubRole

definition wants :: "ScnSubscribe \<Rightarrow> (kind \<times> string) set" where
  "wants s = Pair KState ` to_lower ` set (subStates s) \<union>
     Pair KSoft ` to_lower ` set (subSoftwareStatus s) \<union>
     Pair KRole ` to_lower ` set (subRoles s) \<union> Pair KSubRole ` to_lower ` set (subSubRoles s)"

definition knows :: "trackMaps \<Rightarrow> (kind \<times> string) set" where
  "knows t = Pair KState ` set (hwStates t) \<union> Pair KSoft ` set (swStatus t) \<union>
     Pair KRole ` set (trkRoles t) \<union> Pair KSubRole ` set (trkSubRoles t)"

lemma tracked_kind:
  "Pair k ` set (snd (track xs m n)) = Pair k ` set m \<union> Pair k ` to_lower ` set xs"
  by (simp add: track_set image_Un)

lemma wants_in_knows: "wants s \<subseteq> knows t \<longleftrightarrow>
    to_lower ` set (subStates s) \<subseteq> set (hwStates t) \<and>
    to_lower ` set (subSoftwareStatus s) \<subseteq> set (swStatus t) \<and>
    to_lower ` set (subRoles s) \<subseteq> set (trkRoles t) \<and>
    to_lower ` set (subSubRoles s) \<subseteq> set (trkSubRoles t)"
  unfolding wants_def knows_def by (auto simp: image_subset_iff)

text \<open>The call with the four loops named.\<close>

lemma needHSMSubs_unfold:
  fixes sub t en
  defines "n1 \<equiv> fst (track (subStates sub) (hwStates t) False)"
  defines "n2 \<equiv> fst (track (subSoftwareStatus sub) (swStatus t) n1)"
  defines "n3 \<equiv> fst (track (subRoles sub) (trkRoles t) n2)"
  shows "needHSMSubs sub t en =
    (fst (track (subSubRoles sub) (trkSubRoles t) n3) \<or> \<not> en \<and> subEnabled sub = Some True,
     \<lparr>hwStates = snd (track (subStates sub) (hwStates t) False),
      swStatus = snd (track (subSoftwareStatus sub) (swStatus t) n1),
      trkRoles = snd (track (subRoles sub) (trkRoles t) n2),
      trkSubRoles = snd (track (subSubRoles sub) (trkSubRoles t) n3)\<rparr>,
     en \<or> subEnabled sub = Some True)"
  unfolding needHSMSubs_def n1_def n2_def n3_def by (simp add: case_prod_beta)

lemma needHSMSubs_spec:
  assumes "needHSMSubs sub t en = (need, t', en')"
  shows needHSMSubs_knows: "knows t' = knows t \<union> wants sub"
    and needHSMSubs_need: "need \<longleftrightarrow> \<not> wants sub \<subseteq> knows t \<or> \<not> en \<and> subEnabled sub = Some True"
    and needHSMSubs_enabled: "en' \<longleftrightarrow> en \<or> subEnabled sub = Some True"
proof -
  have t': "t' = fst (snd (needHSMSubs sub t en))" and need: "need = fst (needHSMSubs sub t en)"
    and en': "en' = snd (snd (needHSMSubs sub t en))"
    using assms by simp_all
  show "knows t' = knows t \<union> wants sub"
    unfolding t' needHSMSubs_unfold by (simp add: knows_def wants_def tracked_kind Un_ac)
  show "need \<longleftrightarrow> \<not> wants sub \<subseteq> knows t \<or> \<not> en \<and> subEnabled sub = Some True"
    unfolding need needHSMSubs_unfold wants_in_knows by (simp add: track_need) blast
  show "en' \<longleftrightarrow> en \<or> subEnabled sub = Some True"
    unfolding en' needHSMSubs_unfold by simp
qed

section \<open>What has been subscribed\<close>

text \<open>
  What a list of accepted subscriptions tells HSM to report, and when a further one would add
  nothing. \<open>cover\<close> is the abstract loop: a subscription is sent when it adds something.
\<close>

definition hsm_covered :: "ScnSubscribe \<Rightarrow> ScnSubscribe list \<Rightarrow> bool" where
  "hsm_covered sub subs \<longleftrightarrow> wants sub \<subseteq> (\<Union>s \<in> set subs. wants s) \<and>
     (subEnabled sub = Some True \<longrightarrow> (\<exists>s \<in> set subs. subEnabled s = Some True))"

fun cover :: "ScnSubscribe list \<Rightarrow> ScnSubscribe list \<Rightarrow> ScnSubscribe list" where
  "cover [] subs = subs"
| "cover (s # q) subs = cover q (if hsm_covered s subs then subs else subs @ [s])"

text \<open>The start of \<open>subscribeToHsmScn\<close>, with what is waiting in the channel; and rounds in a row.\<close>

definition hsm_start :: "ScnSubscribe list \<Rightarrow> kvs \<Rightarrow> hsmstate" where
  "hsm_start q kv =
     \<lparr>h_maps = \<lparr>hwStates = [], swStatus = [], trkRoles = [], trkSubRoles = []\<rparr>, h_enabled = False,
      h_chan = q, h_ix = 1, h_sent = [], h_subscribed = [], h_kv = kv\<rparr>"

definition hsm_rounds :: "string \<Rightarrow> opParams \<Rightarrow> hsm_reply list \<Rightarrow> hsmstate \<Rightarrow> hsmstate" where
  "hsm_rounds host p replies st = fold (hsm_round host p) replies st"

definition hsm_inv :: "hsmstate \<Rightarrow> bool" where
  "hsm_inv st \<longleftrightarrow> knows (h_maps st) = (\<Union>s \<in> set (h_subscribed st). wants s) \<and>
     (h_enabled st \<longleftrightarrow> (\<exists>s \<in> set (h_subscribed st). subEnabled s = Some True))"

lemma hsm_inv_start: "hsm_inv (hsm_start q kv)"
  by (simp add: hsm_inv_def hsm_start_def knows_def)

lemma hsm_inv_need:
  "hsm_inv st \<Longrightarrow>
   fst (needHSMSubs sub (h_maps st) (h_enabled st)) \<longleftrightarrow> \<not> hsm_covered sub (h_subscribed st)"
proof -
  assume inv: "hsm_inv st"
  obtain need maps en where n: "needHSMSubs sub (h_maps st) (h_enabled st) = (need, maps, en)"
    by (metis prod.exhaust)
  show ?thesis
    unfolding n fst_conv needHSMSubs_need [OF n] hsm_covered_def
    using inv unfolding hsm_inv_def by blast
qed

lemma hsm_round_accepted:
  assumes "hsm_inv st" "Nosm p = 0" "hsm_accepts r" "h_chan st = sub # rest"
  shows "hsm_inv (hsm_round host p r st) \<and> h_chan (hsm_round host p r st) = rest \<and>
    h_subscribed (hsm_round host p r st) = cover [sub] (h_subscribed st)"
proof -
  obtain need maps en where n: "needHSMSubs sub (h_maps st) (h_enabled st) = (need, maps, en)"
    by (metis prod.exhaust)
  have need: "need \<longleftrightarrow> \<not> hsm_covered sub (h_subscribed st)"
    using hsm_inv_need [OF assms(1), of sub] n by simp
  note k = needHSMSubs_knows [OF n] and e = needHSMSubs_enabled [OF n]
  show ?thesis
  proof (cases need)
    case True
    then have "\<not> hsm_covered sub (h_subscribed st)" using need by simp
    moreover have "h_subscribed (hsm_round host p r st) = h_subscribed st @ [sub] \<and>
        h_chan (hsm_round host p r st) = rest \<and> h_maps (hsm_round host p r st) = maps \<and>
        h_enabled (hsm_round host p r st) = en"
      using True assms(2-4) by (simp add: hsm_round_def n sendHsmScnSubscription_def Let_def)
    ultimately show ?thesis
      using assms(1) k e unfolding hsm_inv_def by (simp add: Un_commute disj_commute)
  next
    case False
    then have c: "hsm_covered sub (h_subscribed st)" using need by simp
    then have "knows maps = knows (h_maps st)"
      using k assms(1) by (auto simp: hsm_covered_def hsm_inv_def)
    moreover have "hsm_round host p r st = st\<lparr>h_chan := rest, h_maps := maps\<rparr>"
      using False assms(4) by (simp add: hsm_round_def n)
    ultimately show ?thesis
      using assms(1) c unfolding hsm_inv_def by simp
  qed
qed

lemma hsm_rounds_cover:
  "\<lbrakk>hsm_inv st; Nosm p = 0; \<forall>r \<in> set rs. hsm_accepts r; length rs = length (h_chan st)\<rbrakk> \<Longrightarrow>
   hsm_inv (hsm_rounds host p rs st) \<and> h_chan (hsm_rounds host p rs st) = [] \<and>
   h_subscribed (hsm_rounds host p rs st) = cover (h_chan st) (h_subscribed st)"
proof (induction rs arbitrary: st)
  case (Cons r rs)
  then obtain sub rest where q: "h_chan st = sub # rest" by (cases "h_chan st") auto
  show ?case
    using Cons.IH [of "hsm_round host p r st"] hsm_round_accepted [OF Cons.prems(1,2) _ q, of r host]
      Cons.prems q by (simp add: hsm_rounds_def)
qed (simp add: hsm_rounds_def)

lemma hsm_covered_mono: "hsm_covered s subs \<Longrightarrow> set subs \<subseteq> set subs' \<Longrightarrow> hsm_covered s subs'"
  unfolding hsm_covered_def by blast

lemma cover_extends: "\<exists>new. cover q subs = subs @ new \<and> set new \<subseteq> set q"
  by (induction q subs rule: cover.induct) (fastforce split: if_splits)+

lemma hsm_covered_self: "hsm_covered s (subs @ [s])"
  by (auto simp: hsm_covered_def)

lemma cover_covers: "s \<in> set q \<Longrightarrow> hsm_covered s (cover q subs)"
proof (induction q subs rule: cover.induct)
  case (2 t q subs)
  let ?subs = "if hsm_covered t subs then subs else subs @ [t]"
  obtain new where "cover q ?subs = ?subs @ new" using cover_extends [of q ?subs] by blast
  then have "hsm_covered t (cover q ?subs)"
    using hsm_covered_mono [of t ?subs "?subs @ new"] hsm_covered_self by auto
  then show ?case using 2 by auto
qed simp

lemma cover_needed:
  "\<forall>i < length subs. \<not> hsm_covered (subs ! i) (take i subs) \<Longrightarrow>
   i < length (cover q subs) \<Longrightarrow> \<not> hsm_covered (cover q subs ! i) (take i (cover q subs))"
proof (induction q subs rule: cover.induct)
  case (2 t q subs)
  show ?case
  proof (cases "hsm_covered t subs")
    case False
    then have "\<forall>i < length (subs @ [t]). \<not> hsm_covered ((subs @ [t]) ! i) (take i (subs @ [t]))"
      using "2.prems"(1) by (auto simp: nth_append less_Suc_eq)
    then show ?thesis using 2 False by simp
  qed (use 2 in simp)
qed simp

section \<open>Properties\<close>

text \<open>
  C27: While HSM accepts what it is sent, the subscriber loop empties its queue, every
  subscription in the queue is covered by what HSM has accepted (each attribute it wants and the
  enabled flag), and nothing is sent that the requests before it already cover.
\<close>

theorem hsm_all_covered:
  assumes "Nosm p = 0" "\<forall>r \<in> set replies. hsm_accepts r" "length replies = length queue"
    and "st = hsm_rounds host p replies (hsm_start queue kv)"
  shows "h_chan st = [] \<and> set (h_subscribed st) \<subseteq> set queue \<and>
    (\<forall>s \<in> set queue. hsm_covered s (h_subscribed st)) \<and>
    (\<forall>i < length (h_subscribed st).
       \<not> hsm_covered (h_subscribed st ! i) (take i (h_subscribed st)))"
proof -
  have c: "h_chan st = []" "h_subscribed st = cover queue []"
    using hsm_rounds_cover [OF hsm_inv_start assms(1,2), of queue kv host] assms(3,4)
    by (simp_all add: hsm_start_def)
  then show ?thesis
    using cover_covers [of _ queue "[]"] cover_needed [of "[]" _ queue] cover_extends [of queue "[]"]
    by auto
qed

definition ex_sub_on :: ScnSubscribe where
  "ex_sub_on = ScnSubscribe0\<lparr>subComponents := [''x0c0s0b0n0''], subSubscriber := ''a@x0c0s1b0n0'',
     subStates := [''On''], subUrl := ''http://a''\<rparr>"

definition ex_sub_enabled :: ScnSubscribe where
  "ex_sub_enabled = ex_sub_on\<lparr>subEnabled := Some True, subStates := [''Off'', ''on'']\<rparr>"

theorem hsm_all_covered_witness:
  "\<exists>st. st = hsm_rounds ''pod'' (default_params\<lparr>Nosm := 0\<rparr>) [HsmStatus 200, HsmStatus 204, HsmStatus 202]
       (hsm_start [ex_sub_on, ex_sub_enabled, ex_sub_on] kv_open) \<and>
     h_chan st = [] \<and> h_subscribed st = [ex_sub_on, ex_sub_enabled] \<and>
     hsm_covered ex_sub_on (h_subscribed st)"
proof -
  let ?st = "hsm_rounds ''pod'' (default_params\<lparr>Nosm := 0\<rparr>) [HsmStatus 200, HsmStatus 204, HsmStatus 202]
       (hsm_start [ex_sub_on, ex_sub_enabled, ex_sub_on] kv_open)"
  have "h_chan ?st = [] \<and> (\<forall>s \<in> set [ex_sub_on, ex_sub_enabled, ex_sub_on]. hsm_covered s (h_subscribed ?st))"
    using hsm_all_covered [of "default_params\<lparr>Nosm := 0\<rparr>" "[HsmStatus 200, HsmStatus 204, HsmStatus 202]"
        "[ex_sub_on, ex_sub_enabled, ex_sub_on]" ?st "''pod''" kv_open]
    by (simp add: hsm_accepts_def)
  moreover have "h_subscribed ?st = [ex_sub_on, ex_sub_enabled]" by code_simp
  ultimately show ?thesis by simp
qed

text \<open>
  C32: A request that HSM does not accept is not made again: the maps of the tracker were
  changed in place, so that when the subscription comes back from the queue it looks subscribed
  and is dropped, unless it asks for the enabled flag for the first time.
\<close>

theorem hsm_failure_forgotten:
  assumes "Nosm p = 0" "h_chan st = [sub]" "\<not> hsm_accepts reply"
    and "h_enabled st \<or> subEnabled sub \<noteq> Some True"
  shows "h_chan (hsm_rounds host p [reply, reply'] st) = [] \<and>
    h_subscribed (hsm_rounds host p [reply, reply'] st) = h_subscribed st"
proof -
  obtain need maps en where n: "needHSMSubs sub (h_maps st) (h_enabled st) = (need, maps, en)"
    by (metis prod.exhaust)
  obtain need' maps' en' where n': "needHSMSubs sub maps (h_enabled st) = (need', maps', en')"
    by (metis prod.exhaust)
  have "\<not> need'"
    using needHSMSubs_need [OF n'] needHSMSubs_knows [OF n] assms(4) by auto
  then show ?thesis
    using assms by (cases need) (simp_all add: hsm_rounds_def hsm_round_def n n' sendHsmScnSubscription_def Let_def)
qed

theorem hsm_failure_forgotten_witness:
  "\<exists>st. st = hsm_rounds ''pod'' (default_params\<lparr>Nosm := 0\<rparr>) [HsmFail, HsmStatus 200]
       (hsm_start [ex_sub_on] kv_open) \<and>
     h_chan st = [] \<and> h_subscribed st = [] \<and> \<not> hsm_covered ex_sub_on (h_subscribed st)"
proof -
  have "h_chan (hsm_start [ex_sub_on] kv_open) = [ex_sub_on]" "h_subscribed (hsm_start [ex_sub_on] kv_open) = []"
    by (simp_all add: hsm_start_def)
  moreover have "\<not> hsm_covered ex_sub_on []" by (simp add: hsm_covered_def wants_def ex_sub_on_def ScnSubscribe0_def)
  ultimately show ?thesis
    using hsm_failure_forgotten [of "default_params\<lparr>Nosm := 0\<rparr>" "hsm_start [ex_sub_on] kv_open" ex_sub_on
        HsmFail "''pod''" "HsmStatus 200"]
    by (simp add: hsm_accepts_def ex_sub_on_def ScnSubscribe0_def)
qed

end
