(* ===== verification/Deadwood.thy ===== *)
theory Deadwood
  imports Prune Hsm
begin

text \<open>
  \<open>pruneDeadWood\<close> of cmd/hmi-nfd/fanout.go: on start-up the program asks HSM for the nodes that are
  off, empty or halted, until it gets a reply it can decode, and puts those that own a subscription
  into the prune map. What each request comes back with is a parameter: no body, or a body. The
  status of the reply does not matter to the code.
\<close>

section \<open>The reply\<close>

record hsmStateOnly =
  hsFlag :: string
  hsID :: string
  hsType :: string
  hsState :: string

definition hsmStateOnly0 :: hsmStateOnly where
  "hsmStateOnly0 = \<lparr>hsFlag = [], hsID = [], hsType = [], hsState = []\<rparr>"

definition hsmStateOnly_fields :: "hsmStateOnly field_table" where
  "hsmStateOnly_fields = [
     (''flag'', dec_into dec_string hsFlag (\<lambda>x. hsFlag_update (\<lambda>_. x))),
     (''id'', dec_into dec_string hsID (\<lambda>x. hsID_update (\<lambda>_. x))),
     (''type'', dec_into dec_string hsType (\<lambda>x. hsType_update (\<lambda>_. x))),
     (''state'', dec_into dec_string hsState (\<lambda>x. hsState_update (\<lambda>_. x)))]"

text \<open>
  \<open>jdata\<close> is declared before the loop, so that a reply is decoded over what a reply that failed to
  decode has left: an element of the array into the element that was at its place.
\<close>

fun dec_state :: "json \<Rightarrow> hsmStateOnly \<Rightarrow> bool \<times> hsmStateOnly" where
  "dec_state (JObj ms) old = dec_members hsmStateOnly_fields ms (False, old)"
| "dec_state JNull old = (False, old)"
| "dec_state _ old = (True, old)"

fun dec_state_list :: "json list \<Rightarrow> hsmStateOnly list \<Rightarrow> bool \<times> hsmStateOnly list" where
  "dec_state_list [] _ = (False, [])"
| "dec_state_list (j # js) old =
     (case dec_state j (case old of [] \<Rightarrow> hsmStateOnly0 | x # _ \<Rightarrow> x) of (e, x) \<Rightarrow>
      case dec_state_list js (tl old) of (e', xs) \<Rightarrow> (e \<or> e', x # xs))"

fun dec_states :: "json \<Rightarrow> hsmStateOnly list \<Rightarrow> bool \<times> hsmStateOnly list" where
  "dec_states (JArr js) old = dec_state_list js old"
| "dec_states JNull _ = (False, [])"
| "dec_states _ old = (True, old)"

definition hsmStateArray_fields :: "hsmStateOnly list field_table" where
  "hsmStateArray_fields = [(''components'', dec_states)]"

text \<open>\<open>json.Unmarshal(body, &jdata)\<close>: whether there was an error, and \<open>jdata.Components\<close> after it.\<close>

definition unmarshal_states :: "string \<Rightarrow> hsmStateOnly list \<Rightarrow> bool \<times> hsmStateOnly list" where
  "unmarshal_states body jdata =
     (case parse_json body of
        None \<Rightarrow> (True, jdata)
      | Some JNull \<Rightarrow> (False, jdata)
      | Some (JObj ms) \<Rightarrow> dec_members hsmStateArray_fields ms (False, jdata)
      | Some _ \<Rightarrow> (True, jdata))"

section \<open>Operations\<close>

text \<open>The first loop; \<open>None\<close> while no attempt has succeeded.\<close>

fun deadwoodFetch :: "string option list \<Rightarrow> hsmStateOnly list \<Rightarrow> string list option" where
  "deadwoodFetch [] jdata = None"
| "deadwoodFetch (None # rest) jdata = deadwoodFetch rest jdata"
| "deadwoodFetch (Some body # rest) jdata =
     (case unmarshal_states body jdata of
        (True, jdata') \<Rightarrow> deadwoodFetch rest jdata'
      | (False, jdata') \<Rightarrow> Some (map hsID jdata'))"

text \<open>The second loop, with the set of the bad components as a list.\<close>

fun deadwoodLoop :: "string list \<Rightarrow> (string \<times> string) list \<Rightarrow> substate \<Rightarrow> bool \<times> substate" where
  "deadwoodLoop badMap [] st = (False, st)"
| "deadwoodLoop badMap ((key, val) # rest) st =
     (case go_nth (split_on KEY_DELIM key) 1 of
        None \<Rightarrow> (True, st)
      | Some xname \<Rightarrow>
          deadwoodLoop badMap rest
            (if xname \<in> set badMap then st\<lparr>ss_prune := gm_put xname True (ss_prune st)\<rparr> else st))"

text \<open>
  \<open>None\<close> when the attempts run out before one succeeds; otherwise whether it panicked, which ends
  the process, and the state.
\<close>

definition pruneDeadWood ::
  "opParams \<Rightarrow> string option list \<Rightarrow> substate \<Rightarrow> (bool \<times> substate) option" where
  "pruneDeadWood p attempts st =
     (if Nosm p \<noteq> 0 then Some (False, st)
      else case deadwoodFetch attempts [] of
        None \<Rightarrow> None
      | Some badMap \<Rightarrow> Some
          (case kvGetRange KEYRANGE_START KEYRANGE_END (ss_kv st) of
             (Inl _, kv1) \<Rightarrow> (False, st\<lparr>ss_kv := kv1\<rparr>)
           | (Inr kvlist, kv1) \<Rightarrow> deadwoodLoop badMap kvlist (st\<lparr>ss_kv := kv1\<rparr>)))"

section \<open>What it marks\<close>

lemma deadwoodLoop_run:
  "\<forall>kv \<in> set kvs. in_range (fst kv) \<Longrightarrow>
   \<exists>pm. deadwoodLoop bad kvs st = (False, st\<lparr>ss_prune := pm\<rparr>) \<and>
     (\<forall>n. gm_flag pm n \<longleftrightarrow>
        gm_flag (ss_prune st) n \<or> n \<in> set bad \<and> (\<exists>kv \<in> set kvs. key_component (fst kv) = n))"
proof (induction kvs arbitrary: st)
  case (Cons kv kvs)
  obtain key val where kv: "kv = (key, val)" by (cases kv)
  obtain xn ts where "split_on KEY_DELIM key = ''sub'' # xn # ts"
    using split_range_key [of key] Cons.prems kv unfolding in_range_def by auto
  then have n: "go_nth (split_on KEY_DELIM key) 1 = Some (key_component key)"
    by (simp add: go_nth_def key_component_def)
  let ?st = "if key_component key \<in> set bad
    then st\<lparr>ss_prune := gm_put (key_component key) True (ss_prune st)\<rparr> else st"
  obtain pm where pm: "deadwoodLoop bad kvs ?st = (False, ?st\<lparr>ss_prune := pm\<rparr>)"
    "\<And>n. gm_flag pm n \<longleftrightarrow>
        gm_flag (ss_prune ?st) n \<or> n \<in> set bad \<and> (\<exists>kv \<in> set kvs. key_component (fst kv) = n)"
    using Cons.IH [of ?st] Cons.prems by fastforce
  have "deadwoodLoop bad (kv # kvs) st = (False, st\<lparr>ss_prune := pm\<rparr>)"
    using pm(1) n kv by (auto split: if_splits)
  moreover have "gm_flag pm n \<longleftrightarrow> gm_flag (ss_prune st) n \<or>
      n \<in> set bad \<and> (\<exists>kv \<in> set (kv # kvs). key_component (fst kv) = n)" for n
    unfolding pm(2) by (auto simp: kv)
  ultimately show ?case by blast
next
  case Nil
  have "deadwoodLoop bad [] st = (False, st\<lparr>ss_prune := ss_prune st\<rparr>)" by simp
  then show ?case by (metis empty_iff list.set(1))
qed

lemma deadwood_hsmsub: "pruneDeadWood p attempts st = Some (c, st') \<Longrightarrow> ss_hsmsub st' = ss_hsmsub st"
proof -
  have "ss_hsmsub (snd (deadwoodLoop bad kvs st)) = ss_hsmsub st" for bad kvs and st :: substate
    by (induction bad kvs st rule: deadwoodLoop.induct) (auto split: option.splits)
  note loop = this
  have "ss_hsmsub (snd (the (pruneDeadWood p attempts st))) = ss_hsmsub st"
    if "pruneDeadWood p attempts st \<noteq> None"
    using that loop by (auto simp: pruneDeadWood_def split: option.split prod.split sum.split)
  then show "pruneDeadWood p attempts st = Some (c, st') \<Longrightarrow> ss_hsmsub st' = ss_hsmsub st" by simp
qed

lemma deadwood_run:
  assumes "store_up st" "Nosm p = 0" "deadwoodFetch attempts [] = Some bad"
  shows "\<exists>st1. pruneDeadWood p attempts st = Some (False, st1) \<and> store_up st1 \<and>
    kv_content (ss_kv st1) = kv_content (ss_kv st) \<and>
    (\<forall>n. gm_flag (ss_prune st1) n \<longleftrightarrow> gm_flag (ss_prune st) n \<or> n \<in> set bad \<and>
       (\<exists>k. in_range k \<and> kv_content (ss_kv st) k \<noteq> None \<and> key_component k = n))"
proof -
  obtain kvs kv1 where r: "kvGetRange KEYRANGE_START KEYRANGE_END (ss_kv st) = (Inr kvs, kv1)"
    and c: "kv_content kv1 = kv_content (ss_kv st)" and rel: "kv_ok kv1" "kv_reliable kv1"
    and mem: "\<And>k v. (k, v) \<in> set kvs \<longleftrightarrow> kv_content (ss_kv st) k = Some v \<and> in_range k"
    using kv.range_read [of "ss_kv st" KEYRANGE_START KEYRANGE_END] assms(1)
    unfolding in_range_def store_up_def by blast
  have "\<forall>kv \<in> set kvs. in_range (fst kv)" using mem by (metis prod.collapse)
  then obtain pm where pm: "deadwoodLoop bad kvs (st\<lparr>ss_kv := kv1\<rparr>) = (False, st\<lparr>ss_kv := kv1, ss_prune := pm\<rparr>)"
    "\<And>n. gm_flag pm n \<longleftrightarrow>
       gm_flag (ss_prune st) n \<or> n \<in> set bad \<and> (\<exists>kv \<in> set kvs. key_component (fst kv) = n)"
    using deadwoodLoop_run [of kvs bad "st\<lparr>ss_kv := kv1\<rparr>"] by auto
  have "(\<exists>kv \<in> set kvs. key_component (fst kv) = n) \<longleftrightarrow>
      (\<exists>k. in_range k \<and> kv_content (ss_kv st) k \<noteq> None \<and> key_component k = n)" for n
    using mem by force
  then show ?thesis
    using pm assms(2,3) r c rel by (auto simp: pruneDeadWood_def store_up_def)
qed

lemma prune_hit_marked:
  assumes "\<And>n. gm_flag pm' n \<longleftrightarrow> gm_flag pm n \<or> n \<in> B"
    and "\<forall>i \<in> B. SVC_DELIM \<notin> set i \<and> i \<noteq> ''bad_sub''"
  shows "prune_hit pm' k \<longleftrightarrow> prune_hit pm k \<or> key_component k \<in> B"
proof -
  have "pruneName x a \<notin> B" for x a
    using assms(2) by (auto simp: pruneName_def split: option.splits)
  then show ?thesis unfolding prune_hit_def assms(1) by blast
qed

section \<open>Properties\<close>

text \<open>
  On a store that answers, the start-up check keeps every subscription, and the next round
  of pruning removes exactly those whose component HSM reported (and those already due).
\<close>

lemma dead_wood_pruned:
  assumes "store_up st" "keys_readable st" "Nosm p = 0" "deadwoodFetch attempts [] = Some bad"
    and "\<forall>i \<in> set bad. SVC_DELIM \<notin> set i \<and> i \<noteq> ''bad_sub''"
  shows "\<exists>st1 st2. pruneDeadWood p attempts st = Some (False, st1) \<and>
    subscriptions st1 = subscriptions st \<and> prune_round st1 = (False, st2) \<and>
    subscriptions st2 = subscriptions st |`
      {k. \<not> (in_range k \<and> (prune_hit (ss_prune st) k \<or> key_component k \<in> set bad))}"
proof -
  obtain st1 where st1: "pruneDeadWood p attempts st = Some (False, st1)" "store_up st1"
    "kv_content (ss_kv st1) = kv_content (ss_kv st)"
    and flag: "\<And>n. gm_flag (ss_prune st1) n \<longleftrightarrow> gm_flag (ss_prune st) n \<or> n \<in> set bad \<inter>
       {n. \<exists>k. in_range k \<and> kv_content (ss_kv st) k \<noteq> None \<and> key_component k = n}"
    using deadwood_run [OF assms(1,3,4)] by auto
  have subs: "subscriptions st1 = subscriptions st"
    by (rule ext) (simp add: subscriptions_def st1)
  have "keys_readable st1" using assms(2) st1(3) by (simp add: keys_readable_def)
  then obtain st2 where p: "prune_round st1 = (False, st2)"
    "subscriptions st2 = subscriptions st1 |` {k. \<not> (in_range k \<and> prune_hit (ss_prune st1) k)}"
    using prune_round_run [OF st1(2)] by blast
  have hit: "prune_hit (ss_prune st1) k \<longleftrightarrow> prune_hit (ss_prune st) k \<or> key_component k \<in> set bad"
    if "in_range k" "subscriptions st k \<noteq> None" for k
  proof -
    have "kv_content (ss_kv st) k \<noteq> None" 
      using that(2) by (cases "kv_content (ss_kv st) k") (simp_all add: subscriptions_def)
    then show ?thesis using that(1) prune_hit_marked [OF flag, of k] assms(5) by blast
  qed
  have "subscriptions st2 = subscriptions st |`
      {k. \<not> (in_range k \<and> (prune_hit (ss_prune st) k \<or> key_component k \<in> set bad))}"
    unfolding p(2) subs by (rule ext) (use hit in \<open>fastforce simp: restrict_map_def\<close>)
  then show ?thesis using st1(1) subs p(1) by blast
qed

definition ex_hsm_body :: string where
  "ex_hsm_body = ''{\"Components\":[{\"ID\":\"x0c0s0b0n0\",\"State\":\"Off\",\"Type\":\"Node\"}]}''"

lemma dead_wood_pruned_example:
  "\<exists>st1 st2. pruneDeadWood (default_params\<lparr>Nosm := 0\<rparr>) [None, Some ''oops'', Some ex_hsm_body] ex_one =
       Some (False, st1) \<and> subscriptions st1 ex_key \<noteq> None \<and>
     prune_round st1 = (False, st2) \<and> subscriptions st2 ex_key = None"
proof -
  have f: "deadwoodFetch [None, Some ''oops'', Some ex_hsm_body] [] = Some [''x0c0s0b0n0'']"
    by code_simp
  have k: "key_component ex_key = ''x0c0s0b0n0''" "subscriptions ex_one ex_key \<noteq> None" by code_simp+
  show ?thesis
    using dead_wood_pruned [OF ex_up(2) ex_readable(1), of "default_params\<lparr>Nosm := 0\<rparr>", OF _ f] k ex_in_range
    by (fastforce simp: restrict_map_def)
qed

text \<open>
  The status of the reply is not looked at: a body that is any JSON object without a Components
  member, such as the problem report of an error status, ends the start-up check at once.
\<close>

lemma dead_wood_error_reply:
  assumes "store_up st" "Nosm p = 0" "jok (JObj ms)" "\<forall>(k, v) \<in> set ms. to_lower k \<noteq> ''components''"
  shows "\<exists>st1. pruneDeadWood p (Some (jprint (JObj ms)) # later) st = Some (False, st1) \<and>
    (\<forall>n. gm_flag (ss_prune st1) n \<longleftrightarrow> gm_flag (ss_prune st) n)"
proof -
  have "dec_members hsmStateArray_fields ms (False, []) = (False, [])"
    using assms(4) by (induction ms) (auto simp: hsmStateArray_fields_def)
  then have "deadwoodFetch (Some (jprint (JObj ms)) # later) [] = Some []"
    using parse_jprint [OF assms(3)] by (simp add: unmarshal_states_def del: jprint.simps)
  from deadwood_run [OF assms(1,2) this] show ?thesis by auto
qed

end
