(* ===== verification/StoreInv.thy ===== *)
theory StoreInv
  imports Deadwood
begin

text \<open>
  What every operation of the program does to the store: the entries under the keys of subscriptions
  that it adds can be read and taken apart in each of the three ways the program does it, the health key stays as it
  is, and a store that answers still answers. \<open>kv_moves\<close> says this of a pair of stores; it is reflexive
  and transitive, so a handler inherits it from the calls it makes, whatever they come back with.
\<close>

section \<open>Sound entries\<close>

definition sub_key :: "string \<Rightarrow> bool" where
  "sub_key k \<longleftrightarrow> take 4 k = ''sub#''"

definition entry_ok :: "string \<Rightarrow> string \<Rightarrow> bool" where
  "entry_ok k v \<longleftrightarrow> keyService k \<noteq> None \<and> keyServicePatch k \<noteq> None \<and> subinfo_of_key k \<noteq> None \<and>
     (\<exists>sd. unmarshal_SubData v = Some sd \<and> sdScnNodes sd \<noteq> [])"

definition sound_store :: "kvs \<Rightarrow> bool" where
  "sound_store s \<longleftrightarrow> kv_ok s \<and> (\<forall>k v. sub_key k \<longrightarrow> kv_content s k = Some v \<longrightarrow> entry_ok k v)"

definition kv_moves :: "kvs \<Rightarrow> kvs \<Rightarrow> bool" where
  "kv_moves s s' \<longleftrightarrow> (kv_ok s \<longrightarrow> kv_ok s') \<and> (kv_reliable s \<longrightarrow> kv_reliable s') \<and>
     (\<forall>k v. sub_key k \<longrightarrow> kv_content s' k = Some v \<longrightarrow> kv_content s k = Some v \<or> entry_ok k v) \<and>
     kv_content s' ''HMNFD_HEALTH_KEY'' = kv_content s ''HMNFD_HEALTH_KEY''"

lemma kv_moves_refl [simp, intro]: "kv_moves s s"
  by (simp add: kv_moves_def)

lemma kv_moves_trans [trans]: "kv_moves s t \<Longrightarrow> kv_moves t u \<Longrightarrow> kv_moves s u"
  unfolding kv_moves_def by metis

lemma kv_moves_sound: "kv_moves s s' \<Longrightarrow> sound_store s \<Longrightarrow> sound_store s'"
  unfolding kv_moves_def sound_store_def by blast

lemma kv_moves_same:
  "kv_content s' = kv_content s \<Longrightarrow> (kv_ok s \<Longrightarrow> kv_ok s') \<Longrightarrow> (kv_reliable s \<Longrightarrow> kv_reliable s') \<Longrightarrow> kv_moves s s'"
  by (simp add: kv_moves_def)

lemma kv_moves_get: "kv_moves s (snd (kvGet k s))"
  by (rule kv_moves_same [OF kv.get_frame kv.ok_keep(1) kv.reliable_keep(1)])

lemma kv_moves_range: "kv_moves s (snd (kvGetRange lo hi s))"
  by (rule kv_moves_same [OF kv.range_frame kv.ok_keep(2) kv.reliable_keep(2)])

lemma sub_key_health: "sub_key k \<Longrightarrow> k \<noteq> ''HMNFD_HEALTH_KEY''"
  by (auto simp: sub_key_def)

lemma kv_moves_delete:
  assumes "k \<noteq> ''HMNFD_HEALTH_KEY''"
  shows "kv_moves s (snd (kvDelete k s))"
  unfolding kv_moves_def
proof (intro conjI allI impI)
  fix j v
  assume "kv_content (snd (kvDelete k s)) j = Some v"
  then have "kv_content s j = Some v"
    using kv.delete_submap [of k s] by (metis domI map_le_def)
  then show "kv_content s j = Some v \<or> entry_ok j v" ..
qed (use assms kv.delete_frame kv.ok_keep(4) kv.reliable_keep(4) in auto)

lemma kv_store_here: "kv_content (snd (kvStore k v s)) k \<in> {kv_content s k, Some v}"
  using kv.store_ok [of k v s] kv.store_err [of k v s] by (cases "kvStore k v s"; cases "fst (kvStore k v s)") auto

lemma kv_moves_store:
  assumes "k \<noteq> ''HMNFD_HEALTH_KEY''" "sub_key k \<Longrightarrow> entry_ok k v"
  shows "kv_moves s (snd (kvStore k v s))"
  unfolding kv_moves_def
proof (intro conjI allI impI)
  fix j w
  assume j: "sub_key j" "kv_content (snd (kvStore k v s)) j = Some w"
  show "kv_content s j = Some w \<or> entry_ok j w"
  proof (cases "j = k")
    case True
    then show ?thesis using j assms(2) kv_store_here [of k v s] by auto
  next
    case False
    then show ?thesis using j(2) kv.store_frame [of j k v s] by simp
  qed
qed (use assms kv.store_frame kv.ok_keep(3) kv.reliable_keep(3) in auto)

text \<open>What a range of subscription keys gives.\<close>

lemma prefix_between:
  "(p :: string) \<le> k \<Longrightarrow> k \<le> p @ [c] \<Longrightarrow> \<exists>r. k = p @ r"
proof (induction p arbitrary: k)
  case (Cons a p)
  then obtain k' where "k = a # k'" by (cases k) (auto split: if_splits)
  then show ?case using Cons by auto
qed simp

lemma range_sub_keys:
  assumes "kvGetRange lo hi s = (Inr kvs, s')" "\<And>k. lo \<le> k \<Longrightarrow> k \<le> hi \<Longrightarrow> sub_key k"
    and "(k, v) \<in> set kvs"
  shows "sub_key k"
  using assms by (auto simp: kvGetRange_def split: prod.splits if_splits)

lemma range_entries:
  assumes "kvGetRange lo hi s = (Inr kvs, s')" "\<And>k. lo \<le> k \<Longrightarrow> k \<le> hi \<Longrightarrow> sub_key k" "sound_store s"
  shows "\<forall>(k, v) \<in> set kvs. entry_ok k v"
  using kv.range_mem_iff [OF _ assms(1)] assms(2,3) by (auto simp: sound_store_def)

lemma in_range_sub_key: "KEYRANGE_START \<le> k \<Longrightarrow> k \<le> KEYRANGE_END \<Longrightarrow> sub_key k"
  using range_key_prefix [of k] by (auto simp: sub_key_def)

section \<open>Clean subscriptions\<close>

text \<open>
  A subscription is clean when its parts have neither of the two delimiters nor the text svc.
\<close>

definition clean_sub :: "ScnSubscribe \<Rightarrow> string \<Rightarrow> string \<Rightarrow> bool" where
  "clean_sub j xn svc \<longleftrightarrow> plain_sub j xn svc \<and> tag_free ''svc'' j xn"

lemma makeKey_sub_key [simp]: "sub_key (makeSubscriptionKey_V2 j xn svc)"
  by (simp add: makeKey_join sub_key_def join_eq_concat)

lemma clean_entry:
  "clean_sub j xn svc \<Longrightarrow> subComponents j \<noteq> [] \<Longrightarrow>
   entry_ok (makeSubscriptionKey_V2 j xn svc) (marshal_SubData \<lparr>sdUrl = u, sdScnNodes = subComponents j\<rparr>)"
  using makeKey_taken_apart [of j xn svc] by (simp add: clean_sub_def entry_ok_def SubData_round)

section \<open>The handlers\<close>

lemma storeNew_moves:
  assumes "sub_key key" "entry_ok key (marshal_SubData \<lparr>sdUrl = subUrl j, sdScnNodes = subComponents j\<rparr>)"
  shows "kv_moves (ss_kv st) (ss_kv (snd (storeNew e j key w st)))"
proof -
  obtain r kv1 where g: "kvGet key (ss_kv st) = (r, kv1)" by force
  obtain err kv2 where p: "makeSubscriptionEntry (subComponents j) (subUrl j) key kv1 = (err, kv2)" by force
  have m1: "kv_moves (ss_kv st) kv1" using kv_moves_get [of "ss_kv st" key] g by simp
  have "kv_moves kv1 kv2"
    using kv_moves_store [of key "marshal_SubData \<lparr>sdUrl = subUrl j, sdScnNodes = subComponents j\<rparr>" kv1]
      assms sub_key_health p by (auto simp: makeSubscriptionEntry_def)
  with m1 have "kv_moves (ss_kv st) kv2" by (rule kv_moves_trans)
  with m1 g p show ?thesis by (simp add: storeNew_def split: sum.split option.split)
qed

lemma replaceEntry_moves:
  assumes "sub_key key" "sub_key exKey"
    "entry_ok exKey (marshal_SubData \<lparr>sdUrl = subUrl j, sdScnNodes = subComponents j\<rparr>)"
  shows "kv_moves (ss_kv st) (ss_kv (snd (replaceEntry e c j key exKey w st)))"
proof -
  obtain err kv1 where d: "kvDelete key (ss_kv st) = (err, kv1)" by force
  have m1: "kv_moves (ss_kv st) kv1"
    using kv_moves_delete [of key "ss_kv st"] d assms(1) sub_key_health by fastforce
  have store: "kv_moves s (snd (makeSubscriptionEntry (subComponents j) (subUrl j) exKey s))" for s
    using kv_moves_store assms(2,3) sub_key_health unfolding makeSubscriptionEntry_def by blast
  show ?thesis
    using m1 store [of "ss_kv st"] kv_moves_trans [OF m1 store] d
    by (cases "exKey = key") (auto simp: replaceEntry_def)
qed

lemma replaceEntry_total: "\<exists>y. fst (replaceEntry e c j k exKey w st) = Some y"
  by (auto simp: replaceEntry_def split: prod.splits)

lemma patchLoop_moves:
  assumes "sub_key exKey" "entry_ok exKey (marshal_SubData \<lparr>sdUrl = subUrl j, sdScnNodes = subComponents j\<rparr>)"
  shows "\<forall>(k, v) \<in> set kvs. sub_key k \<Longrightarrow>
    kv_moves (ss_kv st) (ss_kv (snd (patchLoop e c hit exKey j kvs w st)))"
proof (induction kvs)
  case (Cons kv kvs)
  then show ?case
    using replaceEntry_moves [OF _ assms]
    by (cases kv) (auto split: option.splits prod.splits)
qed simp

lemma patchLoop_total:
  "\<forall>(k, v) \<in> set kvs. entry_ok k v \<Longrightarrow> fst (patchLoop e c hit exKey j kvs w st) \<noteq> None"
proof (induction kvs)
  case (Cons kv kvs)
  obtain k v where kv: "kv = (k, v)" by force
  obtain x a where k: "keyServicePatch k = Some (x, a)" using Cons.prems by (auto simp: kv entry_ok_def)
  then show ?case using Cons replaceEntry_total by (auto simp: kv split: option.splits)
qed simp

lemma deleteEntry_moves: "sub_key k \<Longrightarrow> kv_moves (ss_kv st) (ss_kv (deleteEntry k n st))"
  using kv_moves_delete [of k "ss_kv st"] sub_key_health by (auto simp: deleteEntry_kv)

lemma deleteLoop_v1_moves:
  "\<forall>(k, v) \<in> set kvs. sub_key k \<Longrightarrow> kv_moves (ss_kv st) (ss_kv (snd (deleteLoop_v1 e j kvs w st)))"
proof (induction kvs arbitrary: st)
  case (Cons kv kvs)
  obtain key val where kv: "kv = (key, val)" by force
  have keep: "kv_moves (ss_kv st) (ss_kv (snd (deleteLoop_v1 e j kvs w st)))"
    using Cons by simp
  have del: "kv_moves (ss_kv st) (ss_kv (snd (deleteLoop_v1 e j kvs w (deleteEntry key n st))))" for n
    using Cons by (auto simp: kv intro: kv_moves_trans [OF deleteEntry_moves])
  show ?case using keep del by (simp add: kv split: option.split prod.split)
qed simp

lemma deleteLoop_v1_total:
  "\<forall>(k, v) \<in> set kvs. entry_ok k v \<Longrightarrow> fst (deleteLoop_v1 e j kvs w st) \<noteq> None"
  by (induction e j kvs w st rule: deleteLoop_v1.induct)
     (auto simp: entry_ok_def split: option.splits prod.splits)

lemma deleteLoop_v2_moves:
  "\<forall>(k, v) \<in> set kvs. sub_key k \<Longrightarrow> kv_moves (ss_kv st) (ss_kv (snd (deleteLoop_v2 hit kvs m st)))"
proof (induction kvs arbitrary: st m)
  case (Cons kv kvs)
  obtain key val where kv: "kv = (key, val)" by force
  have keep: "kv_moves (ss_kv st) (ss_kv (snd (deleteLoop_v2 hit kvs m st)))"
    using Cons by simp
  have del: "kv_moves (ss_kv st) (ss_kv (snd (deleteLoop_v2 hit kvs m' (deleteEntry key n st))))" for n m'
    using Cons by (auto simp: kv intro: kv_moves_trans [OF deleteEntry_moves])
  show ?case using keep del by (simp add: kv split: option.split prod.split)
qed simp

lemma deleteLoop_v2_total:
  "\<forall>(k, v) \<in> set kvs. entry_ok k v \<Longrightarrow> fst (deleteLoop_v2 hit kvs m st) \<noteq> None"
  by (induction hit kvs m st rule: deleteLoop_v2.induct)
     (auto simp: entry_ok_def split: option.splits prod.splits)

lemma listLoop_total:
  "\<forall>(k, v) \<in> set kvs. entry_ok k v \<Longrightarrow> listLoop want kvs acc \<noteq> None"
proof (induction want kvs acc rule: listLoop.induct)
  case (2 want key val rest acc)
  obtain x where "go_nth (split_on KEY_DELIM key) 1 = Some x"
    using 2(3) by (auto simp: entry_ok_def keyService_def split: bind_splits)
  moreover obtain info where "subinfo_of_key key = Some info" using 2(3) by (auto simp: entry_ok_def)
  ultimately show ?case using 2 by (auto split: option.split)
qed simp

text \<open>What holds of a handler's result: it moves the store as above and does not panic on a sound one.\<close>

definition handled :: "substate \<Rightarrow> 'a option \<times> substate \<Rightarrow> bool" where
  "handled st res \<longleftrightarrow> kv_moves (ss_kv st) (ss_kv (snd res)) \<and>
     (sound_store (ss_kv st) \<longrightarrow> fst res \<noteq> None)"

lemma handled_reply [simp]: "handled st (Some w, st)"
  by (simp add: handled_def)

lemma handled_kv: "kv_moves (ss_kv st) s \<Longrightarrow> handled st (Some w, st\<lparr>ss_kv := s\<rparr>)"
  by (simp add: handled_def)

text \<open>A handler that reads a range of subscription keys and goes on with what it got.\<close>

lemma handled_range:
  assumes "kvGetRange lo hi (ss_kv st) = (Inr kvs, kv1)" "\<And>k. lo \<le> k \<Longrightarrow> k \<le> hi \<Longrightarrow> sub_key k"
    and "\<forall>(k, v) \<in> set kvs. sub_key k \<Longrightarrow> kv_moves kv1 (ss_kv (snd res))"
    and "\<forall>(k, v) \<in> set kvs. entry_ok k v \<Longrightarrow> fst res \<noteq> None"
  shows "handled st res"
proof -
  have "kv_moves (ss_kv st) kv1" using kv_moves_range [of "ss_kv st" lo hi] assms(1) by simp
  moreover have "\<forall>(k, v) \<in> set kvs. sub_key k" using range_sub_keys [OF assms(1,2)] by auto
  ultimately show ?thesis
    using assms(3,4) range_entries [OF assms(1,2)] kv_moves_trans unfolding handled_def by blast
qed

lemma range_failed: "kvGetRange lo hi s = (Inl e, kv1) \<Longrightarrow> kv_moves s kv1"
  using kv_moves_range [of s lo hi] by simp

definition v1_name :: "ScnSubscribe \<Rightarrow> string \<times> string" where
  "v1_name j =
     (let toks = split_on SVC_DELIM (subSubscriber j) in
      if 1 < length toks then (to_lower (toks ! 1), to_lower (toks ! 0))
      else (to_lower (subSubscriber j), []))"

lemma makeKey_V1: "makeSubscriptionKey_V1 j = makeSubscriptionKey_V2 j (fst (v1_name j)) (snd (v1_name j))"
  by (simp add: makeSubscriptionKey_V1_def v1_name_def Let_def)

definition clean_v1 :: "request \<Rightarrow> bool" where
  "clean_v1 r \<longleftrightarrow> (case unmarshal_ScnSubscribe (to_lower (rq_body r)) of
     None \<Rightarrow> True | Some j \<Rightarrow> clean_sub j (fst (v1_name j)) (snd (v1_name j)))"

definition clean_v2 :: "request \<Rightarrow> bool" where
  "clean_v2 r \<longleftrightarrow> (case unmarshal_ScnSubscribe (to_lower (rq_body r)) of
     None \<Rightarrow> True | Some j \<Rightarrow> clean_sub j (VerifyNormalizeCompID (rq_var r ''xname'')) (rq_var r ''agent''))"

text \<open>The v2 PATCH does not check that there are components.\<close>

definition has_components :: "request \<Rightarrow> bool" where
  "has_components r \<longleftrightarrow> (case unmarshal_ScnSubscribe (to_lower (rq_body r)) of
     None \<Rightarrow> True | Some j \<Rightarrow> subComponents j \<noteq> [])"

lemma storeNew_handled:
  "clean_sub j xn svc \<Longrightarrow> subComponents j \<noteq> [] \<Longrightarrow> handled st (storeNew e j (makeSubscriptionKey_V2 j xn svc) w st)"
  using storeNew_moves clean_entry by (auto simp: handled_def)

lemma check_components:
  "checkSubscription_v1 j = None \<Longrightarrow> subComponents j \<noteq> []" "checkSubscription_v2 j = None \<Longrightarrow> subComponents j \<noteq> []"
  by (auto simp: checkSubscription_v1_def checkSubscription_v2_def split: if_splits)

lemma subscriber_slice:
  "index_of s [c] \<noteq> - 1 \<Longrightarrow> slice_from s (index_of s [c] + 1) \<noteq> None"
proof -
  assume "index_of s [c] \<noteq> - 1"
  then have "0 \<le> index_of s [c]" using index_of_ge_m1 [of s "[c]"] by linarith
  then show ?thesis using index_of_bound [of s "[c]"] by (simp add: slice_from_def)
qed

lemma doSubscribePost_handled:
  assumes "clean_v1 r"
  shows "handled st (doSubscribePost r st)"
proof (cases "rq_err r \<or> unmarshal_ScnSubscribe (to_lower (rq_body r)) = None")
  case False
  then obtain j where j: "\<not> rq_err r" "unmarshal_ScnSubscribe (to_lower (rq_body r)) = Some j" by blast
  let ?ix = "index_of (subSubscriber j) [SVC_DELIM]"
  obtain x where x: "(if ?ix \<noteq> - 1 then slice_from (subSubscriber j) (?ix + 1)
      else Some (subSubscriber j)) = Some x"
    using subscriber_slice [of "subSubscriber j" SVC_DELIM] by (cases "?ix = - 1") auto
  have "handled st (storeNew e j (makeSubscriptionKey_V1 j) w st)" if "checkSubscription_v1 j = None" for e w
    using assms j check_components(1) [OF that] storeNew_handled by (simp add: clean_v1_def makeKey_V1)
  moreover have "doSubscribePost r st = (case checkSubscription_v1 j of
      Some err \<Rightarrow> (Some (invalid ''/subscribe'' err new_writer), st)
    | None \<Rightarrow> if \<not> hmsTypeValid x
        then (Some (invalid ''/subscribe'' ''Subcriber field is not a valid XName'' new_writer), st)
        else storeNew ''/subscribe'' j (makeSubscriptionKey_V1 j) new_writer st)"
    by (simp only: doSubscribePost_def Let_def j x option.case if_False)
  ultimately show ?thesis by (simp split: option.split)
qed (auto simp: doSubscribePost_def Let_def)

lemma agentPost_handled:
  assumes "clean_v2 r"
  shows "handled st (subscriptionsAgentPostHandler r st)"
  using assms storeNew_handled check_components(2)
  by (auto simp: subscriptionsAgentPostHandler_def clean_v2_def Let_def split: option.split)

lemma patchRange_sub_keys:
  "patchRange j = Some (lo, hi) \<Longrightarrow> lo \<le> k \<Longrightarrow> k \<le> hi \<Longrightarrow> sub_key k"
  using patchRange_total [of j] prefix_between [of lo k "CHR ''z''"] by (auto simp: sub_key_def)

lemma patch_handled:
  assumes "patchRange j = Some (lo, hi)" "kvGetRange lo hi (ss_kv st) = (Inr kvs, kv1)"
    and "clean_sub j xn svc" "subComponents j \<noteq> []"
  shows "handled st (patchLoop e c hit (makeSubscriptionKey_V2 j xn svc) j kvs w (st\<lparr>ss_kv := kv1\<rparr>))"
proof (rule handled_range [OF assms(2) patchRange_sub_keys [OF assms(1)]])
  note m = patchLoop_moves [OF makeKey_sub_key clean_entry [OF assms(3,4)]]
  show "\<forall>(k, v) \<in> set kvs. sub_key k \<Longrightarrow>
      kv_moves kv1 (ss_kv (snd (patchLoop e c hit (makeSubscriptionKey_V2 j xn svc) j kvs w (st\<lparr>ss_kv := kv1\<rparr>))))"
    using m [of kvs "st\<lparr>ss_kv := kv1\<rparr>"] by simp
qed (rule patchLoop_total | assumption)+

lemma doSubscribePatch_handled:
  assumes "clean_v1 r"
  shows "handled st (doSubscribePatch r st)"
proof (cases "unmarshal_ScnSubscribe (to_lower (rq_body r))")
  case (Some j)
  obtain lo hi where pr: "patchRange j = Some (lo, hi)" using patchRange_total by blast
  obtain res kv1 where g: "kvGetRange lo hi (ss_kv st) = (res, kv1)" by force
  have "handled st (patchLoop e c hit (makeSubscriptionKey_V1 j) j kvs w (st\<lparr>ss_kv := kv1\<rparr>))"
    if "checkSubscription_v1 j = None" "res = Inr kvs" for e c hit kvs w
    using patch_handled [OF pr g [unfolded that(2)]] assms Some check_components(1) [OF that(1)]
    by (simp add: clean_v1_def makeKey_V1)
  then show ?thesis
    using Some pr g range_failed [of lo hi "ss_kv st"]
    by (auto simp: doSubscribePatch_def Let_def intro: handled_kv split: option.split sum.split)
qed (simp add: doSubscribePatch_def Let_def)

lemma agentPatch_handled:
  assumes "clean_v2 r" "has_components r"
  shows "handled st (subscriptionsAgentPatchHandler r st)"
proof (cases "unmarshal_ScnSubscribe (to_lower (rq_body r))")
  case (Some j)
  obtain lo hi where pr: "patchRange j = Some (lo, hi)" using patchRange_total by blast
  obtain res kv1 where g: "kvGetRange lo hi (ss_kv st) = (res, kv1)" by force
  have "handled st (patchLoop e c hit
      (makeSubscriptionKey_V2 j (VerifyNormalizeCompID (rq_var r ''xname'')) (rq_var r ''agent'')) j kvs w
      (st\<lparr>ss_kv := kv1\<rparr>))"
    if "res = Inr kvs" for e c hit kvs w
    using patch_handled [OF pr g [unfolded that]] assms Some by (simp add: clean_v2_def has_components_def)
  then show ?thesis
    using Some pr g range_failed [of lo hi "ss_kv st"]
    by (auto simp: subscriptionsAgentPatchHandler_def Let_def intro: handled_kv split: sum.split)
qed (simp add: subscriptionsAgentPatchHandler_def Let_def)

lemma sub_range: "KEYRANGE_START \<le> k \<Longrightarrow> k \<le> KEYRANGE_END \<Longrightarrow> sub_key k"
  by (rule in_range_sub_key)

lemma deleteLoop_v1_handled:
  assumes "kvGetRange KEYRANGE_START KEYRANGE_END (ss_kv st) = (Inr kvs, kv1)"
  shows "handled st (deleteLoop_v1 e j kvs w (st\<lparr>ss_kv := kv1\<rparr>))"
proof (rule handled_range [OF assms sub_range])
  show "\<forall>(k, v) \<in> set kvs. sub_key k \<Longrightarrow>
      kv_moves kv1 (ss_kv (snd (deleteLoop_v1 e j kvs w (st\<lparr>ss_kv := kv1\<rparr>))))"
    using deleteLoop_v1_moves [of kvs "st\<lparr>ss_kv := kv1\<rparr>"] by simp
qed (rule deleteLoop_v1_total | assumption)+

lemma doSubscribeDelete_handled: "handled st (doSubscribeDelete r st)"
proof -
  obtain res kv1 where g: "kvGetRange KEYRANGE_START KEYRANGE_END (ss_kv st) = (res, kv1)" by force
  then show ?thesis
    using range_failed [of KEYRANGE_START KEYRANGE_END "ss_kv st"] deleteLoop_v1_handled [of st _ kv1]
    by (cases res) (simp_all add: doSubscribeDelete_def Let_def handled_kv split: option.split)
qed

lemma deleteLoop_v2_handled:
  assumes "kvGetRange KEYRANGE_START KEYRANGE_END (ss_kv st) = (Inr kvs, kv1)"
  shows "handled st (deleteLoop_v2 hit kvs m (st\<lparr>ss_kv := kv1\<rparr>))"
proof (rule handled_range [OF assms sub_range])
  show "\<forall>(k, v) \<in> set kvs. sub_key k \<Longrightarrow>
      kv_moves kv1 (ss_kv (snd (deleteLoop_v2 hit kvs m (st\<lparr>ss_kv := kv1\<rparr>))))"
    using deleteLoop_v2_moves [of kvs "st\<lparr>ss_kv := kv1\<rparr>"] by simp
qed (rule deleteLoop_v2_total | assumption)+

lemma agentDelete_handled: "handled st (subscriptionsAgentDeleteHandler r st)"
proof -
  obtain res kv1 where g: "kvGetRange KEYRANGE_START KEYRANGE_END (ss_kv st) = (res, kv1)" by force
  show ?thesis
  proof (cases res)
    case (Inl e)
    then show ?thesis
      using g range_failed [of KEYRANGE_START KEYRANGE_END "ss_kv st"]
      by (simp add: subscriptionsAgentDeleteHandler_def Let_def handled_kv)
  next
    case (Inr kvs)
    let ?d = "deleteLoop_v2 (\<lambda>subXName subAgent. VerifyNormalizeCompID (rq_var r ''xname'') = subXName \<and>
        rq_var r ''agent'' = subAgent) kvs False (st\<lparr>ss_kv := kv1\<rparr>)"
    obtain m st' where d: "?d = (m, st')" by force
    then have "handled st (m, st')" using deleteLoop_v2_handled [OF g [unfolded Inr]] by metis
    then show ?thesis
      using g Inr d by (cases m) (simp_all add: subscriptionsAgentDeleteHandler_def Let_def handled_def)
  qed
qed

lemma xnameDelete_handled: "handled st (subscriptionsXNameDeleteHandler r st)"
proof -
  obtain res kv1 where g: "kvGetRange KEYRANGE_START KEYRANGE_END (ss_kv st) = (res, kv1)" by force
  show ?thesis
  proof (cases res)
    case (Inl e)
    then show ?thesis
      using g range_failed [of KEYRANGE_START KEYRANGE_END "ss_kv st"]
      by (simp add: subscriptionsXNameDeleteHandler_def Let_def handled_kv)
  next
    case (Inr kvs)
    let ?d = "deleteLoop_v2 (\<lambda>subXName subAgent. VerifyNormalizeCompID (rq_var r ''xname'') = subXName) kvs False (st\<lparr>ss_kv := kv1\<rparr>)"
    obtain m st' where d: "?d = (m, st')" by force
    then have "handled st (m, st')" using deleteLoop_v2_handled [OF g [unfolded Inr]] by metis
    then show ?thesis
      using g Inr d by (cases m) (simp_all add: subscriptionsXNameDeleteHandler_def Let_def handled_def)
  qed
qed

lemma listReply_handled: "handled st (listReply e want w st)"
proof -
  obtain res kv1 where g: "kvGetRange KEYRANGE_START KEYRANGE_END (ss_kv st) = (res, kv1)" by force
  have m: "kv_moves (ss_kv st) kv1" using kv_moves_range [of "ss_kv st" KEYRANGE_START KEYRANGE_END] g by simp
  have "listLoop want kvs [] \<noteq> None" if "res = Inr kvs" "sound_store (ss_kv st)" for kvs
    using listLoop_total range_entries [OF g [unfolded that(1)] sub_range that(2)] by blast
  then show ?thesis
    using g m by (auto simp: listReply_def handled_def split: option.split sum.split)
qed

lemma subscriptionsHandler_handled: "handled st (subscriptionsHandler r st)"
  by (simp add: subscriptionsHandler_def Let_def listReply_handled)

lemma xnameGet_handled: "handled st (subscriptionsXNameGetHandler r st)"
  by (simp add: subscriptionsXNameGetHandler_def Let_def listReply_handled)

section \<open>The goroutines\<close>

lemma doScnLoop_total:
  "\<forall>(k, v) \<in> set kvs. entry_ok k v \<Longrightarrow> \<not> fst (doScnLoop jdata prune pm kvs jobs)"
proof (induction kvs arbitrary: jobs)
  case (Cons kv kvs)
  obtain key val where kv: "kv = (key, val)" by force
  obtain x where x: "go_nth (split_on KEY_DELIM key) 1 = Some x"
    using Cons.prems by (auto simp: kv entry_ok_def keyService_def split: bind_splits)
  obtain sd where sd: "unmarshal_SubData val = Some sd" "sdScnNodes sd \<noteq> []"
    using Cons.prems by (auto simp: kv entry_ok_def)
  show ?case
    using Cons x sd intersect_wanted [OF sd(2)] by (simp add: kv Let_def)
qed simp

lemma doScn_safe:
  "kv_moves (ss_kv st) (ss_kv (snd (doScn jdata st))) \<and>
   (sound_store (ss_kv st) \<longrightarrow> \<not> fst (fst (doScn jdata st)))"
proof -
  obtain res kv1 where g: "kvGetRange KEYRANGE_START KEYRANGE_END (ss_kv st) = (res, kv1)" by force
  have m: "kv_moves (ss_kv st) kv1" using kv_moves_range [of "ss_kv st" KEYRANGE_START KEYRANGE_END] g by simp
  have "\<not> fst (doScnLoop jdata prune pm kvs [])" if "res = Inr kvs" "sound_store (ss_kv st)" for kvs prune pm
    using doScnLoop_total range_entries [OF g [unfolded that(1)] sub_range that(2)] by blast
  then show ?thesis using g m by (auto simp: doScn_def Let_def split: sum.split)
qed

lemma subPruneLoop_moves:
  "\<forall>(k, v) \<in> set kvs. sub_key k \<Longrightarrow> kv_moves (ss_kv st) (ss_kv (snd (subPruneLoop kvs st)))"
proof (induction kvs arbitrary: st)
  case (Cons kv kvs)
  obtain key val where kv: "kv = (key, val)" by force
  have keep: "kv_moves (ss_kv st) (ss_kv (snd (subPruneLoop kvs st)))" using Cons by simp
  have "kv_moves (ss_kv st) (snd (kvDelete key (ss_kv st)))"
    using kv_moves_delete sub_key_health Cons.prems by (auto simp: kv)
  then have del: "kv_moves (ss_kv st) (ss_kv (snd (subPruneLoop kvs (st\<lparr>ss_kv := snd (kvDelete key (ss_kv st))\<rparr>))))"
    using Cons.prems kv_moves_trans [OF _ Cons.IH [of "st\<lparr>ss_kv := snd (kvDelete key (ss_kv st))\<rparr>"]]
    by simp
  show ?case using keep del by (simp add: kv split: option.split prod.split)
qed simp

lemma subPruneLoop_total: "\<forall>(k, v) \<in> set kvs. entry_ok k v \<Longrightarrow> \<not> fst (subPruneLoop kvs st)"
  by (induction kvs st rule: subPruneLoop.induct) (auto simp: entry_ok_def split: option.splits)

lemma subPrune_safe:
  "kv_moves (ss_kv st) (ss_kv (snd (subPrune st))) \<and> (sound_store (ss_kv st) \<longrightarrow> \<not> fst (subPrune st))"
proof -
  obtain res kv1 where g: "kvGetRange KEYRANGE_START KEYRANGE_END (ss_kv st) = (res, kv1)" by force
  have m: "kv_moves (ss_kv st) kv1" using kv_moves_range [of "ss_kv st" KEYRANGE_START KEYRANGE_END] g by simp
  have "kv_moves (ss_kv st) (ss_kv (snd (subPruneLoop kvs (st\<lparr>ss_kv := kv1\<rparr>))))" if "res = Inr kvs" for kvs
    using kv_moves_trans [OF m] subPruneLoop_moves [of kvs "st\<lparr>ss_kv := kv1\<rparr>"]
      range_sub_keys [OF g [unfolded that] sub_range] by auto
  moreover have "\<not> fst (subPruneLoop kvs (st\<lparr>ss_kv := kv1\<rparr>))" if "res = Inr kvs" "sound_store (ss_kv st)" for kvs
    using subPruneLoop_total range_entries [OF g [unfolded that(1)] sub_range that(2)] by blast
  ultimately show ?thesis using g m by (auto simp: subPrune_def split: sum.split)
qed

lemma prune_round_safe:
  "kv_moves (ss_kv st) (ss_kv (snd (prune_round st))) \<and> (sound_store (ss_kv st) \<longrightarrow> \<not> fst (prune_round st))"
  using subPrune_safe [of st] by (auto simp: prune_round_def split: prod.splits bool.splits)

lemma deadwoodLoop_store: "ss_kv (snd (deadwoodLoop bad kvs st)) = ss_kv st"
  by (induction bad kvs st rule: deadwoodLoop.induct) (auto split: option.splits)

lemma deadwood_safe:
  assumes "pruneDeadWood p attempts st = Some (crashed, st')"
  shows "kv_moves (ss_kv st) (ss_kv st') \<and> \<not> crashed"
proof -
  obtain res kv1 where g: "kvGetRange KEYRANGE_START KEYRANGE_END (ss_kv st) = (res, kv1)" by force
  have m: "kv_moves (ss_kv st) kv1" using kv_moves_range [of "ss_kv st" KEYRANGE_START KEYRANGE_END] g by simp
  have "\<not> fst (deadwoodLoop bad kvs (st\<lparr>ss_kv := kv1\<rparr>))" if "res = Inr kvs" for bad kvs
  proof -
    have "\<forall>kv \<in> set kvs. in_range (fst kv)"
      using g that by (auto simp: kvGetRange_def in_range_def split: prod.splits if_splits)
    then show ?thesis using deadwoodLoop_run [of kvs bad "st\<lparr>ss_kv := kv1\<rparr>"] by auto
  qed
  note total = this
  show ?thesis
  proof (cases "Nosm p \<noteq> 0")
    case False
    then obtain bad where "deadwoodFetch attempts [] = Some bad"
      using assms by (auto simp: pruneDeadWood_def split: option.splits)
    then have eq: "(case res of Inl _ \<Rightarrow> (False, st\<lparr>ss_kv := kv1\<rparr>)
        | Inr kvs \<Rightarrow> deadwoodLoop bad kvs (st\<lparr>ss_kv := kv1\<rparr>)) = (crashed, st')"
      using assms False g by (simp add: pruneDeadWood_def)
    show ?thesis
    proof (cases res)
      case (Inr kvs)
      then show ?thesis
        using eq m total [OF Inr, of bad] deadwoodLoop_store [of bad kvs "st\<lparr>ss_kv := kv1\<rparr>"] by simp
    qed (use eq m in auto)
  qed (use assms in \<open>simp add: pruneDeadWood_def\<close>)
qed

end
