(* ===== verification/Telemetry.thy ===== *)
theory Telemetry
  imports Params
begin

text \<open>
  The telemetry bus: \<open>sendToTelemetryBus\<close> and \<open>telemetryBusSend\<close> of cmd/hmi-nfd/api.go,
  \<open>telebusConnect\<close> and \<open>getTelemetryHost\<close> of cmd/hmi-nfd/hmnfd.go. The bus is the library hms-msgbus
  over Kafka; what its calls come back with is a parameter. \<open>tl_bus\<close> is \<open>msgbusHandle\<close>: nothing, or the status
  that the handle reports. \<open>tl_written\<close> logs the messages that were written.
\<close>

record telstate =
  tl_queue :: "string list"
  tl_bus :: "int option"
  tl_cfg :: "(string \<times> int \<times> string) option"
  tl_written :: "string list"

section \<open>Queueing\<close>

text \<open>The capacity of \<open>kq_chan\<close>.\<close>

definition kq_cap :: nat where
  "kq_cap = 10000"

definition sendToTelemetryBus :: "opParams \<Rightarrow> Scn \<Rightarrow> telstate \<Rightarrow> telstate" where
  "sendToTelemetryBus p tmsg st =
     (if Use_telemetry p \<noteq> 0
      then (if length (tl_queue st) < kq_cap
            then st\<lparr>tl_queue := tl_queue st @ [jprint (json_Scn tmsg)]\<rparr> else st)
      else st)"

section \<open>Sending\<close>

text \<open>
  What a try finds: telemetry switched off, no connection, or the outcome of the write. The tries
  that are left are a list, so that the loop is its recursion; the result is the try that left the
  loop by \<open>break\<close>.
\<close>

datatype tel_attempt = TelOff | TelNoBus | TelOk | TelErr

fun telTries :: "(nat \<Rightarrow> tel_attempt) \<Rightarrow> nat list \<Rightarrow> nat option" where
  "telTries att [] = None"
| "telTries att (retry # rest) =
     (case att retry of
        TelOff \<Rightarrow> telTries att rest
      | TelErr \<Rightarrow> telTries att rest
      | TelNoBus \<Rightarrow> Some retry
      | TelOk \<Rightarrow> Some retry)"

definition max_tries :: nat where
  "max_tries = 5"

text \<open>One message; the second component says that the retries are exhausted, which is logged.\<close>

definition telemetryBusSend :: "(nat \<Rightarrow> tel_attempt) \<Rightarrow> telstate \<Rightarrow> telstate \<times> bool" where
  "telemetryBusSend att st =
     (case tl_queue st of
        [] \<Rightarrow> (st, False)
      | kmsg # rest \<Rightarrow>
          let st1 = st\<lparr>tl_queue := rest\<rparr> in
          (case telTries att [0..<max_tries] of
             None \<Rightarrow> (st1, True)
           | Some r \<Rightarrow>
               (if att r = TelOk then st1\<lparr>tl_written := tl_written st1 @ [kmsg]\<rparr> else st1, False)))"

section \<open>Connecting\<close>

text \<open>\<open>strconv.Atoi\<close>.\<close>

definition Atoi :: "string \<Rightarrow> int option" where
  "Atoi s =
     do { i \<leftarrow> (case s of
                  c # cs \<Rightarrow> if c = CHR ''-'' \<or> c = CHR ''+'' then
                             (if cs = [] then None
                              else map_option (\<lambda>n. if c = CHR ''-'' then - n else n) (dec_nat 0 cs))
                           else dec_nat 0 s
                | [] \<Rightarrow> None);
          if int64_ok i then Some i else None }"

datatype host_error = BadSpec | BadPort string

definition getTelemetryHost :: "string \<Rightarrow> host_error + string \<times> int \<times> string" where
  "getTelemetryHost hspec =
     (let toks = split_on CHR '':'' hspec in
      if length toks \<noteq> 3 then Inl BadSpec
      else case Atoi (toks ! 1) of
        None \<Rightarrow> Inl (BadPort (toks ! 1))
      | Some port \<Rightarrow> Inr (toks ! 0, port, toks ! 2))"

text \<open>One round of \<open>telebusConnect\<close>; \<open>conn\<close> is what \<open>msgbus.Connect\<close> comes back with.\<close>

definition telebus_round ::
  "(string \<times> int \<times> string \<Rightarrow> int option) \<Rightarrow> opParams \<Rightarrow> telstate \<Rightarrow> telstate" where
  "telebus_round conn p st =
     (if Use_telemetry p = 0 then st\<lparr>tl_bus := None\<rparr>
      else if tl_bus st = None
      then (case getTelemetryHost (Telemetry_host p) of
              Inl _ \<Rightarrow> st
            | Inr cfg \<Rightarrow> st\<lparr>tl_cfg := Some cfg, tl_bus := conn cfg\<rparr>)
      else st)"

section \<open>Lemmas\<close>

lemma telTries_Some:
  "telTries att rs = Some r \<longleftrightarrow>
   (\<exists>pre post. rs = pre @ r # post \<and> att r \<in> {TelOk, TelNoBus} \<and> (\<forall>q \<in> set pre. att q \<in> {TelOff, TelErr}))"
proof (induction rs)
  case (Cons q rs)
  show ?case
  proof (cases "att q \<in> {TelOff, TelErr}")
    case True
    then have "telTries att (q # rs) = telTries att rs" by auto
    moreover have "(\<exists>pre post. q # rs = pre @ r # post \<and> att r \<in> {TelOk, TelNoBus} \<and>
          (\<forall>q \<in> set pre. att q \<in> {TelOff, TelErr})) \<longleftrightarrow>
        (\<exists>pre post. rs = pre @ r # post \<and> att r \<in> {TelOk, TelNoBus} \<and>
          (\<forall>q \<in> set pre. att q \<in> {TelOff, TelErr}))" (is "?l \<longleftrightarrow> ?r")
    proof
      assume ?l
      then obtain pre post where l: "q # rs = pre @ r # post" "att r \<in> {TelOk, TelNoBus}"
        "\<forall>q \<in> set pre. att q \<in> {TelOff, TelErr}" by blast
      then show ?r using True by (cases pre) auto
    next
      assume ?r
      then obtain pre post where "rs = pre @ r # post" "att r \<in> {TelOk, TelNoBus}"
        "\<forall>q \<in> set pre. att q \<in> {TelOff, TelErr}" by blast
      then show ?l using True by (intro exI [of _ "q # pre"] exI [of _ post]) simp
    qed
    ultimately show ?thesis using Cons by simp
  next
    case False
    then have q: "att q \<in> {TelOk, TelNoBus}" by (cases "att q") simp_all
    then have "telTries att (q # rs) = Some q" by auto
    then show ?thesis using q by (auto simp: Cons_eq_append_conv)
  qed
qed simp

lemma telTries_upt:
  "telTries att [0..<n] = Some r \<longleftrightarrow>
   r < n \<and> att r \<in> {TelOk, TelNoBus} \<and> (\<forall>q < r. att q \<in> {TelOff, TelErr})"
proof -
  have "[0..<n] = pre @ r # post \<longleftrightarrow> r < n \<and> pre = [0..<r] \<and> post = [Suc r..<n]" for pre post
  proof
    assume u: "[0..<n] = pre @ r # post"
    have l: "length pre < n" using arg_cong [OF u, of length] by simp
    have "[0..<n] ! length pre = r" unfolding u by simp
    then have r: "r = length pre" using l by simp
    have "pre = take r [0..<n]" "post = drop (Suc r) [0..<n]" unfolding u by (simp_all add: r)
    then show "r < n \<and> pre = [0..<r] \<and> post = [Suc r..<n]" using r l by simp
  next
    assume "r < n \<and> pre = [0..<r] \<and> post = [Suc r..<n]"
    then show "[0..<n] = pre @ r # post" by (metis le_add1 less_imp_add_positive plus_nat.add_0 upt_add_eq_append upt_conv_Cons)
  qed
  then show ?thesis unfolding telTries_Some by auto
qed

lemma telTries_None: "telTries att rs = None \<longleftrightarrow> (\<forall>r \<in> set rs. att r \<in> {TelOff, TelErr})"
  by (induction rs) (auto split: tel_attempt.splits)

lemma first_try_unique:
  fixes att :: "nat \<Rightarrow> tel_attempt"
  assumes "att r \<in> {TelOk, TelNoBus}" "\<forall>q < r. att q \<in> {TelOff, TelErr}" "r < n"
  shows "(\<exists>s < n. att s = TelOk \<and> (\<forall>q < s. att q \<in> {TelOff, TelErr})) \<longleftrightarrow> att r = TelOk"
proof
  assume "\<exists>s < n. att s = TelOk \<and> (\<forall>q < s. att q \<in> {TelOff, TelErr})"
  then obtain s where s: "att s = TelOk" "\<forall>q < s. att q \<in> {TelOff, TelErr}" by blast
  have "\<not> s < r" using assms(2) s(1) by fastforce
  moreover have "\<not> r < s" using assms(1) s(2) by fastforce
  ultimately show "att r = TelOk" using s(1) by (metis linorder_neqE_nat)
qed (use assms in blast)

text \<open>
  A message is written exactly when one of the first five tries succeeds and none before it found
  the bus without a connection; in that case it is dropped without a further try and without a word
  in the log.
\<close>

lemma telemetry_written:
  assumes "tl_queue st = kmsg # rest"
  shows "tl_written (fst (telemetryBusSend att st)) =
      tl_written st @ (if \<exists>r < 5. att r = TelOk \<and> (\<forall>q < r. att q \<in> {TelOff, TelErr}) then [kmsg] else [])"
    and "tl_queue (fst (telemetryBusSend att st)) = rest"
    and "snd (telemetryBusSend att st) \<longleftrightarrow> (\<forall>r < 5. att r \<in> {TelOff, TelErr})"
proof -
  show "snd (telemetryBusSend att st) \<longleftrightarrow> (\<forall>r < 5. att r \<in> {TelOff, TelErr})"
    using assms telTries_None [of att "[0..<5]"]
    by (auto simp: telemetryBusSend_def Let_def max_tries_def split: option.splits)
  show "tl_queue (fst (telemetryBusSend att st)) = rest"
    using assms by (simp add: telemetryBusSend_def Let_def split: option.splits)
  show "tl_written (fst (telemetryBusSend att st)) =
      tl_written st @ (if \<exists>r < 5. att r = TelOk \<and> (\<forall>q < r. att q \<in> {TelOff, TelErr}) then [kmsg] else [])"
  proof (cases "telTries att [0..<max_tries]")
    case None
    then have "\<not> (\<exists>r < 5. att r = TelOk \<and> (\<forall>q < r. att q \<in> {TelOff, TelErr}))"
      unfolding max_tries_def telTries_None by (metis atLeastLessThan_iff insertE le0 set_upt
          singletonD tel_attempt.distinct)
    then show ?thesis using None assms by (simp add: telemetryBusSend_def)
  next
    case (Some r)
    then have r: "r < 5" "att r \<in> {TelOk, TelNoBus}" "\<forall>q < r. att q \<in> {TelOff, TelErr}"
      unfolding max_tries_def telTries_upt by auto
    then show ?thesis
      using Some assms first_try_unique [OF r(2,3,1)] by (simp add: telemetryBusSend_def Let_def)
  qed
qed

text \<open>The queue of messages stays within its capacity.\<close>

lemma kq_bounded: "length (tl_queue st) \<le> kq_cap \<Longrightarrow> length (tl_queue (sendToTelemetryBus p m st)) \<le> kq_cap"
  by (simp add: sendToTelemetryBus_def)

text \<open>A specification that is written from its parts is taken apart into them.\<close>

lemma Atoi_show:
  assumes "int64_ok i"
  shows "Atoi (show_int i) = Some i"
proof (cases "i < 0")
  case True
  then show ?thesis using assms by (simp add: Atoi_def show_int_def dec_show_nat)
next
  case False
  obtain c cs where c: "show_nat (nat i) = c # cs" "is_digit c"
    using show_nat_head_digit [of "nat i"] by blast
  then have "c \<noteq> CHR ''-''" "c \<noteq> CHR ''+''" by (auto simp: is_digit_def)
  then show ?thesis
    using False assms c(1) dec_show_nat [of "nat i"] by (simp add: Atoi_def show_int_def)
qed

lemma getTelemetryHost_parts:
  assumes "CHR '':'' \<notin> set host" "CHR '':'' \<notin> set topic" "int64_ok port"
  shows "getTelemetryHost (host @ '':'' @ show_int port @ '':'' @ topic) = Inr (host, port, topic)"
proof -
  have "CHR '':'' \<notin> set (show_int port)"
    using show_nat_digits [of "nat port"] show_nat_digits [of "nat (- port)"]
    by (auto simp: show_int_def is_digit_def)
  then have "split_on CHR '':'' (host @ '':'' @ show_int port @ '':'' @ topic) = [host, show_int port, topic]"
    using assms by (simp add: split_on_append split_on_no_delim)
  then show ?thesis using Atoi_show [OF assms(3)] by (simp add: getTelemetryHost_def)
qed

end
