(* ===== verification/WorkerPool.thy ===== *)
theory WorkerPool
  imports Jobs "HOL-Library.Multiset"
begin

text \<open>
  The pool of workers that hmnfd hands its send jobs to (hms-base/v2/worker-pool.go under vendor).
  Its goroutines (the callers of \<open>Queue\<close>, the dispatcher, the workers) run concurrently and meet on
  channels, so the pool is a step relation: one event per atomic step, enabled or not
  in a state. A job is a pointer, here an address; the jobs themselves are in \<open>pl_jobs\<close>.

  What a worker does while it runs a job is \<open>job_Run\<close> of the theory Jobs and takes place between
  \<open>Send\<close> and \<open>Finish\<close>. \<open>Stop\<close> puts a token on a channel without a buffer, from a goroutine of its
  own; \<open>pl_stops\<close> counts those that wait. The \<open>break\<close> that follows the receipt of a token leaves the
  \<open>select\<close> only, so the loop of the dispatcher never ends and the code after it, which would stop
  the workers, is never reached.
\<close>

section \<open>State\<close>

datatype dispatcher = DIdle | DGot nat | DPicked nat nat | DSend nat nat

datatype wstate = WAnnounce | WWait | WRun nat

text \<open>
  \<open>pl_free\<close> is the channel \<open>Pool\<close> with the workers that offered themselves, \<open>pl_marks\<close> the calls of
  \<open>Queue\<close> that have put their job on the channel and not set its status yet. The logs \<open>pl_started\<close>,
  \<open>pl_done\<close> and \<open>pl_lost\<close> are not variables of the program.
\<close>

record pool =
  pl_jobs :: "nat \<Rightarrow> JobSCNSend"
  pl_next :: nat
  pl_queue :: "nat list"
  pl_qcap :: nat
  pl_free :: "nat list"
  pl_disp :: dispatcher
  pl_workers :: "wstate list"
  pl_marks :: "nat list"
  pl_stops :: nat
  pl_started :: "nat list"
  pl_done :: "nat list"
  pl_lost :: "nat list"

definition NewWorkerPool :: "nat \<Rightarrow> nat \<Rightarrow> pool" where
  "NewWorkerPool maxWorkers maxJobQueue =
     \<lparr>pl_jobs = (\<lambda>_. NewJobSCNSend Scn0 [] []), pl_next = 0, pl_queue = [], pl_qcap = maxJobQueue,
      pl_free = [], pl_disp = DIdle, pl_workers = replicate maxWorkers WAnnounce, pl_marks = [],
      pl_stops = 0, pl_started = [], pl_done = [], pl_lost = []\<rparr>"

section \<open>Steps\<close>

text \<open>\<open>Queue\<close> up to the status: -1 for no job, 1 when it would block, else 0.\<close>

definition pool_Queue :: "nat option \<Rightarrow> pool \<Rightarrow> int \<times> pool" where
  "pool_Queue jb p =
     (case jb of
        None \<Rightarrow> (- 1, p)
      | Some j \<Rightarrow>
          if length (pl_queue p) < pl_qcap p
          then (0, p\<lparr>pl_queue := pl_queue p @ [j], pl_marks := j # pl_marks p\<rparr>)
          else (1, p))"

definition on_job :: "(JobSCNSend \<Rightarrow> JobSCNSend) \<Rightarrow> nat \<Rightarrow> pool \<Rightarrow> pool" where
  "on_job f j p = p\<lparr>pl_jobs := (pl_jobs p)(j := f (pl_jobs p j))\<rparr>"

text \<open>What a worker does after \<open>Run\<close>.\<close>

definition completed :: "JobSCNSend \<Rightarrow> JobSCNSend" where
  "completed jb = (if fst (GetStatus jb) \<noteq> JSTAT_ERROR then snd (SetStatus JSTAT_COMPLETE None jb)
     else jb)"

lemma completed_finished: "completed jb = job.finished jb"
  by (simp add: completed_def job.finished_def)

datatype pool_event =
  Submit Scn string string
| SetQueued nat
| CancelJob nat
| StopCalled
| StopTaken
| Take
| Pick
| Check
| Send
| Announce nat
| Finish nat

fun pool_step :: "pool_event \<Rightarrow> pool \<Rightarrow> pool option" where
  "pool_step (Submit sd sub url) p =
     (case pool_Queue (Some (pl_next p))
             (p\<lparr>pl_jobs := (pl_jobs p)(pl_next p := NewJobSCNSend sd sub url), pl_next := pl_next p + 1\<rparr>) of
        (rv, p') \<Rightarrow> if rv = 0 then Some p' else None)"
| "pool_step (SetQueued j) p =
     (if j \<in> set (pl_marks p)
      then Some ((on_job (\<lambda>jb. snd (SetStatus JSTAT_QUEUED None jb)) j p)\<lparr>pl_marks := remove1 j (pl_marks p)\<rparr>)
      else None)"
| "pool_step (CancelJob j) p =
     (if j < pl_next p then Some (on_job (\<lambda>jb. snd (Cancel jb)) j p) else None)"
| "pool_step StopCalled p = Some (p\<lparr>pl_stops := pl_stops p + 1\<rparr>)"
| "pool_step StopTaken p =
     (if pl_stops p = 0 then None
      else case pl_disp p of
        DIdle \<Rightarrow> Some (p\<lparr>pl_stops := pl_stops p - 1\<rparr>)
      | DGot j \<Rightarrow> Some (p\<lparr>pl_stops := pl_stops p - 1, pl_disp := DIdle, pl_lost := pl_lost p @ [j]\<rparr>)
      | _ \<Rightarrow> None)"
| "pool_step Take p =
     (case (pl_disp p, pl_queue p) of
        (DIdle, j # q) \<Rightarrow> Some (p\<lparr>pl_queue := q, pl_disp := DGot j\<rparr>)
      | _ \<Rightarrow> None)"
| "pool_step Pick p =
     (case (pl_disp p, pl_free p) of
        (DGot j, w # ws) \<Rightarrow> Some (p\<lparr>pl_free := ws, pl_disp := DPicked j w\<rparr>)
      | _ \<Rightarrow> None)"
| "pool_step Check p =
     (case pl_disp p of
        DPicked j w \<Rightarrow>
          if fst (GetStatus (pl_jobs p j)) \<noteq> JSTAT_CANCELLED
          then Some ((on_job (\<lambda>jb. snd (SetStatus JSTAT_PROCESSING None jb)) j p)\<lparr>pl_disp := DSend j w\<rparr>)
          else Some (p\<lparr>pl_disp := DIdle, pl_lost := pl_lost p @ [j]\<rparr>)
      | _ \<Rightarrow> None)"
| "pool_step Send p =
     (case pl_disp p of
        DSend j w \<Rightarrow>
          if w < length (pl_workers p) \<and> pl_workers p ! w = WWait
          then Some (p\<lparr>pl_disp := DIdle, pl_workers := (pl_workers p)[w := WRun j],
                       pl_started := pl_started p @ [j]\<rparr>)
          else None
      | _ \<Rightarrow> None)"
| "pool_step (Announce w) p =
     (if w < length (pl_workers p) \<and> pl_workers p ! w = WAnnounce \<and>
         length (pl_free p) < length (pl_workers p)
      then Some (p\<lparr>pl_free := pl_free p @ [w], pl_workers := (pl_workers p)[w := WWait]\<rparr>)
      else None)"
| "pool_step (Finish w) p =
     (if w < length (pl_workers p)
      then (case pl_workers p ! w of
              WRun j \<Rightarrow> Some ((on_job completed j p)\<lparr>pl_workers := (pl_workers p)[w := WAnnounce],
                                pl_done := pl_done p @ [j]\<rparr>)
            | _ \<Rightarrow> None)
      else None)"

fun pool_run :: "pool_event list \<Rightarrow> pool \<Rightarrow> pool option" where
  "pool_run [] p = Some p"
| "pool_run (e # es) p = Option.bind (pool_step e p) (pool_run es)"

text \<open>The states that a pool of \<open>n\<close> workers and a queue of \<open>m\<close> can get to by events in \<open>A\<close>.\<close>

inductive pool_reach :: "nat \<Rightarrow> nat \<Rightarrow> (pool_event \<Rightarrow> bool) \<Rightarrow> pool \<Rightarrow> bool"
  for n :: nat and m :: nat and A :: "pool_event \<Rightarrow> bool" where
  fresh: "pool_reach n m A (NewWorkerPool n m)"
| event: "pool_reach n m A p \<Longrightarrow> A e \<Longrightarrow> pool_step e p = Some p' \<Longrightarrow> pool_reach n m A p'"

lemma pool_reach_run:
  "pool_reach n m A p \<Longrightarrow> \<forall>e \<in> set es. A e \<Longrightarrow> pool_run es p = Some p' \<Longrightarrow> pool_reach n m A p'"
  by (induction es arbitrary: p) (auto simp: bind_eq_Some_conv intro: pool_reach.event)

text \<open>An event nobody outside of the pool causes; and the events that hmnfd causes at all.\<close>

fun internal_event :: "pool_event \<Rightarrow> bool" where
  "internal_event (Submit _ _ _) = False"
| "internal_event (CancelJob _) = False"
| "internal_event StopCalled = False"
| "internal_event _ = True"

fun hmnfd_event :: "pool_event \<Rightarrow> bool" where
  "hmnfd_event (CancelJob _) = False"
| "hmnfd_event StopCalled = False"
| "hmnfd_event _ = True"

section \<open>Where the jobs are\<close>

fun disp_jobs :: "dispatcher \<Rightarrow> nat list" where
  "disp_jobs DIdle = []"
| "disp_jobs (DGot j) = [j]"
| "disp_jobs (DPicked j w) = [j]"
| "disp_jobs (DSend j w) = [j]"

fun disp_workers :: "dispatcher \<Rightarrow> nat list" where
  "disp_workers (DPicked j w) = [w]"
| "disp_workers (DSend j w) = [w]"
| "disp_workers _ = []"

fun job_of :: "wstate \<Rightarrow> nat multiset" where
  "job_of (WRun j) = {#j#}"
| "job_of _ = {#}"

definition running :: "pool \<Rightarrow> nat multiset" where
  "running p = \<Sum>\<^sub># (image_mset job_of (mset (pl_workers p)))"

lemma workers_update:
  "w < length ws \<Longrightarrow> \<Sum>\<^sub># (image_mset job_of (mset (ws[w := s]))) + job_of (ws ! w) =
     \<Sum>\<^sub># (image_mset job_of (mset ws)) + job_of s"
proof (induction ws arbitrary: w)
  case (Cons x ws)
  then show ?case by (cases w) (simp_all add: ac_simps)
qed simp

text \<open>No job is lost from sight, none is run twice, and the channels hold what they can.\<close>

definition pool_inv :: "nat \<Rightarrow> nat \<Rightarrow> pool \<Rightarrow> bool" where
  "pool_inv n m p \<longleftrightarrow>
     mset (pl_queue p) + mset (disp_jobs (pl_disp p)) + running p + mset (pl_done p) + mset (pl_lost p) =
       mset [0..<pl_next p] \<and>
     mset (pl_started p) = running p + mset (pl_done p) \<and>
     length (pl_workers p) = n \<and> pl_qcap p = m \<and> length (pl_queue p) \<le> m \<and>
     distinct (disp_workers (pl_disp p) @ pl_free p) \<and>
     (\<forall>w \<in> set (disp_workers (pl_disp p) @ pl_free p). w < n \<and> pl_workers p ! w = WWait)"

lemma running_fields [simp]:
  "running (on_job f j p) = running p" "running (p\<lparr>pl_queue := q\<rparr>) = running p"
  "running (p\<lparr>pl_disp := d\<rparr>) = running p" "running (p\<lparr>pl_marks := l\<rparr>) = running p"
  "running (p\<lparr>pl_stops := i\<rparr>) = running p" "running (p\<lparr>pl_free := l\<rparr>) = running p"
  "running (p\<lparr>pl_lost := l\<rparr>) = running p" "running (p\<lparr>pl_started := l\<rparr>) = running p"
  "running (p\<lparr>pl_done := l\<rparr>) = running p" "running (p\<lparr>pl_jobs := f'\<rparr>) = running p"
  "running (p\<lparr>pl_next := i\<rparr>) = running p"
  by (simp_all add: running_def on_job_def)

lemma running_worker:
  assumes "w < length (pl_workers p)"
  shows "running (p\<lparr>pl_workers := (pl_workers p)[w := s]\<rparr>) + job_of (pl_workers p ! w) = running p + job_of s"
  using workers_update [OF assms, of s] by (simp add: running_def)

lemma running_idle:
  "w < length (pl_workers p) \<Longrightarrow> job_of (pl_workers p ! w) = {#} \<Longrightarrow> job_of s = {#} \<Longrightarrow>
   running (p\<lparr>pl_workers := (pl_workers p)[w := s]\<rparr>) = running p"
  using running_worker [of w p s] by simp

lemma running_start:
  "w < length (pl_workers p) \<Longrightarrow> pl_workers p ! w = WWait \<Longrightarrow>
   running (p\<lparr>pl_workers := (pl_workers p)[w := WRun j]\<rparr>) = add_mset j (running p)"
  using running_worker [of w p "WRun j"] by simp

lemma running_finish:
  "w < length (pl_workers p) \<Longrightarrow> pl_workers p ! w = WRun j \<Longrightarrow>
   add_mset j (running (p\<lparr>pl_workers := (pl_workers p)[w := WAnnounce]\<rparr>)) = running p"
  using running_worker [of w p WAnnounce] by simp

lemma on_job_fields [simp]:
  "pl_queue (on_job f j p) = pl_queue p" "pl_disp (on_job f j p) = pl_disp p"
  "pl_done (on_job f j p) = pl_done p" "pl_lost (on_job f j p) = pl_lost p"
  "pl_next (on_job f j p) = pl_next p" "pl_started (on_job f j p) = pl_started p"
  "pl_workers (on_job f j p) = pl_workers p" "pl_qcap (on_job f j p) = pl_qcap p"
  "pl_free (on_job f j p) = pl_free p" "pl_stops (on_job f j p) = pl_stops p"
  "pl_marks (on_job f j p) = pl_marks p"
  "pl_jobs (on_job f j p) = (pl_jobs p)(j := f (pl_jobs p j))"
  by (simp_all add: on_job_def)

lemma pool_inv_fresh: "pool_inv n m (NewWorkerPool n m)"
  by (simp add: pool_inv_def NewWorkerPool_def running_def)

lemma pool_inv_step:
  assumes "pool_inv n m p" "pool_step e p = Some p'"
  shows "pool_inv n m p'"
proof (cases e)
  case (Submit sd sub url)
  then show ?thesis
    using assms by (auto simp: pool_inv_def pool_Queue_def atLeastLessThanSuc split: if_splits)
next
  case StopTaken
  then show ?thesis
    using assms by (auto simp: pool_inv_def split: if_splits dispatcher.splits)
next
  case Take
  then show ?thesis
    using assms by (auto simp: pool_inv_def split: dispatcher.splits list.splits)
next
  case Pick
  then show ?thesis
    using assms by (auto simp: pool_inv_def split: dispatcher.splits list.splits)
next
  case Check
  then show ?thesis
    using assms by (auto simp: pool_inv_def split: if_splits dispatcher.splits)
next
  case Send
  then obtain j w where d: "pl_disp p = DSend j w" "w < length (pl_workers p)" "pl_workers p ! w = WWait"
    and p': "p' = p\<lparr>pl_disp := DIdle, pl_workers := (pl_workers p)[w := WRun j], pl_started := pl_started p @ [j]\<rparr>"
    using assms(2) by (auto split: if_splits dispatcher.splits)
  have "running p' = add_mset j (running p)"
    using running_start [OF d(2,3), of j] by (simp add: p' running_def)
  then show ?thesis using assms(1) d by (auto simp: pool_inv_def p' nth_list_update)
next
  case (Announce w)
  then have d: "w < length (pl_workers p)" "pl_workers p ! w = WAnnounce"
    and p': "p' = p\<lparr>pl_free := pl_free p @ [w], pl_workers := (pl_workers p)[w := WWait]\<rparr>"
    using assms(2) by (auto split: if_splits)
  have "running p' = running p"
    using running_idle [OF d(1), of WWait] d(2) by (simp add: p' running_def)
  then show ?thesis using assms(1) d by (auto simp: pool_inv_def p' nth_list_update)
next
  case (Finish w)
  then obtain j where d: "w < length (pl_workers p)" "pl_workers p ! w = WRun j"
    and p': "p' = (on_job completed j p)\<lparr>pl_workers := (pl_workers p)[w := WAnnounce], pl_done := pl_done p @ [j]\<rparr>"
    using assms(2) by (auto split: if_splits wstate.splits)
  have "add_mset j (running p') = running p"
    using running_finish [OF d] by (simp add: p' running_def)
  then have "running p = add_mset j (running p')" by simp
  then show ?thesis using assms(1) d by (auto simp: pool_inv_def p' nth_list_update)
qed (use assms in \<open>auto simp: pool_inv_def split: if_splits\<close>)

lemma pool_reach_inv: "pool_reach n m A p \<Longrightarrow> pool_inv n m p"
  by (induction rule: pool_reach.induct) (auto intro: pool_inv_fresh pool_inv_step)

lemma size_running: "size (running p) \<le> length (pl_workers p)"
proof -
  have "size (\<Sum>\<^sub># (image_mset job_of (mset ws))) \<le> length ws" for ws
  proof (induction ws)
    case (Cons x ws)
    then show ?case by (cases x) simp_all
  qed simp
  then show ?thesis by (simp add: running_def)
qed

lemma subset_upt_distinct: "mset xs \<subseteq># mset [0..<k] \<Longrightarrow> distinct xs"
proof -
  assume "mset xs \<subseteq># mset [0..<k]"
  then obtain ys where "mset [0..<k] = mset (xs @ ys)"
    by (metis ex_mset mset_append mset_subset_eq_exists_conv)
  then show ?thesis using mset_eq_imp_distinct_iff [of "[0..<k]" "xs @ ys"] by simp
qed

section \<open>In hmnfd\<close>

text \<open>
  hmnfd neither cancels a job nor stops the pool. Then jobs start in the order in which they were
  queued, none is dropped, and every worker that waits is known to the dispatcher.
\<close>

definition fair_inv :: "pool \<Rightarrow> bool" where
  "fair_inv p \<longleftrightarrow> pl_lost p = [] \<and> pl_stops p = 0 \<and>
     (\<forall>j. fst (GetStatus (pl_jobs p j)) \<noteq> JSTAT_CANCELLED) \<and>
     pl_started p @ disp_jobs (pl_disp p) @ pl_queue p = [0..<pl_next p] \<and>
     (\<forall>w < length (pl_workers p). pl_workers p ! w = WWait \<longrightarrow>
        w \<in> set (disp_workers (pl_disp p) @ pl_free p))"

lemma fair_inv_fresh: "fair_inv (NewWorkerPool n m)"
  by (simp add: fair_inv_def NewWorkerPool_def NewJobSCNSend_def GetStatus_def)

lemma status_set [simp]:
  "fst (GetStatus (snd (SetStatus JSTAT_QUEUED None jb))) = JSTAT_QUEUED"
  "fst (GetStatus (snd (SetStatus JSTAT_PROCESSING None jb))) = JSTAT_PROCESSING"
  "fst (GetStatus (completed jb)) \<noteq> JSTAT_CANCELLED"
  "fst (GetStatus (NewJobSCNSend sd sub url)) \<noteq> JSTAT_CANCELLED"
  by (auto simp: GetStatus_def SetStatus_def completed_def NewJobSCNSend_def)

lemma fair_inv_step:
  assumes "fair_inv p" "hmnfd_event e" "pool_step e p = Some p'"
  shows "fair_inv p'"
proof (cases e)
  case (Submit sd sub url)
  then show ?thesis using assms by (auto simp: fair_inv_def pool_Queue_def split: if_splits)
next
  case Take
  then show ?thesis
    using assms by (auto simp: fair_inv_def split: dispatcher.splits list.splits)
next
  case Pick
  then show ?thesis
    using assms by (auto simp: fair_inv_def split: dispatcher.splits list.splits)
next
  case Check
  then show ?thesis
    using assms by (auto simp: fair_inv_def split: if_splits dispatcher.splits)
next
  case Send
  then show ?thesis
    using assms by (auto simp: fair_inv_def nth_list_update split: if_splits dispatcher.splits)
next
  case (Announce w)
  then show ?thesis
    using assms by (auto simp: fair_inv_def nth_list_update split: if_splits)
next
  case (Finish w)
  then show ?thesis
    using assms by (auto simp: fair_inv_def nth_list_update split: if_splits wstate.splits)
qed (use assms in \<open>auto simp: fair_inv_def split: if_splits\<close>)

lemma pool_reach_fair: "pool_reach n m hmnfd_event p \<Longrightarrow> fair_inv p"
  by (induction rule: pool_reach.induct) (auto intro: fair_inv_fresh fair_inv_step)

section \<open>Draining\<close>

text \<open>How much there is to do: every event inside the pool does some of it.\<close>

fun disp_work :: "dispatcher \<Rightarrow> nat" where
  "disp_work DIdle = 0"
| "disp_work (DGot j) = 6"
| "disp_work (DPicked j w) = 5"
| "disp_work (DSend j w) = 4"

fun worker_work :: "wstate \<Rightarrow> nat" where
  "worker_work WAnnounce = 1"
| "worker_work WWait = 0"
| "worker_work (WRun j) = 2"

definition pool_work :: "pool \<Rightarrow> nat" where
  "pool_work p = 7 * length (pl_queue p) + disp_work (pl_disp p) +
     sum_list (map worker_work (pl_workers p)) + length (pl_marks p) + pl_stops p"

lemma worker_work_update:
  "w < length ws \<Longrightarrow> sum_list (map worker_work (ws[w := s])) + worker_work (ws ! w) =
     sum_list (map worker_work ws) + worker_work s"
proof (induction ws arbitrary: w)
  case (Cons x ws)
  then show ?case by (cases w) simp_all
qed simp

lemma pool_work_step:
  assumes "internal_event e" "pool_step e p = Some p'"
  shows "pool_work p' < pool_work p"
proof (cases e)
  case (SetQueued j)
  then show ?thesis
    using assms length_pos_if_in_set [of j "pl_marks p"]
    by (auto simp: pool_work_def length_remove1 split: if_splits)
next
  case Send
  then obtain j w where "pl_disp p = DSend j w" "w < length (pl_workers p)" "pl_workers p ! w = WWait"
    using assms(2) by (auto split: if_splits dispatcher.splits)
  then show ?thesis
    using assms Send worker_work_update [of w "pl_workers p" "WRun j"] by (auto simp: pool_work_def)
next
  case (Announce w)
  then show ?thesis
    using assms worker_work_update [of w "pl_workers p" WWait] by (auto simp: pool_work_def split: if_splits)
next
  case (Finish w)
  then show ?thesis
    using assms worker_work_update [of w "pl_workers p" WAnnounce]
    by (auto simp: pool_work_def split: if_splits wstate.splits)
qed (use assms in \<open>auto simp: pool_work_def split: if_splits dispatcher.splits list.splits\<close>)

lemma pool_run_work:
  "\<forall>e \<in> set es. internal_event e \<Longrightarrow> pool_run es p = Some p' \<Longrightarrow> length es + pool_work p' \<le> pool_work p"
proof (induction es arbitrary: p)
  case (Cons e es)
  then obtain p1 where p1: "pool_step e p = Some p1" "pool_run es p1 = Some p'"
    by (auto simp: bind_eq_Some_conv)
  then show ?case using pool_work_step [of e p p1] Cons.IH [of p1] Cons.prems(1) by simp
qed simp

text \<open>A pool in which no event is left has run everything.\<close>

lemma pool_progress:
  assumes "pool_inv n m p" "fair_inv p" "0 < n" "\<forall>e. internal_event e \<longrightarrow> pool_step e p = None"
  shows "pl_queue p = [] \<and> pl_disp p = DIdle \<and> running p = {#} \<and> pl_marks p = []"
proof -
  have work: "pl_workers p ! w = WWait" if w: "w < n" for w
  proof (cases "pl_workers p ! w")
    case WAnnounce
    have "w \<notin> set (pl_free p)" "distinct (pl_free p)" "set (pl_free p) \<subseteq> {..<n}"
      using assms(1) WAnnounce by (auto simp: pool_inv_def)
    then have "length (pl_free p) < n"
      using w psubset_card_mono [of "{..<n}" "set (pl_free p)"] by (auto simp: distinct_card psubset_eq)
    then show ?thesis
      using assms(1) assms(4) [THEN spec, of "Announce w"] WAnnounce w by (simp add: pool_inv_def)
  next
    case (WRun j)
    then show ?thesis using assms(1) assms(4) [THEN spec, of "Finish w"] w by (simp add: pool_inv_def)
  qed
  have n: "length (pl_workers p) = n" using assms(1) by (simp add: pool_inv_def)
  have d: "pl_disp p = DIdle"
  proof (cases "pl_disp p")
    case (DGot j)
    have "0 \<in> set (pl_free p)" using assms(2,3) work n DGot by (auto simp: fair_inv_def)
    then show ?thesis using assms(4) [THEN spec, of Pick] DGot by (cases "pl_free p") auto
  next
    case (DPicked j w)
    then show ?thesis using assms(4) [THEN spec, of Check] by (simp split: if_splits)
  next
    case (DSend j w)
    then show ?thesis
      using assms(1) assms(4) [THEN spec, of Send] by (auto simp: pool_inv_def)
  qed
  moreover have "pl_queue p = []"
    using assms(4) [THEN spec, of Take] d by (cases "pl_queue p") auto
  moreover have "pl_marks p = []"
    using assms(4) [THEN spec, of "SetQueued (hd (pl_marks p))"] by (cases "pl_marks p") auto
  moreover have "pl_workers p = replicate n WWait"
    using work n by (simp add: list_eq_iff_nth_eq)
  then have "running p = {#}" by (simp add: running_def)
  ultimately show ?thesis by blast
qed

lemma pool_next_step: "internal_event e \<Longrightarrow> pool_step e p = Some p' \<Longrightarrow> pl_next p' = pl_next p"
  by (cases e) (auto split: if_splits dispatcher.splits list.splits wstate.splits)

lemma pool_next_run:
  "\<forall>e \<in> set es. internal_event e \<Longrightarrow> pool_run es p = Some p' \<Longrightarrow> pl_next p' = pl_next p"
proof (induction es arbitrary: p)
  case (Cons e es)
  then obtain p1 where "pool_step e p = Some p1" "pool_run es p1 = Some p'"
    by (auto simp: bind_eq_Some_conv)
  then show ?case using Cons.IH [of p1] Cons.prems(1) pool_next_step [of e p p1] by simp
qed simp

lemma internal_hmnfd: "internal_event e \<Longrightarrow> hmnfd_event e"
  by (cases e) simp_all

lemma pool_fifo:
  assumes "pool_reach n m hmnfd_event p"
  shows "pl_started p @ disp_jobs (pl_disp p) @ pl_queue p = [0..<pl_next p] \<and> pl_lost p = []"
  using pool_reach_fair [OF assms] by (simp add: fair_inv_def)

lemma pool_stuck:
  assumes "pool_reach n m hmnfd_event p" "0 < n" "\<forall>e. internal_event e \<longrightarrow> pool_step e p = None"
  shows "pl_started p = [0..<pl_next p] \<and> mset (pl_done p) = mset [0..<pl_next p]"
proof -
  note dn = pool_progress [OF pool_reach_inv [OF assms(1)] pool_reach_fair [OF assms(1)] assms(2,3)]
  note fifo = pool_fifo [OF assms(1)]
  have "mset (pl_queue p) + mset (disp_jobs (pl_disp p)) + running p + mset (pl_done p) + mset (pl_lost p) =
      mset [0..<pl_next p]"
    using pool_reach_inv [OF assms(1)] unfolding pool_inv_def by (elim conjE)
  then show ?thesis using dn fifo by (simp del: mset_upt)
qed

section \<open>Properties\<close>

text \<open>
  C25: Whatever happens to the pool, cancelled jobs and stop tokens included, a job is started
  at most once, the queue and the set of running jobs stay within their bounds, and every job
  that was queued is in exactly one place.
\<close>

theorem pool_bounds:
  assumes "pool_reach n m A p"
  shows "length (pl_queue p) \<le> m \<and> size (running p) \<le> n \<and> distinct (pl_started p) \<and>
    mset (pl_queue p) + mset (disp_jobs (pl_disp p)) + running p + mset (pl_done p) + mset (pl_lost p) =
      mset [0..<pl_next p]"
proof -
  have inv: "pool_inv n m p" by (rule pool_reach_inv [OF assms])
  then have "mset [0..<pl_next p] = mset (pl_started p) +
      (mset (pl_queue p) + mset (disp_jobs (pl_disp p)) + mset (pl_lost p))"
    by (simp add: pool_inv_def ac_simps)
  then have "mset (pl_started p) \<subseteq># mset [0..<pl_next p]"
    unfolding mset_subset_eq_exists_conv by blast
  then have "distinct (pl_started p)" by (rule subset_upt_distinct)
  then show ?thesis using inv size_running [of p] by (simp add: pool_inv_def)
qed

text \<open>
  C26: In hmnfd, a pool that gets no new job is done after a bounded number of steps: every run
  of its own events has at most pool_work steps, and when none is enabled every job that was
  ever queued has been started in the order of the queue and run to its end.
\<close>

theorem pool_drains:
  assumes "pool_reach n m hmnfd_event p" "0 < n"
    and "\<forall>e \<in> set es. internal_event e" "pool_run es p = Some p'"
  shows "length es \<le> pool_work p \<and>
    ((\<forall>e. internal_event e \<longrightarrow> pool_step e p' = None) \<longrightarrow>
      pl_next p' = pl_next p \<and> mset (pl_done p') = mset [0..<pl_next p] \<and>
      pl_started p' = [0..<pl_next p])"
proof (intro conjI impI)
  show "length es \<le> pool_work p" using pool_run_work [OF assms(3,4)] by simp
next
  assume stuck: "\<forall>e. internal_event e \<longrightarrow> pool_step e p' = None"
  have r: "pool_reach n m hmnfd_event p'"
    using pool_reach_run [OF assms(1) _ assms(4)] assms(3) internal_hmnfd by blast
  show nx: "pl_next p' = pl_next p" by (rule pool_next_run [OF assms(3,4)])
  show "mset (pl_done p') = mset [0..<pl_next p]" "pl_started p' = [0..<pl_next p]"
    using pool_stuck [OF r assms(2) stuck] nx by (simp_all del: mset_upt)
qed

text \<open>A pool of one worker that runs one job.\<close>

definition ex_submit :: pool_event where
  "ex_submit = Submit Scn0 ''x0c0s0b0n0'' ''http://a''"

definition ex_run :: "pool_event list" where
  "ex_run = [SetQueued 0, Announce 0, Take, Pick, Check, Send, Finish 0, Announce 0]"

lemma pool_idle:
  assumes "pl_queue p = []" "pl_disp p = DIdle" "pl_marks p = []" "pl_stops p = 0"
    "pl_workers p = replicate n WWait" "internal_event e"
  shows "pool_step e p = None"
  using assms by (cases e) (auto split: wstate.split)

lemma ex_pool:
  obtains p where "pool_run [ex_submit] (NewWorkerPool 1 5) = Some p" "pl_next p = 1"
    "pool_reach 1 5 hmnfd_event p"
proof -
  have "case pool_run [ex_submit] (NewWorkerPool 1 5) of Some p \<Rightarrow> pl_next p = 1 | None \<Rightarrow> False"
    by code_simp
  then obtain p where p: "pool_run [ex_submit] (NewWorkerPool 1 5) = Some p" "pl_next p = 1"
    by (auto split: option.splits)
  have "pool_reach 1 5 hmnfd_event p"
    by (rule pool_reach_run [OF pool_reach.fresh _ p(1)]) (simp add: ex_submit_def)
  with p show ?thesis by (rule that)
qed

lemma ex_pool_run:
  obtains p p' where "pool_run [ex_submit] (NewWorkerPool 1 5) = Some p" "pl_next p = 1"
    "pool_run ex_run p = Some p'" "\<forall>e. internal_event e \<longrightarrow> pool_step e p' = None"
    "pool_reach 1 5 hmnfd_event p" "pool_reach 1 5 hmnfd_event p'"
proof -
  obtain p where p: "pool_run [ex_submit] (NewWorkerPool 1 5) = Some p" "pl_next p = 1"
    "pool_reach 1 5 hmnfd_event p"
    by (rule ex_pool)
  have "case Option.bind (pool_run [ex_submit] (NewWorkerPool 1 5)) (pool_run ex_run) of
      Some p' \<Rightarrow> pl_queue p' = [] \<and> pl_disp p' = DIdle \<and> pl_marks p' = [] \<and> pl_stops p' = 0 \<and>
        pl_workers p' = replicate 1 WWait
    | None \<Rightarrow> False"
    by code_simp
  then obtain p' where p': "pool_run ex_run p = Some p'" "pl_queue p' = []" "pl_disp p' = DIdle"
    "pl_marks p' = []" "pl_stops p' = 0" "pl_workers p' = replicate 1 WWait"
    unfolding p(1) by (auto split: option.splits)
  have "\<forall>e \<in> set ex_run. hmnfd_event e" by (simp add: ex_run_def)
  with p(3) have "pool_reach 1 5 hmnfd_event p'" using p'(1) by (rule pool_reach_run)
  with p p' pool_idle [OF p'(2-6)] show ?thesis using that by blast
qed

theorem pool_bounds_witness:
  "\<exists>p. pool_run [ex_submit] (NewWorkerPool 1 5) = Some p \<and> pl_next p = 1 \<and> distinct (pl_started p)"
proof -
  obtain p where p: "pool_run [ex_submit] (NewWorkerPool 1 5) = Some p" "pl_next p = 1"
    "pool_reach 1 5 hmnfd_event p"
    by (rule ex_pool)
  then show ?thesis using pool_bounds [OF p(3)] by blast
qed

theorem pool_drains_witness:
  "\<exists>p p'. pool_run [ex_submit] (NewWorkerPool 1 5) = Some p \<and> pool_run ex_run p = Some p' \<and>
     length ex_run \<le> pool_work p \<and> pl_started p' = [0]"
proof -
  obtain p p' where r: "pool_run [ex_submit] (NewWorkerPool 1 5) = Some p" "pl_next p = 1"
    "pool_run ex_run p = Some p'" "\<forall>e. internal_event e \<longrightarrow> pool_step e p' = None"
    "pool_reach 1 5 hmnfd_event p"
    by (rule ex_pool_run)
  have "\<forall>e \<in> set ex_run. internal_event e" by (simp add: ex_run_def)
  from pool_drains [OF r(5) _ this r(3)] show ?thesis using r by auto
qed

section \<open>What the pool does to jobs that are cancelled, to Stop, and to the status\<close>

text \<open>
  The worker that the dispatcher took for a cancelled job waits for a job that never comes: with
  one worker, no job is ever started again.
\<close>

definition wedged :: "pool \<Rightarrow> bool" where
  "wedged p \<longleftrightarrow> pl_workers p = [WWait] \<and> pl_free p = [] \<and> disp_workers (pl_disp p) = [] \<and> pl_started p = []"

lemma wedged_step: "wedged p \<Longrightarrow> pool_step e p = Some p' \<Longrightarrow> wedged p'"
  by (cases e) (auto simp: wedged_def pool_Queue_def on_job_def
      split: if_splits dispatcher.splits list.splits wstate.splits)

lemma wedged_run: "wedged p \<Longrightarrow> pool_run es p = Some p' \<Longrightarrow> wedged p'"
  by (induction es arbitrary: p) (auto simp: bind_eq_Some_conv intro: wedged_step)

lemma cancel_wedges:
  "\<exists>p. pool_run [Announce 0, ex_submit, SetQueued 0, CancelJob 0, Take, Pick, Check] (NewWorkerPool 1 5) = Some p \<and>
     (\<forall>es p'. pool_run es p = Some p' \<longrightarrow> pl_started p' = [])"
proof -
  have "case pool_run [Announce 0, ex_submit, SetQueued 0, CancelJob 0, Take, Pick, Check] (NewWorkerPool 1 5) of
      Some p \<Rightarrow> pl_workers p = [WWait] \<and> pl_free p = [] \<and> disp_workers (pl_disp p) = [] \<and> pl_started p = []
    | None \<Rightarrow> False"
    by code_simp
  then obtain p where
    p: "pool_run [Announce 0, ex_submit, SetQueued 0, CancelJob 0, Take, Pick, Check] (NewWorkerPool 1 5) = Some p"
      "wedged p"
    by (auto simp: wedged_def split: option.splits)
  show ?thesis using p(1) wedged_run [OF p(2)] by (auto simp: wedged_def)
qed

text \<open>A stop token that arrives while the dispatcher waits for a worker costs a job; the pool goes on.\<close>

lemma stop_drops_a_job:
  "\<exists>p. pool_run [ex_submit, SetQueued 0, Take, StopCalled, StopTaken, ex_submit, SetQueued 1, Announce 0, Take,
      Pick, Check, Send, Finish 0] (NewWorkerPool 1 5) = Some p \<and> pl_lost p = [0] \<and> pl_done p = [1]"
proof -
  have "case pool_run [ex_submit, SetQueued 0, Take, StopCalled, StopTaken, ex_submit, SetQueued 1, Announce 0,
      Take, Pick, Check, Send, Finish 0] (NewWorkerPool 1 5) of
      Some p \<Rightarrow> pl_lost p = [0] \<and> pl_done p = [1] | None \<Rightarrow> False"
    by code_simp
  then show ?thesis by (rule computed_Some)
qed

text \<open>
  \<open>Queue\<close> sets the status after it has put the job on the channel. When the pool is faster, the job
  has run and says that it is queued, for ever.
\<close>

lemma status_race:
  "\<exists>p. pool_run [Announce 0, ex_submit, Take, Pick, Check, Send, Finish 0, SetQueued 0] (NewWorkerPool 1 5) = Some p \<and>
     pl_done p = [0] \<and> pl_marks p = [] \<and> fst (GetStatus (pl_jobs p 0)) = JSTAT_QUEUED"
proof -
  have "case pool_run [Announce 0, ex_submit, Take, Pick, Check, Send, Finish 0, SetQueued 0] (NewWorkerPool 1 5) of
      Some p \<Rightarrow> pl_done p = [0] \<and> pl_marks p = [] \<and> fst (GetStatus (pl_jobs p 0)) = JSTAT_QUEUED
    | None \<Rightarrow> False"
    by code_simp
  then show ?thesis by (rule computed_Some)
qed

text \<open>
  In hmnfd, which cancels nothing, that is all that can go wrong with the status: a job that has run is
  complete, or says that it is queued because of the race.
\<close>

definition status_ok :: "pool \<Rightarrow> bool" where
  "status_ok p \<longleftrightarrow> (\<forall>a. fst (GetStatus (pl_jobs p a)) \<noteq> JSTAT_ERROR) \<and>
     (\<forall>a \<in> set (pl_done p). fst (GetStatus (pl_jobs p a)) \<in> {JSTAT_COMPLETE, JSTAT_QUEUED})"

lemma done_elsewhere:
  assumes "pool_inv n m p" "a \<in> set (pl_done p)"
  shows "a < pl_next p \<and> a \<notin> set (disp_jobs (pl_disp p))"
proof -
  have "mset (disp_jobs (pl_disp p)) + mset (pl_done p) \<subseteq># mset [0..<pl_next p]"
    using assms(1) unfolding pool_inv_def by (metis mset_subset_eq_exists_conv union_assoc union_commute)
  then have sub: "mset (disp_jobs (pl_disp p) @ pl_done p) \<subseteq># mset [0..<pl_next p]" by simp
  have "distinct (disp_jobs (pl_disp p) @ pl_done p)" using subset_upt_distinct [OF sub] .
  moreover have "a \<in> set [0..<pl_next p]" using set_mset_mono [OF sub] assms(2) by auto
  ultimately show ?thesis using assms(2) by auto
qed

lemma status_ok_step:
  assumes "status_ok p" "pool_inv n m p" "hmnfd_event e" "pool_step e p = Some p'"
  shows "status_ok p'"
proof (cases e)
  case (Submit sd sub url)
  have n: "pl_next p \<notin> set (pl_done p)" using done_elsewhere [OF assms(2), of "pl_next p"] by blast
  have "fst (GetStatus (NewJobSCNSend sd sub url)) = JSTAT_DEFAULT"
    by (simp add: NewJobSCNSend_def GetStatus_def)
  then show ?thesis
    using assms(1,4) Submit n by (fastforce simp: status_ok_def pool_Queue_def split: if_splits)
next
  case (SetQueued j)
  then show ?thesis using assms(1,4) by (auto simp: status_ok_def job.set_get split: if_splits)
next
  case Check
  then obtain j w where d: "pl_disp p = DPicked j w" using assms(4) by (auto split: dispatcher.splits)
  then have "j \<notin> set (pl_done p)" using done_elsewhere [OF assms(2), of j] by auto
  then show ?thesis using assms(1,4) Check d by (auto simp: status_ok_def job.set_get split: if_splits)
next
  case (Finish w)
  then show ?thesis
    using assms(1,4) by (auto simp: status_ok_def completed_finished job.finished_get split: if_splits wstate.splits)
qed (use assms in \<open>auto simp: status_ok_def split: if_splits dispatcher.splits list.splits\<close>)

lemma done_status:
  assumes "pool_reach n m hmnfd_event p" "a \<in> set (pl_done p)"
  shows "fst (GetStatus (pl_jobs p a)) \<in> {JSTAT_COMPLETE, JSTAT_QUEUED}"
proof -
  from assms(1) have "status_ok p"
  proof (induction rule: pool_reach.induct)
    case fresh
    then show ?case by (simp add: status_ok_def NewWorkerPool_def NewJobSCNSend_def GetStatus_def)
  qed (rule status_ok_step [OF _ pool_reach_inv])
  then show ?thesis using assms(2) by (simp add: status_ok_def)
qed

section \<open>What is sent\<close>

text \<open>The jobs that are handed to the pool, in the order of their addresses.\<close>

fun submitted :: "pool_event list \<Rightarrow> (Scn \<times> string \<times> string) list" where
  "submitted [] = []"
| "submitted (Submit sd sub url # es) = (sd, sub, url) # submitted es"
| "submitted (_ # es) = submitted es"

lemma payload_new [simp]: "payload (NewJobSCNSend sd sub url) = (sd, sub, url)"
  by (simp add: payload_def NewJobSCNSend_def)

lemmas payload_simps [simp] = job.set_about job.cancel_about job.finished_about [folded completed_finished]

lemma payload_step:
  "pool_step e p = Some p' \<Longrightarrow>
   map (\<lambda>a. payload (pl_jobs p' a)) [0..<pl_next p'] =
     map (\<lambda>a. payload (pl_jobs p a)) [0..<pl_next p] @ submitted [e]"
  by (cases e) (auto simp: pool_Queue_def split: if_splits dispatcher.splits list.splits wstate.splits)

lemma submitted_Cons: "submitted (e # es) = submitted [e] @ submitted es"
  by (cases e) simp_all

lemma payload_run:
  "pool_run es p = Some p' \<Longrightarrow>
   map (\<lambda>a. payload (pl_jobs p' a)) [0..<pl_next p'] =
     map (\<lambda>a. payload (pl_jobs p a)) [0..<pl_next p] @ submitted es"
proof (induction es arbitrary: p)
  case (Cons e es)
  then obtain p1 where "pool_step e p = Some p1" "pool_run es p1 = Some p'"
    by (auto simp: bind_eq_Some_conv)
  then show ?case using Cons.IH [of p1] payload_step [of e p p1] submitted_Cons [of e es] by simp
qed simp

end
