(* ===== verification/Health.thy ===== *)
theory Health
  imports Subscribe Telemetry WorkerPool
begin

text \<open>
  The probes of cmd/hmi-nfd/health.go: \<open>healthHandler\<close>, \<open>readinessHandler\<close>, \<open>livenessHandler\<close>. They
  read what the other parts keep: the handle of the store (nothing before \<open>openKV\<close>), the status of
  the telemetry bus, the prune map and the pool of workers. The store is returned because a call
  uses up an outcome of the script. Here each handler is one step, in which nobody else touches the handle
  of the bus; the theory Steps has \<open>healthHandler\<close> and \<open>readinessHandler\<close> one access at a time.
\<close>

record HealthResponse =
  KvStoreStatus :: string
  MsgBusStatus :: string
  HsmSubscriptionStatus :: string
  PruneMapStatus :: string
  WorkerPoolStatus :: string

definition json_Health :: "HealthResponse \<Rightarrow> json" where
  "json_Health h = JObj [(''KvStore'', JStr (KvStoreStatus h)), (''MsgBus'', JStr (MsgBusStatus h)),
     (''HsmSubscriptions'', JStr (HsmSubscriptionStatus h)), (''PruneMap'', JStr (PruneMapStatus h)),
     (''WorkerPool'', JStr (WorkerPoolStatus h))]"

text \<open>The text for a key, and for no store at all.\<close>

definition key_status :: "string \<Rightarrow> string \<Rightarrow> string \<Rightarrow> string \<Rightarrow> string \<Rightarrow> kvs option \<Rightarrow> string \<times> kvs option" where
  "key_status key err absent value none kvHandle =
     (case kvHandle of
        None \<Rightarrow> (none, None)
      | Some s \<Rightarrow>
          (case kvGet key s of
             (Inl _, s1) \<Rightarrow> (err @ kv_errmsg s1, Some s1)
           | (Inr None, s1) \<Rightarrow> (absent, Some s1)
           | (Inr (Some v), s1) \<Rightarrow> (value @ v, Some s1)))"

definition bus_status :: "int option \<Rightarrow> string" where
  "bus_status bus =
     (case bus of
        None \<Rightarrow> ''Not Connected''
      | Some st \<Rightarrow> if st = 1 then ''Connected and OPEN'' else if st = 2 then ''Connected and CLOSED''
                   else ''Connected with unknown status:'' @ show_int st)"

definition prune_status :: "(string, bool) gomap \<Rightarrow> string" where
  "prune_status prunemap =
     (if length prunemap > 0 then ''Number of items:'' @ show_nat (length prunemap) else ''No contents'')"

definition pool_status :: "pool option \<Rightarrow> string" where
  "pool_status scnWorkPool =
     (case scnWorkPool of
        None \<Rightarrow> ''Worker Pool not started''
      | Some p \<Rightarrow> ''Workers:'' @ show_nat (length (pl_workers p)) @ '', Jobs:'' @ show_nat (length (pl_queue p)))"

definition probe_not_get :: "string \<Rightarrow> writer" where
  "probe_not_get errinst =
     sendProblem ''Invalid Request'' ''Only GET operation supported'' errinst 405
       (setHeader ''Allow'' ''GET'' new_writer)"

definition healthHandler ::
  "request \<Rightarrow> kvs option \<Rightarrow> int option \<Rightarrow> (string, bool) gomap \<Rightarrow> pool option \<Rightarrow> writer \<times> kvs option" where
  "healthHandler r kvHandle bus prunemap scnWorkPool =
     (if rq_method r \<noteq> ''GET'' then (probe_not_get ''/health'', kvHandle)
      else case key_status ''HMNFD_HEALTH_KEY'' ''Error retrieving key:'' ''Health key not present''
                  ''Health key value:'' ''KV Store not initialized'' kvHandle of (kvst, kv1) \<Rightarrow>
      case key_status ''hsmsubs'' ''HSM Subscription key retrieval error:''
                  ''HSM Subscription key not present'' ''HSM Subscription: '' ''KVStore not initialized'' kv1
        of (hsmst, kv2) \<Rightarrow>
      let stats = \<lparr>KvStoreStatus = kvst, MsgBusStatus = bus_status bus, HsmSubscriptionStatus = hsmst,
                   PruneMapStatus = prune_status prunemap, WorkerPoolStatus = pool_status scnWorkPool\<rparr> in
      (writeBody (Bytes (jprint (json_Health stats) @ [CHR 0x0A]))
         (setHeader ''Content-Type'' ''application/json'' (writeHeader 200 new_writer)), kv2))"

definition readinessHandler :: "request \<Rightarrow> kvs option \<Rightarrow> int option \<Rightarrow> writer \<times> kvs option" where
  "readinessHandler r kvHandle bus =
     (if rq_method r \<noteq> ''GET'' then (probe_not_get ''/readiness'', kvHandle)
      else let ready = (bus \<noteq> Some 2) in
      case (case kvHandle of
              None \<Rightarrow> (False, None)
            | Some s \<Rightarrow>
                (case kvGet ''HMNFD_HEALTH_KEY'' s of
                   (Inl _, s1) \<Rightarrow> (False, Some s1)
                 | (Inr None, s1) \<Rightarrow> (False, Some s1)
                 | (Inr (Some v), s1) \<Rightarrow> (ready, Some s1))) of (ready', kv1) \<Rightarrow>
      (writeHeader (if ready' then 204 else 503) new_writer, kv1))"

definition livenessHandler :: "request \<Rightarrow> writer" where
  "livenessHandler r =
     (if rq_method r \<noteq> ''GET'' then probe_not_get ''/liveness'' else writeHeader 204 new_writer)"

section \<open>Lemmas\<close>

text \<open>When the readiness probe says yes: the store answers and has the key, and the bus is not closed.\<close>

lemma readiness_iff:
  assumes "rq_method r = ''GET''"
  shows "status_of (fst (readinessHandler r kvHandle bus)) = 204 \<longleftrightarrow>
    bus \<noteq> Some 2 \<and> (\<exists>s v s1. kvHandle = Some s \<and> kvGet ''HMNFD_HEALTH_KEY'' s = (Inr (Some v), s1))"
  using assms
  by (auto simp: readinessHandler_def Let_def split: option.splits sum.splits prod.splits)

lemma readiness_codes:
  "rq_method r = ''GET'' \<Longrightarrow> status_of (fst (readinessHandler r kvHandle bus)) \<in> {204, 503}"
  by (simp add: readinessHandler_def Let_def split: option.splits sum.splits prod.splits)

text \<open>On a store that answers, readiness is a matter of the key alone.\<close>

lemma ready_reliable:
  assumes "rq_method r = ''GET''" "kv_reliable s" "bus \<noteq> Some 2"
  shows "status_of (fst (readinessHandler r (Some s) bus)) = 204 \<longleftrightarrow>
    kv_content s ''HMNFD_HEALTH_KEY'' \<noteq> None"
proof -
  have "kvGet ''HMNFD_HEALTH_KEY'' s = (Inr (kv_content s ''HMNFD_HEALTH_KEY''), snd (kv_next s))"
    using assms(2) by (auto simp: kvGet_def kv_next_def kv_content_def kv_reliable_def split: list.splits)
  then show ?thesis unfolding readiness_iff [OF assms(1)] using assms(3) by auto
qed

text \<open>
  The health probe sets its content type after it has written the status, when the headers have gone
  out: the answer has no Content-Type of its own.
\<close>

lemma health_no_content_type:
  "rq_method r = ''GET'' \<Longrightarrow>
   w_hdr (fst (healthHandler r kvHandle bus prunemap pool)) = [] \<and>
   status_of (fst (healthHandler r kvHandle bus prunemap pool)) = 200"
  by (simp add: healthHandler_def Let_def setHeader_def writeBody_def status_of_def writeHeader_def new_writer_def
      split: prod.split)

end
