(* ===== verification/Steps.thy ===== *)
theory Steps
  imports Proc Posts StoreInv Health
begin

text \<open>
  The subscription handlers, two of the probes and the goroutines of hmnfd one access to shared state at
  a time: what the theories Subscribe, SubscribeV2, Health, Fanout, Prune, Deadwood and Jobs have as one step is
  here a resumption whose atomic steps are the calls of the key/value store, the accesses to the prune map,
  \<open>Lock\<close> and \<open>Unlock\<close> of \<open>prunemap_mutex\<close>, the send on \<open>hsmsub_chan\<close>, and the looks at the handle of
  the telemetry bus and at the pool. What a goroutine does with its own
  variables between two of them is seen by nobody else, and belongs to the step before.
\<close>

section \<open>Shared state\<close>

text \<open>
  \<open>ps_lock\<close> is \<open>prunemap_mutex\<close>. Beside the state of the subscriptions there are the jobs that \<open>doScn\<close> has
  for the pool, \<open>msgbusHandle\<close> (theory Telemetry) and the pool of workers, which the probes look at.
\<close>

record prest =
  rs_jobs :: "JobSCNSend list"
  rs_bus :: "int option"
  rs_pool :: pool

record pstate =
  ps_sub :: substate
  ps_lock :: bool
  ps_rest :: prest

text \<open>
  How a goroutine ends: a request handler with its reply or a panic that net/http catches, another
  one by returning or with a panic that ends the process.
\<close>

datatype ending = Replied writer | Panicked | Ended | Crashed

type_synonym goroutine = "(pstate, ending) proc"

abbreviation reply :: "writer \<Rightarrow> goroutine" where
  "reply w \<equiv> Ret (Replied w)"

abbreviation panic :: goroutine where
  "panic \<equiv> Ret Panicked"

definition on_kv :: "(kvs \<Rightarrow> 'x \<times> kvs) \<Rightarrow> ('x \<Rightarrow> goroutine) \<Rightarrow> goroutine" where
  "on_kv f = act (\<lambda>s. case f (ss_kv (ps_sub s)) of (x, kv) \<Rightarrow> (x, s\<lparr>ps_sub := (ps_sub s)\<lparr>ss_kv := kv\<rparr>\<rparr>))"

definition on_prune ::
  "((string, bool) gomap \<Rightarrow> 'x \<times> (string, bool) gomap) \<Rightarrow> ('x \<Rightarrow> goroutine) \<Rightarrow> goroutine" where
  "on_prune f = act (\<lambda>s. case f (ss_prune (ps_sub s)) of (x, m) \<Rightarrow> (x, s\<lparr>ps_sub := (ps_sub s)\<lparr>ss_prune := m\<rparr>\<rparr>))"

definition mutex_Lock :: "goroutine \<Rightarrow> goroutine" where
  "mutex_Lock = await (\<lambda>s. \<not> ps_lock s) (\<lambda>s. s\<lparr>ps_lock := True\<rparr>)"

definition mutex_Unlock :: "goroutine \<Rightarrow> goroutine" where
  "mutex_Unlock k = act (\<lambda>s. ((), s\<lparr>ps_lock := False\<rparr>)) (\<lambda>_. k)"

text \<open>A send on \<open>hsmsub_chan\<close> blocks while the channel is full.\<close>

definition hsmsub_cap :: nat where
  "hsmsub_cap = 50000"

definition chan_full :: "pstate \<Rightarrow> bool" where
  "chan_full s \<longleftrightarrow> hsmsub_cap \<le> length (ss_hsmsub (ps_sub s))"

definition tell_hsm :: "ScnSubscribe \<Rightarrow> goroutine \<Rightarrow> goroutine" where
  "tell_hsm j = await (\<lambda>s. \<not> chan_full s)
     (\<lambda>s. s\<lparr>ps_sub := (ps_sub s)\<lparr>ss_hsmsub := ss_hsmsub (ps_sub s) @ [j]\<rparr>\<rparr>)"

definition put_jobs :: "JobSCNSend list \<Rightarrow> goroutine \<Rightarrow> goroutine" where
  "put_jobs jobs k = act (\<lambda>s. ((), s\<lparr>ps_rest := (ps_rest s)\<lparr>rs_jobs := jobs\<rparr>\<rparr>)) (\<lambda>_. k)"

definition see_rest :: "(prest \<Rightarrow> 'x) \<Rightarrow> ('x \<Rightarrow> goroutine) \<Rightarrow> goroutine" where
  "see_rest f = act (\<lambda>s. (f (ps_rest s), s))"

text \<open>The three statements around \<open>prunemap[name] = true\<close>.\<close>

definition mark :: "string \<Rightarrow> goroutine \<Rightarrow> goroutine" where
  "mark name k = mutex_Lock (on_prune (\<lambda>m. ((), gm_put name True m)) (\<lambda>_. mutex_Unlock k))"

section \<open>POST\<close>

definition storePut_steps :: "string \<Rightarrow> ScnSubscribe \<Rightarrow> string \<Rightarrow> writer \<Rightarrow> goroutine" where
  "storePut_steps errinst jdata subKey w =
     on_kv (\<lambda>kv1. case makeSubscriptionEntry (subComponents jdata) (subUrl jdata) subKey kv1 of
              (err, kv2) \<Rightarrow> ((err, kv_errmsg kv2), kv2))
       (\<lambda>(err, msg).
          if err then reply (internal errinst msg w)
          else tell_hsm jdata (reply (writeHeader 200 (setHeader ''Connection'' ''close'' w))))"

definition storeNew_steps :: "string \<Rightarrow> ScnSubscribe \<Rightarrow> string \<Rightarrow> writer \<Rightarrow> goroutine" where
  "storeNew_steps errinst jdata subKey w =
     on_kv (kvGet subKey) (\<lambda>r.
       case r of
         Inl _ \<Rightarrow> reply (internal errinst ''Failed KV service GET operation'' w)
       | Inr (Some _) \<Rightarrow> reply (invalid errinst ''Subscription exists, cannot modify in POST operation'' w)
       | Inr None \<Rightarrow> storePut_steps errinst jdata subKey w)"

definition doSubscribePost_steps :: "request \<Rightarrow> goroutine" where
  "doSubscribePost_steps r =
     (let w = new_writer; errinst = ''/subscribe'' in
      if rq_err r then reply (invalid errinst ''Error reading inbound request body'' w)
      else case unmarshal_ScnSubscribe (to_lower (rq_body r)) of
        None \<Rightarrow> reply (handleSubscribePostError errinst w (rq_body r))
      | Some jdata \<Rightarrow>
          (case checkSubscription_v1 jdata of
             Some err \<Rightarrow> reply (invalid errinst err w)
           | None \<Rightarrow>
               let ix = index_of (subSubscriber jdata) [SVC_DELIM] in
               (case (if ix \<noteq> - 1 then slice_from (subSubscriber jdata) (ix + 1)
                      else Some (subSubscriber jdata)) of
                  None \<Rightarrow> panic
                | Some subscriber_xname \<Rightarrow>
                    if \<not> hmsTypeValid subscriber_xname
                    then reply (invalid errinst ''Subcriber field is not a valid XName'' w)
                    else storeNew_steps errinst jdata (makeSubscriptionKey_V1 jdata) w)))"

definition agentPost_steps :: "request \<Rightarrow> goroutine" where
  "agentPost_steps r =
     (let w = new_writer; agent = rq_var r ''agent'';
          xname = VerifyNormalizeCompID (rq_var r ''xname'') in
      if xname = [] then reply (invalid (rq_path r) ''Invalid XName in URL path'' w)
      else if rq_err r
      then reply (invalid (rq_path r) ''Error reading inbound request body'' w)
      else case unmarshal_ScnSubscribe (to_lower (rq_body r)) of
        None \<Rightarrow> reply (handleSubscribePostError (rq_path r) w (rq_body r))
      | Some jdata \<Rightarrow>
          (case checkSubscription_v2 jdata of
             Some err \<Rightarrow> reply (invalid (rq_path r) err w)
           | None \<Rightarrow>
               if \<not> hmsTypeValid xname
               then reply (invalid (rq_path r) ''Subcriber is not a valid XName'' w)
               else storeNew_steps (rq_path r) jdata (makeSubscriptionKey_V2 jdata xname agent) w))"

section \<open>PATCH\<close>

definition replaceEntry_steps ::
  "string \<Rightarrow> nat \<Rightarrow> ScnSubscribe \<Rightarrow> string \<Rightarrow> string \<Rightarrow> writer \<Rightarrow> goroutine" where
  "replaceEntry_steps errinst code jdata key exKey w =
     (let put = on_kv (makeSubscriptionEntry (subComponents jdata) (subUrl jdata) exKey)
                  (\<lambda>_. reply (writeHeader code w)) in
      if exKey \<noteq> key
      then on_kv (kvDelete key) (\<lambda>err.
             if err then reply (internal errinst ''Error deleting ETCD KV value'' w) else put)
      else put)"

fun patchLoop_steps ::
  "string \<Rightarrow> nat \<Rightarrow> (string \<Rightarrow> string option \<Rightarrow> SubData \<Rightarrow> bool) \<Rightarrow> string \<Rightarrow> ScnSubscribe \<Rightarrow>
   (string \<times> string) list \<Rightarrow> writer \<Rightarrow> goroutine" where
  "patchLoop_steps errinst code hit exKey jdata [] w = reply (writeHeader code w)"
| "patchLoop_steps errinst code hit exKey jdata ((key, val) # rest) w =
     (case keyServicePatch key of
        None \<Rightarrow> panic
      | Some (xname, agent) \<Rightarrow>
          (case unmarshal_SubData val of
             None \<Rightarrow> reply (internal errinst ''Error unmarshalling ETCD KV value'' w)
           | Some sd \<Rightarrow>
               if hit xname agent sd then replaceEntry_steps errinst code jdata key exKey w
               else patchLoop_steps errinst code hit exKey jdata rest w))"

definition patchRange_steps ::
  "string \<Rightarrow> nat \<Rightarrow> (string \<Rightarrow> string option \<Rightarrow> SubData \<Rightarrow> bool) \<Rightarrow> string \<Rightarrow> ScnSubscribe \<Rightarrow>
   writer \<Rightarrow> goroutine" where
  "patchRange_steps errinst code hit exKey jdata w =
     (case patchRange jdata of
        None \<Rightarrow> panic
      | Some (startKey, endKey) \<Rightarrow>
          on_kv (kvGetRange startKey endKey) (\<lambda>r. case r of
              Inl _ \<Rightarrow> reply (internal errinst ''Key/Value ETCD service GET operation failed'' w)
            | Inr skvlist \<Rightarrow> patchLoop_steps errinst code hit exKey jdata skvlist w))"

definition doSubscribePatch_steps :: "request \<Rightarrow> goroutine" where
  "doSubscribePatch_steps r =
     (let w = new_writer; errinst = ''/subscribe'' in
      if rq_err r then reply (invalid errinst ''Error reading inbound request body'' w)
      else case unmarshal_ScnSubscribe (to_lower (rq_body r)) of
        None \<Rightarrow> reply (handleSubscribePostError errinst w (rq_body r))
      | Some jdata \<Rightarrow>
          (case checkSubscription_v1 jdata of
             Some err \<Rightarrow> reply (invalid errinst err w)
           | None \<Rightarrow> patchRange_steps errinst 200 (patch_hit_v1 jdata) (makeSubscriptionKey_V1 jdata) jdata w))"

definition agentPatch_steps :: "request \<Rightarrow> goroutine" where
  "agentPatch_steps r =
     (let w = new_writer; agent = rq_var r ''agent'';
          xname = VerifyNormalizeCompID (rq_var r ''xname'') in
      if xname = [] then reply (invalid (rq_path r) ''Invalid XName in URL path'' w)
      else if rq_err r
      then reply (invalid (rq_path r) ''Error reading inbound request body'' w)
      else case unmarshal_ScnSubscribe (to_lower (rq_body r)) of
        None \<Rightarrow> reply (handleSubscribePostError (rq_path r) w (rq_body r))
      | Some jdata \<Rightarrow>
          patchRange_steps (rq_path r) 204 (patch_hit_v2 xname agent)
            (makeSubscriptionKey_V2 jdata xname agent) jdata w)"

section \<open>DELETE\<close>

definition deleteEntry_steps :: "string \<Rightarrow> string \<Rightarrow> goroutine \<Rightarrow> goroutine" where
  "deleteEntry_steps key subsvc k = on_kv (kvDelete key) (\<lambda>err. if err then k else mark subsvc k)"

fun deleteLoop_v1_steps ::
  "string \<Rightarrow> NodeSubscriptionDelete \<Rightarrow> (string \<times> string) list \<Rightarrow> writer \<Rightarrow> goroutine" where
  "deleteLoop_v1_steps errinst jdata [] w = reply (writeHeader 200 w)"
| "deleteLoop_v1_steps errinst jdata ((key, val) # rest) w =
     (case keyService key of
        None \<Rightarrow> panic
      | Some (xname, agent) \<Rightarrow>
          if to_lower (svcName xname agent) = to_lower (nsdSubscriber jdata)
          then (case unmarshal_SubData val of
                  None \<Rightarrow> reply (internal errinst ''Error unmarshalling ETCD KV value'' w)
                | Some sd \<Rightarrow>
                    if to_lower (nsdUrl jdata) = to_lower (sdUrl sd)
                    then deleteEntry_steps key (svcName xname agent)
                           (deleteLoop_v1_steps errinst jdata rest w)
                    else deleteLoop_v1_steps errinst jdata rest w)
          else deleteLoop_v1_steps errinst jdata rest w)"

definition doSubscribeDelete_steps :: "request \<Rightarrow> goroutine" where
  "doSubscribeDelete_steps r =
     (let errinst = ''/subscribe'';
          w1 = (if rq_err r then invalid errinst ''Error reading inbound request'' new_writer
                else new_writer) in
      case unmarshal_NodeSubscriptionDelete (rq_body r) of
        None \<Rightarrow> reply (handleSubscribeDeleteError errinst w1 (rq_body r))
      | Some jdata \<Rightarrow>
          let w2 = (if nsdSubscriber jdata = []
                    then invalid errinst ''Missing Subscriber field in request'' w1 else w1);
              w3 = (if nsdUrl jdata = []
                    then invalid errinst ''Missing Url field in request'' w2 else w2) in
          on_kv (kvGetRange KEYRANGE_START KEYRANGE_END) (\<lambda>r. case r of
              Inl _ \<Rightarrow> reply (internal errinst ''Key/Value ETCD service GET operation failed'' w3)
            | Inr skvlist \<Rightarrow> deleteLoop_v1_steps errinst jdata skvlist w3))"

text \<open>\<open>k\<close> is what follows the loop, given whether a subscription has matched.\<close>

fun deleteLoop_v2_steps ::
  "(string \<Rightarrow> string \<Rightarrow> bool) \<Rightarrow> (string \<times> string) list \<Rightarrow> bool \<Rightarrow> (bool \<Rightarrow> goroutine) \<Rightarrow> goroutine" where
  "deleteLoop_v2_steps hit [] matched k = k matched"
| "deleteLoop_v2_steps hit ((key, val) # rest) matched k =
     (case keyService key of
        None \<Rightarrow> panic
      | Some (xname, agent) \<Rightarrow>
          if hit xname (case agent of None \<Rightarrow> [] | Some a \<Rightarrow> a)
          then deleteEntry_steps key (svcName xname agent) (deleteLoop_v2_steps hit rest True k)
          else deleteLoop_v2_steps hit rest matched k)"

definition agentDelete_steps :: "request \<Rightarrow> goroutine" where
  "agentDelete_steps r =
     (let w = new_writer; agent = rq_var r ''agent'';
          xname = VerifyNormalizeCompID (rq_var r ''xname'') in
      if xname = [] then reply (invalid (rq_path r) ''Invalid XName in URL path'' w)
      else on_kv (kvGetRange KEYRANGE_START KEYRANGE_END) (\<lambda>res. case res of
          Inl _ \<Rightarrow> reply (internal (rq_path r) ''Key/Value ETCD service GET operation failed'' w)
        | Inr skvlist \<Rightarrow>
            deleteLoop_v2_steps (\<lambda>subXName subAgent. xname = subXName \<and> agent = subAgent) skvlist False
              (\<lambda>matched. if \<not> matched
                 then reply (sendProblem ''Bad DELETE request''
                        ''No matching subscription for DELETE'' (rq_path r) 400 w)
                 else reply (writeHeader 204 w))))"

definition xnameDelete_steps :: "request \<Rightarrow> goroutine" where
  "xnameDelete_steps r =
     (let w = new_writer; xname = VerifyNormalizeCompID (rq_var r ''xname'') in
      if xname = [] then reply (invalid (rq_path r) ''Invalid XName in URL path'' w)
      else on_kv (kvGetRange KEYRANGE_START KEYRANGE_END) (\<lambda>res. case res of
          Inl _ \<Rightarrow> reply (internal (rq_path r) ''Key/Value ETCD service GET operation failed'' w)
        | Inr skvlist \<Rightarrow>
            deleteLoop_v2_steps (\<lambda>subXName subAgent. xname = subXName) skvlist False
              (\<lambda>_. reply (writeHeader 204 w))))"

section \<open>Listing\<close>

definition listReply_steps :: "string \<Rightarrow> (string \<Rightarrow> bool) \<Rightarrow> writer \<Rightarrow> goroutine" where
  "listReply_steps errinst want w =
     on_kv (kvGetRange KEYRANGE_START KEYRANGE_END) (\<lambda>r. case r of
         Inl _ \<Rightarrow> reply (internal errinst ''KV fetch error'' w)
       | Inr kvlist \<Rightarrow>
           (case listLoop want kvlist [] of
              None \<Rightarrow> panic
            | Some None \<Rightarrow> reply (internal errinst ''JSON unmarshal error'' w)
            | Some (Some infos) \<Rightarrow>
                reply (writeBody (Bytes (marshal_SubscriptionList infos))
                  (writeHeader 200 (setHeader ''Content-Type'' ''application/json'' w)))))"

definition subscriptions_steps :: "request \<Rightarrow> goroutine" where
  "subscriptions_steps r =
     (let errinst = ''/subscriptions'' in
      if rq_method r \<noteq> ''GET'' then reply (not_get errinst new_writer)
      else listReply_steps errinst (\<lambda>_. True) new_writer)"

definition xnameGet_steps :: "request \<Rightarrow> goroutine" where
  "xnameGet_steps r =
     (if rq_method r \<noteq> ''GET'' then reply (not_get (rq_path r) new_writer)
      else let xname = VerifyNormalizeCompID (rq_var r ''xname'') in
        if xname = [] then reply (invalid (rq_path r) ''Invalid XName in URL path'' new_writer)
        else listReply_steps (rq_path r) (\<lambda>subXName. subXName = xname) new_writer)"

section \<open>The probes\<close>

text \<open>
  The probes look at \<open>msgbusHandle\<close> twice, once to see that it is not nil and once to call its \<open>Status\<close>, and
  do not hold \<open>tbMutex\<close>: when \<open>telebusConnect\<close> has set it to nil in between, the call is a panic.
\<close>

definition bus_steps :: "(int option \<Rightarrow> goroutine) \<Rightarrow> goroutine" where
  "bus_steps k =
     see_rest (\<lambda>t. rs_bus t \<noteq> None) (\<lambda>there.
       if there then see_rest rs_bus (\<lambda>bus. case bus of None \<Rightarrow> panic | Some st \<Rightarrow> k (Some st))
       else k None)"

definition key_steps :: "string \<Rightarrow> string \<Rightarrow> string \<Rightarrow> string \<Rightarrow> (string \<Rightarrow> goroutine) \<Rightarrow> goroutine" where
  "key_steps key err absent value = on_kv (\<lambda>s.
     case kvGet key s of
       (Inl _, s1) \<Rightarrow> (err @ kv_errmsg s1, s1)
     | (Inr None, s1) \<Rightarrow> (absent, s1)
     | (Inr (Some v), s1) \<Rightarrow> (value @ v, s1))"

text \<open>The length of the prune map is read twice as well.\<close>

definition prunelen_steps :: "(string \<Rightarrow> goroutine) \<Rightarrow> goroutine" where
  "prunelen_steps k =
     on_prune (\<lambda>m. (length m > 0, m)) (\<lambda>some.
       if some then on_prune (\<lambda>m. (''Number of items:'' @ show_nat (length m), m)) k
       else k ''No contents'')"

definition health_steps :: "request \<Rightarrow> goroutine" where
  "health_steps r =
     (if rq_method r \<noteq> ''GET'' then reply (probe_not_get ''/health'')
      else key_steps ''HMNFD_HEALTH_KEY'' ''Error retrieving key:'' ''Health key not present''
             ''Health key value:'' (\<lambda>kvst.
        bus_steps (\<lambda>bus.
        key_steps ''hsmsubs'' ''HSM Subscription key retrieval error:'' ''HSM Subscription key not present''
             ''HSM Subscription: '' (\<lambda>hsmst.
        prunelen_steps (\<lambda>prunest.
        see_rest (\<lambda>t. pool_status (Some (rs_pool t))) (\<lambda>poolst.
          let stats = \<lparr>KvStoreStatus = kvst, MsgBusStatus = bus_status bus, HsmSubscriptionStatus = hsmst,
                       PruneMapStatus = prunest, WorkerPoolStatus = poolst\<rparr> in
          reply (writeBody (Bytes (jprint (json_Health stats) @ [CHR 0x0A]))
            (setHeader ''Content-Type'' ''application/json'' (writeHeader 200 new_writer)))))))))"

definition readiness_steps :: "request \<Rightarrow> goroutine" where
  "readiness_steps r =
     (if rq_method r \<noteq> ''GET'' then reply (probe_not_get ''/readiness'')
      else bus_steps (\<lambda>bus.
        let ready = (bus \<noteq> Some 2) in
        on_kv (kvGet ''HMNFD_HEALTH_KEY'') (\<lambda>res.
          case res of
            Inl _ \<Rightarrow> reply (writeHeader 503 new_writer)
          | Inr None \<Rightarrow> reply (writeHeader 503 new_writer)
          | Inr (Some _) \<Rightarrow> reply (writeHeader (if ready then 204 else 503) new_writer))))"

section \<open>The goroutines\<close>

text \<open>One round of \<open>prune\<close>. Its first look at the map is not under the lock.\<close>

fun subPruneLoop_steps :: "(string \<times> string) list \<Rightarrow> goroutine \<Rightarrow> goroutine" where
  "subPruneLoop_steps [] k = k"
| "subPruneLoop_steps ((key, val) # rest) k =
     (case keyService key of
        None \<Rightarrow> Ret Crashed
      | Some (xname, agent) \<Rightarrow>
          on_prune (\<lambda>m. (gm_flag m xname \<or> gm_flag m (pruneName xname agent), m)) (\<lambda>hit.
            if hit then on_kv (kvDelete key) (\<lambda>_. subPruneLoop_steps rest k)
            else subPruneLoop_steps rest k))"

definition subPrune_steps :: "goroutine \<Rightarrow> goroutine" where
  "subPrune_steps k =
     on_kv (kvGetRange KEYRANGE_START KEYRANGE_END) (\<lambda>r. case r of
         Inl _ \<Rightarrow> k
       | Inr kvlist \<Rightarrow> subPruneLoop_steps kvlist k)"

definition prune_steps :: goroutine where
  "prune_steps =
     on_prune (\<lambda>m. (m \<noteq> [], m)) (\<lambda>todo.
       if todo
       then mutex_Lock (subPrune_steps (on_prune (\<lambda>_. ((), [])) (\<lambda>_. mutex_Unlock (Ret Ended))))
       else Ret Ended)"

text \<open>After the range is read, \<open>doScn\<close> only hands jobs to the pool.\<close>

definition doScn_rest :: "Scn \<Rightarrow> bool \<Rightarrow> (string, bool) gomap \<Rightarrow> goroutine" where
  "doScn_rest jdata prune prunemap_copy =
     on_kv (kvGetRange KEYRANGE_START KEYRANGE_END) (\<lambda>r. case r of
         Inl _ \<Rightarrow> Ret Ended
       | Inr kvlist \<Rightarrow>
           (case doScnLoop jdata prune prunemap_copy kvlist [] of
              (crashed, jobs) \<Rightarrow> put_jobs jobs (Ret (if crashed then Crashed else Ended))))"

definition doScn_steps :: "Scn \<Rightarrow> goroutine" where
  "doScn_steps jdata =
     (let jdata_lc = scnToLower jdata; prune = isStateUnavailable jdata in
      if prune
      then mutex_Lock (on_prune
             (\<lambda>m. let m' = fold (\<lambda>c. gm_put c True) (scnComponents jdata_lc) m in (m', m'))
             (\<lambda>prunemap_copy. mutex_Unlock (doScn_rest jdata prune prunemap_copy)))
      else doScn_rest jdata prune [])"

fun deadwoodLoop_steps :: "string list \<Rightarrow> (string \<times> string) list \<Rightarrow> goroutine" where
  "deadwoodLoop_steps badMap [] = Ret Ended"
| "deadwoodLoop_steps badMap ((key, val) # rest) =
     (case go_nth (split_on KEY_DELIM key) 1 of
        None \<Rightarrow> Ret Crashed
      | Some xname \<Rightarrow>
          if xname \<in> set badMap then mark xname (deadwoodLoop_steps badMap rest)
          else deadwoodLoop_steps badMap rest)"

text \<open>\<open>pruneDeadWood\<close> once HSM has told it the components, \<open>badMap\<close>.\<close>

definition pruneDeadWood_steps :: "string list \<Rightarrow> goroutine" where
  "pruneDeadWood_steps badMap =
     on_kv (kvGetRange KEYRANGE_START KEYRANGE_END) (\<lambda>r. case r of
         Inl _ \<Rightarrow> Ret Ended
       | Inr kvlist \<Rightarrow> deadwoodLoop_steps badMap kvlist)"

text \<open>A job: the prune map is read before the attempts and written after them.\<close>

definition send_steps :: "(int \<Rightarrow> attempt) \<Rightarrow> int \<Rightarrow> JobSCNSend \<Rightarrow> goroutine" where
  "send_steps out retries jb =
     (if jobUrl jb = [] then Ret Ended
      else mutex_Lock (on_prune (\<lambda>m. (gm_flag m (jobSubscriber jb), m)) (\<lambda>prune. mutex_Unlock
        (if prune then Ret Ended
         else case sendLoop out retries 1 0 of (retry, ref, sent) \<Rightarrow>
           if ref \<or> retries < retry then mark (jobSubscriber jb) (Ret Ended) else Ret Ended))))"

section \<open>Alone, they do what the handlers do\<close>

definition at_rest :: "substate \<Rightarrow> prest \<Rightarrow> pstate" where
  "at_rest st rest = \<lparr>ps_sub = st, ps_lock = False, ps_rest = rest\<rparr>"

definition ending_of :: "writer option \<Rightarrow> ending" where
  "ending_of w = (case w of None \<Rightarrow> Panicked | Some w \<Rightarrow> Replied w)"

text \<open>With nobody else about, \<open>p\<close> comes to its end and leaves what \<open>res\<close> says.\<close>

definition runs_as :: "goroutine \<Rightarrow> substate \<Rightarrow> writer option \<times> substate \<Rightarrow> bool" where
  "runs_as p st res \<longleftrightarrow>
     (\<forall>rest. proc_run p (at_rest st rest) = Some (ending_of (fst res), at_rest (snd res) rest))"

definition goes_as :: "goroutine \<Rightarrow> substate \<Rightarrow> bool \<times> substate \<Rightarrow> bool" where
  "goes_as p st res \<longleftrightarrow>
     (\<forall>rest. proc_run p (at_rest st rest) =
        Some (if fst res then Crashed else Ended, at_rest (snd res) rest))"

lemma at_rest_fields [simp]:
  "ps_sub (at_rest st rest) = st" "ps_lock (at_rest st rest) = False" "ps_rest (at_rest st rest) = rest"
  "at_rest st rest\<lparr>ps_sub := st'\<rparr> = at_rest st' rest" "at_rest st rest\<lparr>ps_rest := rest'\<rparr> = at_rest st rest'"
  "at_rest st rest\<lparr>ps_lock := False\<rparr> = at_rest st rest"
  "at_rest st rest\<lparr>ps_lock := True, ps_sub := st', ps_lock := False\<rparr> = at_rest st' rest"
  by (simp_all add: at_rest_def)

lemma run_on_kv [simp]:
  "proc_run (on_kv f k) s =
     proc_run (k (fst (f (ss_kv (ps_sub s))))) (s\<lparr>ps_sub := (ps_sub s)\<lparr>ss_kv := snd (f (ss_kv (ps_sub s)))\<rparr>\<rparr>)"
  by (simp add: on_kv_def split: prod.split)

lemma run_on_prune [simp]:
  "proc_run (on_prune f k) s =
     proc_run (k (fst (f (ss_prune (ps_sub s)))))
       (s\<lparr>ps_sub := (ps_sub s)\<lparr>ss_prune := snd (f (ss_prune (ps_sub s)))\<rparr>\<rparr>)"
  by (simp add: on_prune_def split: prod.split)

lemma run_Lock [simp]: "\<not> ps_lock s \<Longrightarrow> proc_run (mutex_Lock k) s = proc_run k (s\<lparr>ps_lock := True\<rparr>)"
  by (simp add: mutex_Lock_def)

lemma run_Unlock [simp]: "proc_run (mutex_Unlock k) s = proc_run k (s\<lparr>ps_lock := False\<rparr>)"
  by (simp add: mutex_Unlock_def)

lemma run_put_jobs [simp]: "proc_run (put_jobs jobs k) s = proc_run k (s\<lparr>ps_rest := (ps_rest s)\<lparr>rs_jobs := jobs\<rparr>\<rparr>)"
  by (simp add: put_jobs_def)

lemma run_tell_hsm [simp]:
  "\<not> chan_full s \<Longrightarrow> proc_run (tell_hsm j k) s =
     proc_run k (s\<lparr>ps_sub := (ps_sub s)\<lparr>ss_hsmsub := ss_hsmsub (ps_sub s) @ [j]\<rparr>\<rparr>)"
  by (simp add: tell_hsm_def)

lemma run_mark [simp]:
  "proc_run (mark name k) (at_rest st rest) =
     proc_run k (at_rest (st\<lparr>ss_prune := gm_put name True (ss_prune st)\<rparr>) rest)"
  by (simp add: mark_def)

lemma runs_as_reply [simp]: "runs_as (reply w) st res \<longleftrightarrow> res = (Some w, st)"
  by (cases res; cases "fst res") (auto simp: runs_as_def ending_of_def at_rest_def)

lemma runs_as_panic [simp]: "runs_as panic st res \<longleftrightarrow> res = (None, st)"
  by (cases res; cases "fst res") (auto simp: runs_as_def ending_of_def at_rest_def)

lemma runs_as_kv [simp]:
  "runs_as (on_kv f k) st res \<longleftrightarrow>
     runs_as (k (fst (f (ss_kv st)))) (st\<lparr>ss_kv := snd (f (ss_kv st))\<rparr>) res"
  by (simp add: runs_as_def)

lemma runs_as_mark [simp]:
  "runs_as (mark name k) st res \<longleftrightarrow> runs_as k (st\<lparr>ss_prune := gm_put name True (ss_prune st)\<rparr>) res"
  by (simp add: runs_as_def)

lemma goes_as_kv [simp]:
  "goes_as (on_kv f k) st res \<longleftrightarrow>
     goes_as (k (fst (f (ss_kv st)))) (st\<lparr>ss_kv := snd (f (ss_kv st))\<rparr>) res"
  by (simp add: goes_as_def)

lemma goes_as_mark [simp]:
  "goes_as (mark name k) st res \<longleftrightarrow> goes_as k (st\<lparr>ss_prune := gm_put name True (ss_prune st)\<rparr>) res"
  by (simp add: goes_as_def)

lemma goes_as_Ret [simp]:
  "goes_as (Ret Ended) st res \<longleftrightarrow> res = (False, st)" "goes_as (Ret Crashed) st res \<longleftrightarrow> res = (True, st)"
  by (cases res; auto simp: goes_as_def at_rest_def)+

lemma storeNew_alone:
  "length (ss_hsmsub st) < hsmsub_cap \<Longrightarrow> runs_as (storeNew_steps e j key w) st (storeNew e j key w st)"
  by (auto simp: storeNew_steps_def storePut_steps_def storeNew_def runs_as_def ending_of_def chan_full_def
      split: prod.split sum.split option.split)

lemma replaceEntry_alone: "runs_as (replaceEntry_steps e c j key exKey w) st (replaceEntry e c j key exKey w st)"
  by (simp add: replaceEntry_steps_def replaceEntry_def Let_def split: prod.split)

lemma patchLoop_alone: "runs_as (patchLoop_steps e c hit exKey j kvs w) st (patchLoop e c hit exKey j kvs w st)"
  by (induction e c hit exKey j kvs w st rule: patchLoop.induct)
     (auto simp: replaceEntry_alone split: option.split)

lemma deleteEntry_alone:
  "runs_as (deleteEntry_steps key n k) st res \<longleftrightarrow> runs_as k (deleteEntry key n st) res"
  by (simp add: deleteEntry_steps_def deleteEntry_def split: prod.split)

lemma deleteLoop_v1_alone: "runs_as (deleteLoop_v1_steps e j kvs w) st (deleteLoop_v1 e j kvs w st)"
  by (induction kvs arbitrary: st) (auto simp: deleteEntry_alone split: option.split)

lemma deleteLoop_v2_alone:
  "runs_as (deleteLoop_v2_steps hit kvs m k) st res \<longleftrightarrow>
     (case deleteLoop_v2 hit kvs m st of
        (None, st') \<Rightarrow> res = (None, st')
      | (Some m', st') \<Rightarrow> runs_as (k m') st' res)"
  by (induction hit kvs m st rule: deleteLoop_v2.induct) (auto simp: deleteEntry_alone split: option.split)

lemma listReply_alone: "runs_as (listReply_steps e want w) st (listReply e want w st)"
  by (auto simp: listReply_steps_def listReply_def split: prod.split sum.split option.split)

lemmas handlers_alone =
  doSubscribePost_steps_def doSubscribePost_def agentPost_steps_def subscriptionsAgentPostHandler_def
  doSubscribePatch_steps_def doSubscribePatch_def agentPatch_steps_def subscriptionsAgentPatchHandler_def
  patchRange_steps_def doSubscribeDelete_steps_def doSubscribeDelete_def
  agentDelete_steps_def subscriptionsAgentDeleteHandler_def xnameDelete_steps_def
  subscriptionsXNameDeleteHandler_def subscriptions_steps_def subscriptionsHandler_def
  xnameGet_steps_def subscriptionsXNameGetHandler_def

lemma post_alone_v1:
  "length (ss_hsmsub st) < hsmsub_cap \<Longrightarrow> runs_as (doSubscribePost_steps r) st (doSubscribePost r st)"
  by (auto simp: handlers_alone Let_def storeNew_alone split: option.split)

lemma post_alone_v2:
  "length (ss_hsmsub st) < hsmsub_cap \<Longrightarrow> runs_as (agentPost_steps r) st (subscriptionsAgentPostHandler r st)"
  by (auto simp: handlers_alone Let_def storeNew_alone split: option.split)

lemma patch_alone:
  "runs_as (doSubscribePatch_steps r) st (doSubscribePatch r st)"
  "runs_as (agentPatch_steps r) st (subscriptionsAgentPatchHandler r st)"
  by (auto simp: handlers_alone Let_def patchLoop_alone split: option.split sum.split prod.split)

lemma delete_alone:
  "runs_as (doSubscribeDelete_steps r) st (doSubscribeDelete r st)"
  "runs_as (agentDelete_steps r) st (subscriptionsAgentDeleteHandler r st)"
  "runs_as (xnameDelete_steps r) st (subscriptionsXNameDeleteHandler r st)"
  by (auto simp: handlers_alone Let_def deleteLoop_v1_alone deleteLoop_v2_alone
      split: option.split sum.split prod.split)

lemma list_alone:
  "runs_as (subscriptions_steps r) st (subscriptionsHandler r st)"
  "runs_as (xnameGet_steps r) st (subscriptionsXNameGetHandler r st)"
  by (auto simp: handlers_alone Let_def listReply_alone)

text \<open>The probes, when \<open>msgbusHandle\<close> and the pool are those of the state.\<close>

lemma run_see [simp]: "proc_run (see_rest f k) s = proc_run (k (f (ps_rest s))) s"
  by (simp add: see_rest_def)

lemma run_bus_steps [simp]: "proc_run (bus_steps k) s = proc_run (k (rs_bus (ps_rest s))) s"
  by (simp add: bus_steps_def split: option.split)

lemma run_prunelen_steps [simp]:
  "proc_run (prunelen_steps k) s = proc_run (k (prune_status (ss_prune (ps_sub s)))) s"
  by (simp add: prunelen_steps_def prune_status_def)

lemma run_key_steps [simp]:
  "key_status key e a v n (Some (ss_kv (ps_sub s))) = (t, Some kv) \<Longrightarrow>
   proc_run (key_steps key e a v k) s = proc_run (k t) (s\<lparr>ps_sub := (ps_sub s)\<lparr>ss_kv := kv\<rparr>\<rparr>)"
  by (auto simp: key_steps_def key_status_def split: prod.splits sum.splits option.splits)

lemma key_status_store: "\<exists>t kv1. key_status key e a v n (Some kv) = (t, Some kv1)"
  by (auto simp: key_status_def split: prod.split sum.split option.split)

lemma readiness_alone:
  assumes "readinessHandler r (Some (ss_kv (ps_sub s))) (rs_bus (ps_rest s)) = (w, Some kv)"
  shows "proc_run (readiness_steps r) s = Some (Replied w, s\<lparr>ps_sub := (ps_sub s)\<lparr>ss_kv := kv\<rparr>\<rparr>)"
  using assms
  by (auto simp: readiness_steps_def readinessHandler_def Let_def split: if_splits prod.splits sum.splits option.splits)

lemma health_alone:
  assumes "healthHandler r (Some (ss_kv (ps_sub s))) (rs_bus (ps_rest s)) (ss_prune (ps_sub s))
      (Some (rs_pool (ps_rest s))) = (w, Some kv)"
  shows "proc_run (health_steps r) s = Some (Replied w, s\<lparr>ps_sub := (ps_sub s)\<lparr>ss_kv := kv\<rparr>\<rparr>)"
proof (cases "rq_method r = ''GET''")
  case True
  obtain t1 kv1 where 1: "key_status ''HMNFD_HEALTH_KEY'' ''Error retrieving key:'' ''Health key not present''
      ''Health key value:'' ''KV Store not initialized'' (Some (ss_kv (ps_sub s))) = (t1, Some kv1)"
    using key_status_store by meson
  obtain t2 kv2 where 2: "key_status ''hsmsubs'' ''HSM Subscription key retrieval error:''
      ''HSM Subscription key not present'' ''HSM Subscription: '' ''KVStore not initialized'' (Some kv1) = (t2, Some kv2)"
    using key_status_store by meson
  let ?s1 = "s\<lparr>ps_sub := (ps_sub s)\<lparr>ss_kv := kv1\<rparr>\<rparr>"
  show ?thesis
    using assms True 1 2 run_key_steps [OF 1] run_key_steps [of _ _ _ _ _ ?s1 t2 kv2, simplified, OF 2]
    by (simp add: health_steps_def healthHandler_def Let_def)
qed (use assms in \<open>auto simp: health_steps_def healthHandler_def\<close>)

lemma subPruneLoop_alone:
  "proc_run (subPruneLoop_steps kvs k) s =
     (case subPruneLoop kvs (ps_sub s) of
        (True, st') \<Rightarrow> Some (Crashed, s\<lparr>ps_sub := st'\<rparr>)
      | (False, st') \<Rightarrow> proc_run k (s\<lparr>ps_sub := st'\<rparr>))"
  by (induction kvs arbitrary: s) (auto split: option.split prod.split bool.split)

text \<open>A round of \<open>prune\<close> that panics dies with the lock.\<close>

lemma prune_alone:
  "proc_run prune_steps (at_rest st rest) =
     (case prune_round st of
        (True, st') \<Rightarrow> Some (Crashed, (at_rest st' rest)\<lparr>ps_lock := True\<rparr>)
      | (False, st') \<Rightarrow> Some (Ended, at_rest st' rest))"
  by (simp add: prune_steps_def prune_round_def subPrune_steps_def subPrune_def subPruneLoop_alone
      split: prod.split bool.split sum.split)

lemma doScn_rest_alone:
  "proc_run (doScn_rest jdata prune copy) (at_rest st rest) =
     (case kvGetRange KEYRANGE_START KEYRANGE_END (ss_kv st) of
        (Inl _, kv1) \<Rightarrow> Some (Ended, at_rest (st\<lparr>ss_kv := kv1\<rparr>) rest)
      | (Inr kvs, kv1) \<Rightarrow>
          (case doScnLoop jdata prune copy kvs [] of (crashed, new) \<Rightarrow>
             Some (if crashed then Crashed else Ended, at_rest (st\<lparr>ss_kv := kv1\<rparr>) (rest\<lparr>rs_jobs := new\<rparr>))))"
  by (simp add: doScn_rest_def split: prod.split sum.split)

lemma doScn_alone:
  "proc_run (doScn_steps jdata) (at_rest st (rest\<lparr>rs_jobs := []\<rparr>)) =
     (case doScn jdata st of ((crashed, jobs), st') \<Rightarrow> Some (if crashed then Crashed else Ended, at_rest st' (rest\<lparr>rs_jobs := jobs\<rparr>)))"
  by (cases "isStateUnavailable jdata")
     (simp_all add: doScn_steps_def doScn_def Let_def doScn_rest_alone split: prod.split sum.split)

lemma deadwoodLoop_alone: "goes_as (deadwoodLoop_steps bad kvs) st (deadwoodLoop bad kvs st)"
  by (induction kvs arbitrary: st) (auto split: option.split)

lemma pruneDeadWood_alone:
  "Nosm p = 0 \<Longrightarrow> deadwoodFetch attempts [] = Some bad \<Longrightarrow> pruneDeadWood p attempts st = Some res \<Longrightarrow>
   goes_as (pruneDeadWood_steps bad) st res"
  by (auto simp: pruneDeadWood_steps_def pruneDeadWood_def deadwoodLoop_alone split: prod.splits sum.splits)

lemma send_alone:
  "goes_as (send_steps out retries jb) st (False, st\<lparr>ss_prune := snd (job_Run out retries jb (ss_prune st))\<rparr>)"
  by (simp add: goes_as_def send_steps_def job_Run_def sendSCNToSubscriber_def split: prod.split)

text \<open>The steps of the theory Posts are those of the POST handlers.\<close>

fun post_at :: "string \<Rightarrow> ScnSubscribe \<Rightarrow> string \<Rightarrow> post_pc \<Rightarrow> goroutine" where
  "post_at errinst jdata subKey PLook = storeNew_steps errinst jdata subKey new_writer"
| "post_at errinst jdata subKey PPut = storePut_steps errinst jdata subKey new_writer"
| "post_at errinst jdata subKey PTell =
     tell_hsm jdata (reply (writeHeader 200 (setHeader ''Connection'' ''close'' new_writer)))"
| "post_at errinst jdata subKey (PDone w) = reply w"

lemma post_step_at:
  assumes "\<not> answered pc" "\<not> chan_full s" "post_step e j key pc (ps_sub s) = (pc', st')"
  shows "proc_step (post_at e j key pc) s = Some (post_at e j key pc', s\<lparr>ps_sub := st'\<rparr>)"
  using assms
  by (cases pc)
     (auto simp: storeNew_steps_def storePut_steps_def on_kv_def act_def tell_hsm_def await_def
       split: prod.splits sum.splits option.splits if_splits)

section \<open>What they keep of the store\<close>

text \<open>
  On a sound store every step moves the store as the handlers do, whatever the others have done to it
  since the step before, and the end is not a panic.
\<close>

definition safe_go :: "goroutine \<Rightarrow> bool" where
  "safe_go = keeps (\<lambda>s. sound_store (ss_kv (ps_sub s)))
     (\<lambda>s s'. kv_moves (ss_kv (ps_sub s)) (ss_kv (ps_sub s'))) (\<lambda>a. a \<noteq> Panicked \<and> a \<noteq> Crashed)"

lemma safe_Ret [simp]: "safe_go (Ret a) \<longleftrightarrow> a \<noteq> Panicked \<and> a \<noteq> Crashed"
  by (simp add: safe_go_def)

lemma safe_kv:
  "(\<And>kv. sound_store kv \<Longrightarrow> kv_moves kv (snd (f kv)) \<and> safe_go (k (fst (f kv)))) \<Longrightarrow> safe_go (on_kv f k)"
  by (simp add: safe_go_def on_kv_def case_prod_unfold)

lemma safe_prune: "(\<And>m. safe_go (k (fst (f m)))) \<Longrightarrow> safe_go (on_prune f k)"
  by (simp add: safe_go_def on_prune_def case_prod_unfold)

lemma safe_see: "(\<And>x. safe_go (k x)) \<Longrightarrow> safe_go (see_rest f k)"
  by (simp add: safe_go_def see_rest_def)

lemma safe_lock [simp]:
  "safe_go k \<Longrightarrow> safe_go (mutex_Lock k)" "safe_go k \<Longrightarrow> safe_go (mutex_Unlock k)"
  "safe_go k \<Longrightarrow> safe_go (tell_hsm j k)" "safe_go k \<Longrightarrow> safe_go (put_jobs jobs k)"
  by (simp_all add: safe_go_def mutex_Lock_def mutex_Unlock_def tell_hsm_def put_jobs_def)

lemma safe_mark [simp]: "safe_go k \<Longrightarrow> safe_go (mark n k)"
  by (simp add: mark_def safe_prune)

lemma safe_range:
  assumes "\<And>k. lo \<le> k \<Longrightarrow> k \<le> hi \<Longrightarrow> sub_key k" "\<And>e. safe_go (k (Inl e))"
    and "\<And>kvs. \<forall>(j, v) \<in> set kvs. sub_key j \<and> entry_ok j v \<Longrightarrow> safe_go (k (Inr kvs))"
  shows "safe_go (on_kv (kvGetRange lo hi) k)"
proof (rule safe_kv, rule conjI [OF kv_moves_range])
  fix kv
  assume kv: "sound_store kv"
  show "safe_go (k (fst (kvGetRange lo hi kv)))"
  proof (cases "fst (kvGetRange lo hi kv)")
    case (Inr kvs)
    then have r: "kvGetRange lo hi kv = (Inr kvs, snd (kvGetRange lo hi kv))" by (metis prod.collapse)
    have "\<forall>(j, v) \<in> set kvs. sub_key j \<and> entry_ok j v"
      using range_sub_keys [OF r assms(1)] range_entries [OF r assms(1) kv] by fast
    then show ?thesis using Inr assms(3) by simp
  qed (simp add: assms(2))
qed

lemma safe_all_range:
  "(\<And>e. safe_go (k (Inl e))) \<Longrightarrow> (\<And>kvs. \<forall>(j, v) \<in> set kvs. sub_key j \<and> entry_ok j v \<Longrightarrow> safe_go (k (Inr kvs))) \<Longrightarrow>
   safe_go (on_kv (kvGetRange KEYRANGE_START KEYRANGE_END) k)"
  by (rule safe_range [OF in_range_sub_key])

lemma entry_moves:
  assumes "clean_sub j xn svc" "subComponents j \<noteq> []"
  shows "kv_moves s (snd (makeSubscriptionEntry (subComponents j) u (makeSubscriptionKey_V2 j xn svc) s))"
  using kv_moves_store [OF _ clean_entry [OF assms]] sub_key_health makeKey_sub_key
  unfolding makeSubscriptionEntry_def by metis

lemma storeNew_safe:
  assumes "clean_sub j xn svc" "subComponents j \<noteq> []"
  shows "safe_go (storeNew_steps e j (makeSubscriptionKey_V2 j xn svc) w)"
  unfolding storeNew_steps_def storePut_steps_def
  by (auto simp: case_prod_unfold kv_moves_get entry_moves [OF assms] intro!: safe_kv
      split: sum.split option.split)

lemma replaceEntry_safe:
  assumes "clean_sub j xn svc" "subComponents j \<noteq> []" "sub_key key"
  shows "safe_go (replaceEntry_steps e c j key (makeSubscriptionKey_V2 j xn svc) w)"
  using entry_moves [OF assms(1,2)] kv_moves_delete [of key] assms(3) sub_key_health
  by (auto simp: replaceEntry_steps_def Let_def intro!: safe_kv)

lemma patchLoop_safe:
  assumes "clean_sub j xn svc" "subComponents j \<noteq> []"
  shows "\<forall>(k, v) \<in> set kvs. sub_key k \<and> entry_ok k v \<Longrightarrow>
    safe_go (patchLoop_steps e c hit (makeSubscriptionKey_V2 j xn svc) j kvs w)"
  using replaceEntry_safe [OF assms]
  by (induction kvs) (fastforce simp: entry_ok_def split: option.split prod.split)+

lemma patchRange_safe:
  assumes "clean_sub j xn svc" "subComponents j \<noteq> []"
  shows "safe_go (patchRange_steps e c hit (makeSubscriptionKey_V2 j xn svc) j w)"
proof -
  obtain lo hi where "patchRange j = Some (lo, hi)" using patchRange_total by blast
  then show ?thesis
    using patchLoop_safe [OF assms] patchRange_sub_keys
    by (auto simp: patchRange_steps_def intro!: safe_range)
qed

lemma deleteEntry_safe: "sub_key key \<Longrightarrow> safe_go k \<Longrightarrow> safe_go (deleteEntry_steps key n k)"
  using kv_moves_delete sub_key_health by (auto simp: deleteEntry_steps_def intro!: safe_kv)

lemma deleteLoop_v1_safe:
  "\<forall>(k, v) \<in> set kvs. sub_key k \<and> entry_ok k v \<Longrightarrow> safe_go (deleteLoop_v1_steps e j kvs w)"
  by (induction kvs) (auto simp: entry_ok_def deleteEntry_safe split: option.split)

lemma deleteLoop_v2_safe:
  "\<forall>(k, v) \<in> set kvs. sub_key k \<and> entry_ok k v \<Longrightarrow> (\<And>m. safe_go (k m)) \<Longrightarrow> safe_go (deleteLoop_v2_steps hit kvs m k)"
  by (induction kvs arbitrary: m) (auto simp: entry_ok_def deleteEntry_safe split: option.split)

lemma listReply_safe: "safe_go (listReply_steps e want w)"
proof -
  have "listLoop want kvs [] \<noteq> None" if "\<forall>(j, v) \<in> set kvs. sub_key j \<and> entry_ok j v" for kvs
    using that by (intro listLoop_total) auto
  then show ?thesis by (auto simp: listReply_steps_def intro!: safe_all_range split: option.split)
qed

lemma subscriber_part:
  "\<exists>x. (if index_of s [c] \<noteq> - 1 then slice_from s (index_of s [c] + 1) else Some s) = Some x"
  using subscriber_slice [of s c]
  by (cases "index_of s [c] = - 1") (simp_all only: if_True if_False not_False_eq_True, auto)

lemma doSubscribePost_safe: "clean_v1 r \<Longrightarrow> safe_go (doSubscribePost_steps r)"
proof (cases "rq_err r \<or> unmarshal_ScnSubscribe (to_lower (rq_body r)) = None")
  case False
  then obtain j where j: "\<not> rq_err r" "unmarshal_ScnSubscribe (to_lower (rq_body r)) = Some j" by blast
  obtain x where x: "(if index_of (subSubscriber j) [SVC_DELIM] \<noteq> - 1
      then slice_from (subSubscriber j) (index_of (subSubscriber j) [SVC_DELIM] + 1)
      else Some (subSubscriber j)) = Some x" using subscriber_part by blast
  assume "clean_v1 r"
  then show ?thesis
    unfolding doSubscribePost_steps_def Let_def j(2) option.case x
    using j storeNew_safe check_components(1) by (auto simp: clean_v1_def makeKey_V1 split: option.split)
qed (auto simp: doSubscribePost_steps_def Let_def)

lemma agentPost_safe: "clean_v2 r \<Longrightarrow> safe_go (agentPost_steps r)"
  using storeNew_safe check_components(2)
  by (auto simp: agentPost_steps_def Let_def clean_v2_def split: option.split)

lemma doSubscribePatch_safe: "clean_v1 r \<Longrightarrow> safe_go (doSubscribePatch_steps r)"
  using patchRange_safe check_components(1)
  by (auto simp: doSubscribePatch_steps_def Let_def clean_v1_def makeKey_V1 split: option.split)

lemma agentPatch_safe: "clean_v2 r \<Longrightarrow> has_components r \<Longrightarrow> safe_go (agentPatch_steps r)"
  using patchRange_safe
  by (auto simp: agentPatch_steps_def Let_def clean_v2_def has_components_def split: option.split)

lemma delete_safe:
  "safe_go (doSubscribeDelete_steps r)" "safe_go (agentDelete_steps r)" "safe_go (xnameDelete_steps r)"
  by (auto simp: doSubscribeDelete_steps_def agentDelete_steps_def xnameDelete_steps_def Let_def
      deleteLoop_v1_safe deleteLoop_v2_safe intro!: safe_all_range split: option.split)

lemma list_safe: "safe_go (subscriptions_steps r)" "safe_go (xnameGet_steps r)"
  by (auto simp: subscriptions_steps_def xnameGet_steps_def Let_def listReply_safe)

lemma subPruneLoop_safe:
  "\<forall>(j, v) \<in> set kvs. sub_key j \<and> entry_ok j v \<Longrightarrow> safe_go k \<Longrightarrow> safe_go (subPruneLoop_steps kvs k)"
  using kv_moves_delete sub_key_health
  by (induction kvs) (auto simp: entry_ok_def intro!: safe_prune safe_kv split: option.split)

lemma prune_safe: "safe_go prune_steps"
  by (auto simp: prune_steps_def subPrune_steps_def intro!: subPruneLoop_safe safe_prune safe_lock safe_all_range)

lemma doScn_rest_safe: "safe_go (doScn_rest jdata prune copy)"
proof -
  have "\<not> fst (doScnLoop jdata prune copy kvs [])" if "\<forall>(j, v) \<in> set kvs. sub_key j \<and> entry_ok j v" for kvs
    using that by (intro doScnLoop_total) auto
  then show ?thesis by (fastforce simp: doScn_rest_def intro!: safe_all_range split: prod.split)
qed

lemma doScn_steps_safe: "safe_go (doScn_steps jdata)"
  by (auto simp: doScn_steps_def Let_def doScn_rest_safe intro!: safe_prune safe_lock)

lemma deadwoodLoop_safe:
  "\<forall>(j, v) \<in> set kvs. sub_key j \<and> entry_ok j v \<Longrightarrow> safe_go (deadwoodLoop_steps bad kvs)"
proof (induction kvs)
  case (Cons kv kvs)
  obtain key val where kv: "kv = (key, val)" by force
  obtain x where "go_nth (split_on KEY_DELIM key) 1 = Some x"
    using Cons.prems by (auto simp: kv entry_ok_def keyService_def split: bind_splits)
  then show ?case using Cons by (simp add: kv)
qed simp

lemma pruneDeadWood_safe: "safe_go (pruneDeadWood_steps bad)"
  by (auto simp: pruneDeadWood_steps_def deadwoodLoop_safe intro!: safe_all_range)

lemma send_safe: "safe_go (send_steps out retries jb)"
  by (auto simp: send_steps_def intro!: safe_prune safe_lock split: prod.split)

text \<open>The probes may panic, which net/http catches; apart from this they are as safe as the others.\<close>

definition live_go :: "goroutine \<Rightarrow> bool" where
  "live_go = keeps (\<lambda>s. sound_store (ss_kv (ps_sub s)))
     (\<lambda>s s'. kv_moves (ss_kv (ps_sub s)) (ss_kv (ps_sub s'))) (\<lambda>a. a \<noteq> Crashed)"

lemma live_Ret [simp]: "live_go (Ret a) \<longleftrightarrow> a \<noteq> Crashed"
  by (simp add: live_go_def)

lemma safe_live: "safe_go p \<Longrightarrow> live_go p"
  unfolding safe_go_def live_go_def by (induction p) auto

lemma live_see [intro!]: "(\<And>x. live_go (k x)) \<Longrightarrow> live_go (see_rest f k)"
  by (simp add: live_go_def see_rest_def)

lemma live_look [intro!]: "(\<And>x. live_go (k x)) \<Longrightarrow> live_go (on_prune f k)"
  by (simp add: live_go_def on_prune_def case_prod_unfold)

lemma live_kv: "(\<And>kv. kv_moves kv (snd (f kv))) \<Longrightarrow> (\<And>x. live_go (k x)) \<Longrightarrow> live_go (on_kv f k)"
  by (simp add: live_go_def on_kv_def case_prod_unfold)

lemma live_get [intro!]: "(\<And>x. live_go (k x)) \<Longrightarrow> live_go (on_kv (kvGet key) k)"
  by (rule live_kv [OF kv_moves_get])

lemma live_key [intro!]: "(\<And>x. live_go (k x)) \<Longrightarrow> live_go (key_steps key e a v k)"
  unfolding key_steps_def
proof (rule live_kv)
  fix kv
  show "kv_moves kv (snd (case kvGet key kv of (Inl _, s1) \<Rightarrow> (e @ kv_errmsg s1, s1)
      | (Inr None, s1) \<Rightarrow> (a, s1) | (Inr (Some x), s1) \<Rightarrow> (v @ x, s1)))"
    using kv_moves_get [of kv key] by (auto split: prod.split sum.split option.split)
qed

lemma probes_live: "live_go (readiness_steps r)" "live_go (health_steps r)"
  by (auto simp: readiness_steps_def health_steps_def bus_steps_def prunelen_steps_def Let_def
      split: option.split sum.split)

section \<open>What they do with the lock\<close>

definition fair_go :: "goroutine \<Rightarrow> bool \<Rightarrow> bool" where
  "fair_go = disciplined ps_lock chan_full (\<lambda>s. ss_prune (ps_sub s)) (\<lambda>a. a = Crashed)"

lemma fair_Ret [simp]: "fair_go (Ret a) h \<longleftrightarrow> (h \<longrightarrow> a = Crashed)"
  by (simp add: fair_go_def)

lemma fair_kv [intro!]: "(\<And>x. fair_go (k x) h) \<Longrightarrow> fair_go (on_kv f k) h"
  unfolding fair_go_def on_kv_def by (rule disciplined_act) (simp_all split: prod.split)

lemma fair_prune [intro!]: "(\<And>x. fair_go (k x) True) \<Longrightarrow> fair_go (on_prune f k) True"
  unfolding fair_go_def on_prune_def by (rule disciplined_act) (simp_all split: prod.split)

lemma fair_look [intro!]:
  "(\<And>m. snd (f m) = m) \<Longrightarrow> (\<And>x. fair_go (k x) False) \<Longrightarrow> fair_go (on_prune f k) False"
  unfolding fair_go_def on_prune_def by (rule disciplined_act) (simp_all add: case_prod_unfold)

lemma fair_see [intro!]: "(\<And>x. fair_go (k x) h) \<Longrightarrow> fair_go (see_rest f k) h"
  unfolding fair_go_def see_rest_def by (rule disciplined_act) simp_all

lemma fair_put_jobs [intro!]: "fair_go k h \<Longrightarrow> fair_go (put_jobs jobs k) h"
  unfolding fair_go_def put_jobs_def by (rule disciplined_act) simp_all

lemma fair_Lock [intro!]: "fair_go k True \<Longrightarrow> fair_go (mutex_Lock k) False"
  unfolding fair_go_def mutex_Lock_def by (rule disciplined_lock) simp_all

lemma fair_Unlock [intro!]: "fair_go k False \<Longrightarrow> fair_go (mutex_Unlock k) True"
  unfolding fair_go_def mutex_Unlock_def by (rule disciplined_unlock) simp_all

lemma fair_tell [intro!]: "fair_go k False \<Longrightarrow> fair_go (tell_hsm j k) False"
  unfolding fair_go_def tell_hsm_def by (rule disciplined_await) simp_all

lemma fair_mark [intro!]: "fair_go k False \<Longrightarrow> fair_go (mark n k) False"
  unfolding mark_def by blast

lemma fair_storeNew [intro!]: "fair_go (storeNew_steps e j key w) False"
  unfolding storeNew_steps_def storePut_steps_def by (auto split: sum.split option.split prod.split)

lemma fair_patchLoop [intro!]: "fair_go (patchLoop_steps e c hit exKey j kvs w) False"
  by (induction kvs) (auto simp: replaceEntry_steps_def Let_def split: option.split)

lemma fair_patchRange [intro!]: "fair_go (patchRange_steps e c hit exKey j w) False"
  unfolding patchRange_steps_def by (auto split: option.split sum.split)

lemma fair_deleteEntry [intro!]: "fair_go k False \<Longrightarrow> fair_go (deleteEntry_steps key n k) False"
  unfolding deleteEntry_steps_def by auto

lemma fair_deleteLoop_v1 [intro!]: "fair_go (deleteLoop_v1_steps e j kvs w) False"
  by (induction kvs) (auto split: option.split)

lemma fair_deleteLoop_v2 [intro!]: "(\<And>m. fair_go (k m) False) \<Longrightarrow> fair_go (deleteLoop_v2_steps hit kvs m k) False"
  by (induction kvs arbitrary: m) (auto split: option.split)

lemma fair_listReply [intro!]: "fair_go (listReply_steps e want w) False"
  unfolding listReply_steps_def by (auto split: option.split sum.split)

lemma fair_handlers:
  "fair_go (doSubscribePost_steps r) False" "fair_go (agentPost_steps r) False"
  "fair_go (doSubscribePatch_steps r) False" "fair_go (agentPatch_steps r) False"
  "fair_go (doSubscribeDelete_steps r) False" "fair_go (agentDelete_steps r) False"
  "fair_go (xnameDelete_steps r) False" "fair_go (subscriptions_steps r) False" "fair_go (xnameGet_steps r) False"
  unfolding doSubscribePost_steps_def agentPost_steps_def doSubscribePatch_steps_def agentPatch_steps_def
    doSubscribeDelete_steps_def agentDelete_steps_def xnameDelete_steps_def subscriptions_steps_def
    xnameGet_steps_def Let_def
  by (auto split: option.split sum.split)

lemma fair_probes: "fair_go (readiness_steps r) False" "fair_go (health_steps r) False"
  unfolding readiness_steps_def health_steps_def bus_steps_def key_steps_def prunelen_steps_def Let_def
  by (auto split: option.split sum.split)

lemma fair_subPruneLoop [intro!]: "fair_go k True \<Longrightarrow> fair_go (subPruneLoop_steps kvs k) True"
  by (induction kvs) (auto split: option.split)

lemma fair_deadwoodLoop [intro!]: "fair_go (deadwoodLoop_steps bad kvs) False"
  by (induction kvs) (auto split: option.split)

lemma fair_goroutines:
  "fair_go prune_steps False" "fair_go (doScn_steps jdata) False" "fair_go (pruneDeadWood_steps bad) False"
  "fair_go (send_steps out retries jb) False"
  unfolding prune_steps_def subPrune_steps_def doScn_steps_def doScn_rest_def pruneDeadWood_steps_def
    send_steps_def Let_def
  by (auto split: sum.split prod.split)

end
