(* ===== verification/Router.thy ===== *)
theory Router
  imports Http
begin

text \<open>
  The table of routes, \<open>generateRoutes\<close> and \<open>newRouter\<close> of cmd/hmi-nfd/api.go, and what the router
  gorilla/mux under vendor does with it: \<open>ServeHTTP\<close>, \<open>Match\<close> and \<open>cleanPath\<close> of mux.go, \<open>Match\<close> of
  route.go, the strict slash of regexp.go. No template of the table ends in a slash and every variable
  is a whole segment, so that the expression that mux compiles for a template is a match by segments with one optional
  slash at the end. A path is taken as it is decoded; the query, which mux copies into a redirection, is left out.
\<close>

section \<open>The table\<close>

datatype handler_id =
  H_paramsGet | H_paramsPatch | H_liveness | H_readiness | H_health | H_subscriptions | H_scn
| H_doSubscribePost | H_doSubscribePatch | H_doSubscribeDelete | H_xnameGet | H_agentPost
| H_agentPatch | H_agentDelete | H_xnameDelete

record Route =
  rtMethod :: string
  rtPattern :: string
  rtHandler :: handler_id

definition generateRoutes :: "Route list" where
  "generateRoutes =
     (let v1Ubase = ''/'' @ ''hmi'' @ ''/'' @ ''v1'' @ ''/'';
          v2Ubase = ''/'' @ ''hmi'' @ ''/'' @ ''v2'' @ ''/'';
          rt = (\<lambda>m p h. \<lparr>rtMethod = m, rtPattern = p, rtHandler = h\<rparr>) in
      [rt ''GET'' (v1Ubase @ ''params'') H_paramsGet,
       rt ''PATCH'' (v1Ubase @ ''params'') H_paramsPatch,
       rt ''GET'' (v1Ubase @ ''liveness'') H_liveness,
       rt ''GET'' (v1Ubase @ ''readiness'') H_readiness,
       rt ''GET'' (v1Ubase @ ''health'') H_health,
       rt ''GET'' (v1Ubase @ ''subscriptions'') H_subscriptions,
       rt ''POST'' (v1Ubase @ ''scn'') H_scn,
       rt ''POST'' (v1Ubase @ ''subscribe'') H_doSubscribePost,
       rt ''PATCH'' (v1Ubase @ ''subscribe'') H_doSubscribePatch,
       rt ''DELETE'' (v1Ubase @ ''subscribe'') H_doSubscribeDelete,
       rt ''GET'' (v2Ubase @ ''params'') H_paramsGet,
       rt ''PATCH'' (v2Ubase @ ''params'') H_paramsPatch,
       rt ''GET'' (v2Ubase @ ''liveness'') H_liveness,
       rt ''GET'' (v2Ubase @ ''readiness'') H_readiness,
       rt ''GET'' (v2Ubase @ ''health'') H_health,
       rt ''GET'' (v2Ubase @ ''subscriptions'') H_subscriptions,
       rt ''GET'' (v2Ubase @ ''subscriptions'' @ ''/{xname}'') H_xnameGet,
       rt ''POST'' (v2Ubase @ ''subscriptions'' @ ''/{xname}/agents/{agent}'') H_agentPost,
       rt ''PATCH'' (v2Ubase @ ''subscriptions'' @ ''/{xname}/agents/{agent}'') H_agentPatch,
       rt ''DELETE'' (v2Ubase @ ''subscriptions'' @ ''/{xname}/agents/{agent}'') H_agentDelete,
       rt ''DELETE'' (v2Ubase @ ''subscriptions'' @ ''/{xname}/agents'') H_xnameDelete,
       rt ''POST'' (v2Ubase @ ''scn'') H_scn])"

section \<open>Matching\<close>

text \<open>A template against the segments of a path: the variables, if it matches.\<close>

fun is_var :: "string \<Rightarrow> bool" where
  "is_var (c # cs) = (c = CHR ''{'' \<and> cs \<noteq> [] \<and> last cs = CHR ''}'')"
| "is_var [] = False"

fun match_segs :: "string list \<Rightarrow> string list \<Rightarrow> (string, string) gomap option" where
  "match_segs [] [] = Some []"
| "match_segs (t # ts) (s # ss) =
     (if is_var t then (if s = [] then None else map_option (\<lambda>vs. (butlast (tl t), s) # vs) (match_segs ts ss))
      else if t = s then match_segs ts ss else None)"
| "match_segs _ _ = None"

text \<open>The path without the slash that \<open>StrictSlash(true)\<close> makes optional.\<close>

definition ends_slash :: "string \<Rightarrow> bool" where
  "ends_slash path \<longleftrightarrow> path \<noteq> [] \<and> last path = CHR ''/''"

definition unslash :: "string \<Rightarrow> string" where
  "unslash path = (if ends_slash path then butlast path else path)"

definition path_match :: "string \<Rightarrow> Route \<Rightarrow> (string, string) gomap option" where
  "path_match path rt = match_segs (split_on CHR ''/'' (rtPattern rt)) (split_on CHR ''/'' (unslash path))"

datatype route_result = Handled handler_id "(string, string) gomap" | Moved string | MethodNotAllowed | NotFound

text \<open>
  The loop over the routes. \<open>mis\<close> is whether \<open>match.MatchErr\<close> is \<open>ErrMethodMismatch\<close>: a route with the
  path and another method sets it, and any matcher that matches afterwards clears it, also the
  method matcher of a route whose path then does not match.
\<close>

fun mux_Match :: "string \<Rightarrow> string \<Rightarrow> Route list \<Rightarrow> bool \<Rightarrow> route_result" where
  "mux_Match meth path [] mis = (if mis then MethodNotAllowed else NotFound)"
| "mux_Match meth path (rt # rts) mis =
     (let ok = (rtMethod rt = meth); mis1 = (if ok then False else mis) in
      case path_match path rt of
        None \<Rightarrow> mux_Match meth path rts mis1
      | Some vs \<Rightarrow>
          if \<not> ok then mux_Match meth path rts True
          else if ends_slash path then Moved (butlast path)
          else Handled (rtHandler rt) vs)"

section \<open>Paths\<close>

text \<open>\<open>path.Clean\<close> of a path that starts with a slash.\<close>

fun clean_segs :: "string list \<Rightarrow> string list \<Rightarrow> string list" where
  "clean_segs [] out = rev out"
| "clean_segs (s # ss) out =
     (if s = [] \<or> s = ''.'' then clean_segs ss out
      else if s = ''..'' then clean_segs ss (tl out)
      else clean_segs ss (s # out))"

definition path_Clean :: "string \<Rightarrow> string" where
  "path_Clean p = CHR ''/'' # join CHR ''/'' (clean_segs (split_on CHR ''/'' p) [])"

definition cleanPath :: "string \<Rightarrow> string" where
  "cleanPath p =
     (if p = [] then ''/''
      else let p1 = (if hd p \<noteq> CHR ''/'' then CHR ''/'' # p else p); np = path_Clean p1 in
        if last p1 = CHR ''/'' \<and> np \<noteq> ''/'' then np @ ''/'' else np)"

definition newRouter :: "Route list \<Rightarrow> string \<Rightarrow> string \<Rightarrow> route_result" where
  "newRouter routes meth path =
     (if cleanPath path \<noteq> path then Moved (cleanPath path) else mux_Match meth path routes False)"

section \<open>Clean paths\<close>

definition good_seg :: "string \<Rightarrow> bool" where
  "good_seg s \<longleftrightarrow> s \<noteq> [] \<and> s \<noteq> ''.'' \<and> s \<noteq> ''..'' \<and> CHR ''/'' \<notin> set s"

definition canon :: "string list \<Rightarrow> bool \<Rightarrow> string" where
  "canon ts b = CHR ''/'' # join CHR ''/'' ts @ (if b \<and> ts \<noteq> [] then ''/'' else [])"

lemma clean_segs_good:
  "\<forall>s \<in> set ss. CHR ''/'' \<notin> set s \<Longrightarrow> \<forall>s \<in> set out. good_seg s \<Longrightarrow> \<forall>s \<in> set (clean_segs ss out). good_seg s"
proof (induction ss out rule: clean_segs.induct)
  case (2 s ss out)
  have out: "\<forall>s \<in> set (tl out). good_seg s" using "2.prems"(2) by (cases out) simp_all
  have ss: "\<forall>s \<in> set ss. CHR ''/'' \<notin> set s" "CHR ''/'' \<notin> set s" using "2.prems"(1) by simp_all
  consider "s = [] \<or> s = ''.''" | "s = ''..''" | "good_seg s" using ss(2) unfolding good_seg_def by blast
  then show ?case
  proof cases
    case 1
    then show ?thesis using "2.IH"(1) [OF 1 ss(1) "2.prems"(2)] by simp
  next
    case 2
    then show ?thesis using "2.IH"(2) [OF _ 2 ss(1) out] by simp
  next
    case 3
    then have "\<not> (s = [] \<or> s = ''.'')" "s \<noteq> ''..''" by (simp_all add: good_seg_def)
    then show ?thesis using "2.IH"(3) [OF _ _ ss(1)] 3 "2.prems"(2) by simp
  qed
qed simp

lemma clean_segs_keep: "\<forall>s \<in> set ss. good_seg s \<Longrightarrow> clean_segs (ss @ rest) out = clean_segs rest (rev ss @ out)"
  by (induction ss arbitrary: out) (auto simp: good_seg_def)

lemma join_good: "\<forall>s \<in> set ts. good_seg s \<Longrightarrow> join CHR ''/'' ts = [] \<longleftrightarrow> ts = []"
  by (cases ts) (simp_all add: join_eq_concat good_seg_def)

lemma cleanPath_canon: "\<exists>ts b. cleanPath p = canon ts b \<and> (\<forall>s \<in> set ts. good_seg s)"
proof (cases "p = []")
  case True
  then show ?thesis by (intro exI [of _ "[]"] exI [of _ False]) (simp add: cleanPath_def canon_def)
next
  case False
  let ?p = "if hd p \<noteq> CHR ''/'' then CHR ''/'' # p else p"
  let ?ts = "clean_segs (split_on CHR ''/'' ?p) []"
  have good: "\<forall>s \<in> set ?ts. good_seg s" using split_on_parts by (intro clean_segs_good) auto
  then have "join CHR ''/'' ?ts = [] \<longleftrightarrow> ?ts = []" by (rule join_good)
  then have "cleanPath p = canon ?ts (last ?p = CHR ''/'')"
    using False by (simp add: cleanPath_def canon_def path_Clean_def Let_def del: clean_segs.simps)
  with good show ?thesis by blast
qed

lemma split_canon:
  assumes "\<forall>s \<in> set ts. good_seg s"
  shows "split_on CHR ''/'' (canon ts b) = [] # (if ts = [] then [[]] else if b then ts @ [[]] else ts)"
proof (cases "ts = []")
  case False
  let ?us = "[] # (if b then ts @ [[]] else ts)"
  have c: "canon ts b = join CHR ''/'' ?us"
    using False by (simp add: canon_def join_Cons join_append)
  have "\<forall>t \<in> set ?us. CHR ''/'' \<notin> set t" using assms by (auto simp: good_seg_def)
  then have "split_on CHR ''/'' (join CHR ''/'' ?us) = ?us" by (intro split_on_join) simp_all
  then show ?thesis unfolding c using False by simp
qed (simp add: canon_def)

lemma canon_last:
  assumes "\<forall>s \<in> set ts. good_seg s"
  shows "ends_slash (canon ts b) \<longleftrightarrow> b \<or> ts = []"
proof (cases "ts = []")
  case False
  then obtain us t where ts: "ts = us @ [t]" by (metis rev_exhaust)
  then have t: "t \<noteq> []" "CHR ''/'' \<notin> set t" using assms by (simp_all add: good_seg_def)
  then have "last (join CHR ''/'' ts) = last t" by (cases "us = []") (simp_all add: ts join_append)
  moreover have "last t \<noteq> CHR ''/''" using t last_in_set by metis
  moreover have "join CHR ''/'' ts \<noteq> []" using join_good [OF assms] False by simp
  ultimately show ?thesis using False by (cases b) (simp_all add: canon_def ends_slash_def)
qed (simp add: canon_def ends_slash_def)

lemma path_Clean_canon:
  assumes "\<forall>s \<in> set ts. good_seg s"
  shows "path_Clean (canon ts b) = CHR ''/'' # join CHR ''/'' ts"
proof -
  have "clean_segs (split_on CHR ''/'' (canon ts b)) [] = ts"
    using clean_segs_keep [OF assms, of "[[]]" "[]"] clean_segs_keep [OF assms, of "[]" "[]"]
    by (simp add: split_canon [OF assms])
  then show ?thesis by (simp only: path_Clean_def)
qed

lemma cleanPath_rooted:
  "p \<noteq> [] \<Longrightarrow> hd p = CHR ''/'' \<Longrightarrow> cleanPath p =
     (if ends_slash p \<and> path_Clean p \<noteq> ''/'' then path_Clean p @ ''/'' else path_Clean p)"
  by (simp add: cleanPath_def ends_slash_def Let_def)

lemma cleanPath_id:
  assumes "\<forall>s \<in> set ts. good_seg s"
  shows "cleanPath (canon ts b) = canon ts b"
proof -
  have r: "canon ts b \<noteq> []" "hd (canon ts b) = CHR ''/''" by (simp_all add: canon_def)
  have n: "CHR ''/'' # join CHR ''/'' ts = ''/'' \<longleftrightarrow> ts = []" using join_good [OF assms] by simp
  show ?thesis
    unfolding cleanPath_rooted [OF r] path_Clean_canon [OF assms] canon_last [OF assms] n
    by (cases b) (simp_all add: canon_def)
qed

text \<open>A redirection leads to a path that is clean.\<close>

lemma cleanPath_idem: "cleanPath (cleanPath p) = cleanPath p"
  using cleanPath_canon [of p] cleanPath_id by metis

lemma clean_unslash:
  assumes "cleanPath p = p" "p \<noteq> ''/''"
  shows "cleanPath (unslash p) = unslash p \<and> \<not> ends_slash (unslash p)"
proof -
  obtain ts b where c: "p = canon ts b" "\<forall>s \<in> set ts. good_seg s" using cleanPath_canon [of p] assms(1) by metis
  then have ts: "ts \<noteq> []" using assms(2) by (auto simp: canon_def)
  have "unslash p = canon ts False"
    using ts canon_last [OF c(2), of b] by (cases b) (simp_all add: c(1) unslash_def canon_def butlast_append)
  then show ?thesis using cleanPath_id [OF c(2)] canon_last [OF c(2), of False] ts by simp
qed

section \<open>Routes\<close>

definition route_match :: "string \<Rightarrow> string \<Rightarrow> Route \<Rightarrow> (string, string) gomap option" where
  "route_match meth path rt = (if rtMethod rt = meth then path_match path rt else None)"

text \<open>Two templates that some path matches both.\<close>

fun segs_meet :: "string list \<Rightarrow> string list \<Rightarrow> bool" where
  "segs_meet [] [] = True"
| "segs_meet (t # ts) (u # us) = ((is_var t \<or> is_var u \<or> t = u) \<and> segs_meet ts us)"
| "segs_meet _ _ = False"

lemma match_both: "match_segs ts ss \<noteq> None \<Longrightarrow> match_segs us ss \<noteq> None \<Longrightarrow> segs_meet ts us"
  by (induction ts us arbitrary: ss rule: segs_meet.induct) (case_tac ss; auto split: if_splits)+

definition routes_meet :: "Route \<Rightarrow> Route \<Rightarrow> bool" where
  "routes_meet r s \<longleftrightarrow> rtMethod r = rtMethod s \<and>
     segs_meet (split_on CHR ''/'' (rtPattern r)) (split_on CHR ''/'' (rtPattern s))"

lemma routes_disjoint:
  "i < length generateRoutes \<Longrightarrow> j < length generateRoutes \<Longrightarrow>
   routes_meet (generateRoutes ! i) (generateRoutes ! j) \<Longrightarrow> i = j"
proof -
  have "list_all (\<lambda>i. list_all (\<lambda>j. routes_meet (generateRoutes ! i) (generateRoutes ! j) \<longrightarrow> i = j)
      [0..<length generateRoutes]) [0..<length generateRoutes]"
    by code_simp
  then show "i < length generateRoutes \<Longrightarrow> j < length generateRoutes \<Longrightarrow>
      routes_meet (generateRoutes ! i) (generateRoutes ! j) \<Longrightarrow> i = j"
    by (simp add: list_all_iff)
qed

lemma route_only:
  assumes "rt \<in> set generateRoutes" "route_match meth path rt = Some vs"
    and "r \<in> set generateRoutes" "route_match meth path r \<noteq> None"
  shows "r = rt"
proof -
  obtain i j where ij: "i < length generateRoutes" "generateRoutes ! i = r"
    "j < length generateRoutes" "generateRoutes ! j = rt"
    using assms(1,3) by (metis in_set_conv_nth)
  have "routes_meet r rt"
    using assms(2,4) match_both by (auto simp: routes_meet_def route_match_def path_match_def split: if_splits)
  then show ?thesis using routes_disjoint [OF ij(1,3)] ij(2,4) by simp
qed

text \<open>A route that matches is taken, whatever was set before, if no other route matches.\<close>

lemma mux_taken:
  assumes "route_match meth path rt = Some vs"
  shows "rt \<in> set rts \<Longrightarrow> (\<And>r. r \<in> set rts \<Longrightarrow> route_match meth path r \<noteq> None \<Longrightarrow> r = rt) \<Longrightarrow>
    mux_Match meth path rts mis =
      (if ends_slash path then Moved (butlast path) else Handled (rtHandler rt) vs)"
proof (induction rts arbitrary: mis)
  case (Cons r rts)
  have m: "rtMethod rt = meth" "path_match path rt = Some vs"
    using assms by (simp_all add: route_match_def split: if_splits)
  show ?case
  proof (cases "r = rt")
    case True
    then show ?thesis using m by simp
  next
    case False
    then have r: "rt \<in> set rts" "route_match meth path r = None"
      using Cons.prems(1) Cons.prems(2) [of r] by (auto simp del: not_None_eq)
    then show ?thesis
      using Cons.IH [OF r(1) Cons.prems(2)] by (auto simp: route_match_def Let_def split: option.split if_splits)
  qed
qed simp

definition last_word :: "string \<Rightarrow> string \<Rightarrow> Route list \<Rightarrow> bool" where
  "last_word meth path rts \<longleftrightarrow>
     (\<exists>pre rt post. rts = pre @ rt # post \<and> path_match path rt \<noteq> None \<and> (\<forall>r \<in> set post. rtMethod r \<noteq> meth))"

lemma last_word_Cons:
  "last_word meth path (rt # rts) \<longleftrightarrow>
     last_word meth path rts \<or> path_match path rt \<noteq> None \<and> (\<forall>r \<in> set rts. rtMethod r \<noteq> meth)"
proof
  assume "last_word meth path (rt # rts)"
  then obtain pre r post where p: "rt # rts = pre @ r # post" "path_match path r \<noteq> None"
    "\<forall>r \<in> set post. rtMethod r \<noteq> meth" by (auto simp: last_word_def)
  show "last_word meth path rts \<or> path_match path rt \<noteq> None \<and> (\<forall>r \<in> set rts. rtMethod r \<noteq> meth)"
  proof (cases pre)
    case (Cons q pre')
    then have "rts = pre' @ r # post" using p(1) by simp
    then show ?thesis using p(2,3) unfolding last_word_def by blast
  qed (use p in simp)
next
  assume "last_word meth path rts \<or> path_match path rt \<noteq> None \<and> (\<forall>r \<in> set rts. rtMethod r \<noteq> meth)"
  then show "last_word meth path (rt # rts)"
    unfolding last_word_def by (metis append_Cons append_Nil)
qed

lemma mux_missed:
  "\<forall>r \<in> set rts. route_match meth path r = None \<Longrightarrow>
   mux_Match meth path rts mis =
     (if last_word meth path rts \<or> mis \<and> (\<forall>r \<in> set rts. rtMethod r \<noteq> meth) then MethodNotAllowed else NotFound)"
proof (induction rts arbitrary: mis)
  case (Cons r rts)
  then have IH: "mux_Match meth path rts mis' =
     (if last_word meth path rts \<or> mis' \<and> (\<forall>r \<in> set rts. rtMethod r \<noteq> meth) then MethodNotAllowed else NotFound)" for mis'
    by simp
  have "route_match meth path r = None" using Cons.prems by simp
  then show ?case
    by (cases "path_match path r"; cases "rtMethod r = meth") (auto simp: IH route_match_def last_word_Cons)
qed (simp add: last_word_def)

lemma mux_Moved: "mux_Match meth path rts mis = Moved p \<Longrightarrow> ends_slash path \<and> p = butlast path"
  by (induction rts arbitrary: mis) (auto simp: Let_def split: if_splits option.splits)

text \<open>A client that follows redirections is done after two of them.\<close>

lemma redirects_end:
  assumes "newRouter generateRoutes meth p = Moved p1" "newRouter generateRoutes meth p1 = Moved p2"
  shows "newRouter generateRoutes meth p2 \<noteq> Moved p3"
proof -
  have root: "newRouter generateRoutes meth ''/'' \<noteq> Moved q" for q
  proof -
    have "list_all (\<lambda>r. path_match ''/'' r = None) generateRoutes" "cleanPath ''/'' = ''/''" by code_simp+
    then show ?thesis by (simp add: newRouter_def mux_missed list_all_iff route_match_def)
  qed
  have step: "cleanPath b = b \<and> (\<not> ends_slash b \<or> cleanPath a \<noteq> a)" if "newRouter generateRoutes meth a = Moved b" for a b
  proof (cases "cleanPath a = a")
    case True
    then have "mux_Match meth a generateRoutes False = Moved b" using that by (simp add: newRouter_def)
    from mux_Moved [OF this] have "b = unslash a" by (simp add: unslash_def)
    moreover have "a \<noteq> ''/''" using that root by blast
    ultimately show ?thesis using clean_unslash [OF True] by simp
  qed (use that cleanPath_idem in \<open>auto simp: newRouter_def\<close>)
  have "cleanPath p1 = p1" using step [OF assms(1)] by blast
  then have p2: "cleanPath p2 = p2" "\<not> ends_slash p2" using step [OF assms(2)] by blast+
  then show ?thesis using mux_Moved [of meth p2 generateRoutes False p3] by (auto simp: newRouter_def)
qed

section \<open>Properties\<close>

text \<open>
  C31: For the table of routes in any order and a clean path, the state that the loop of the
  router carries does not matter when a route matches: that route is taken (with a redirection
  when the path ends in a slash). Without a match the answer is 405 exactly when a route has the
  path and no route after it has the method of the request, and 404 otherwise.
\<close>

theorem router_spec:
  assumes "set routes = set generateRoutes" "cleanPath path = path"
  shows "(\<forall>rt vs. rt \<in> set routes \<and> route_match meth path rt = Some vs \<longrightarrow>
      newRouter routes meth path = (if ends_slash path then Moved (butlast path) else Handled (rtHandler rt) vs)) \<and>
    ((\<forall>rt \<in> set routes. route_match meth path rt = None) \<longrightarrow>
      newRouter routes meth path = (if last_word meth path routes then MethodNotAllowed else NotFound))"
proof (intro conjI allI impI)
  fix rt vs
  assume rt: "rt \<in> set routes \<and> route_match meth path rt = Some vs"
  then show "newRouter routes meth path = (if ends_slash path then Moved (butlast path) else Handled (rtHandler rt) vs)"
    using mux_taken [of meth path rt vs routes False] route_only [of rt meth path vs] assms
    by (simp add: newRouter_def)
next
  assume "\<forall>rt \<in> set routes. route_match meth path rt = None"
  then show "newRouter routes meth path = (if last_word meth path routes then MethodNotAllowed else NotFound)"
    using assms(2) by (simp add: newRouter_def mux_missed)
qed

theorem router_spec_witness:
  "newRouter (rev generateRoutes) ''DELETE'' ''/hmi/v2/subscriptions/x0c0/agents/mon'' =
     Handled H_agentDelete [(''xname'', ''x0c0''), (''agent'', ''mon'')]"
proof -
  have "list_ex (\<lambda>rt. route_match ''DELETE'' ''/hmi/v2/subscriptions/x0c0/agents/mon'' rt =
      Some [(''xname'', ''x0c0''), (''agent'', ''mon'')] \<and> rtHandler rt = H_agentDelete) generateRoutes"
    by code_simp
  then obtain rt where rt: "rt \<in> set (rev generateRoutes)" "rtHandler rt = H_agentDelete"
    "route_match ''DELETE'' ''/hmi/v2/subscriptions/x0c0/agents/mon'' rt = Some [(''xname'', ''x0c0''), (''agent'', ''mon'')]"
    by (auto simp: list_ex_iff)
  have c: "cleanPath ''/hmi/v2/subscriptions/x0c0/agents/mon'' = ''/hmi/v2/subscriptions/x0c0/agents/mon''"
    "\<not> ends_slash ''/hmi/v2/subscriptions/x0c0/agents/mon''" by code_simp+
  have "set (rev generateRoutes) = set generateRoutes" by simp
  from router_spec [OF this c(1)] rt c(2) show ?thesis by simp
qed

text \<open>
  The answer 405 of the API documents is rare: a later route with the method of the request turns it
  into 404.
\<close>

lemma allowed_methods:
  "newRouter generateRoutes ''POST'' ''/hmi/v2/params'' = NotFound"
  "newRouter generateRoutes ''DELETE'' ''/hmi/v2/params'' = NotFound"
  "newRouter generateRoutes ''PUT'' ''/hmi/v2/params'' = MethodNotAllowed"
  "newRouter generateRoutes ''POST'' ''/hmi/v2/liveness'' = NotFound"
  by code_simp+

end
