(* ===== verification/Service.thy ===== *)
theory Service
  imports StoreInv Router
begin

text \<open>
  What the program promises, without keys, JSON, statuses of the store or loops: a service with a map of
  subscriptions, a set of names that are due to be removed, and the list of what HSM was told. One
  rule per operation says what it does and what is observed. The handlers and the rounds of the
  goroutines refine it, on a store that answers and as long as the requests are clean.
\<close>

section \<open>Simulations\<close>

text \<open>A run of a program whose steps can fail, and a run of a specification.\<close>

fun runs :: "('e \<Rightarrow> 'c \<Rightarrow> ('o \<times> 'c) option) \<Rightarrow> 'e list \<Rightarrow> 'c \<Rightarrow> ('o list \<times> 'c) option" where
  "runs step [] c = Some ([], c)"
| "runs step (e # es) c =
     (case step e c of
        None \<Rightarrow> None
      | Some (x, c') \<Rightarrow> map_option (\<lambda>(xs, c''). (x # xs, c'')) (runs step es c'))"

inductive spec_runs :: "('f \<Rightarrow> 'a \<Rightarrow> 'o \<Rightarrow> 'a \<Rightarrow> bool) \<Rightarrow> 'f list \<Rightarrow> 'a \<Rightarrow> 'o list \<Rightarrow> 'a \<Rightarrow> bool"
  for spec where
  finished: "spec_runs spec [] a [] a"
| more: "spec f a x a' \<Longrightarrow> spec_runs spec fs a' xs a'' \<Longrightarrow> spec_runs spec (f # fs) a (x # xs) a''"

inductive_simps spec_runs_Nil [simp]: "spec_runs spec [] a xs a'"
inductive_cases spec_runs_ConsE: "spec_runs spec (f # fs) a xs a'"

locale simulation =
  fixes step :: "'e \<Rightarrow> 'c \<Rightarrow> ('o \<times> 'c) option"
    and spec :: "'f \<Rightarrow> 'a \<Rightarrow> 'o \<Rightarrow> 'a \<Rightarrow> bool"
    and op_of :: "'e \<Rightarrow> 'f"
    and abs :: "'c \<Rightarrow> 'a"
    and inv :: "'c \<Rightarrow> bool"
    and ok :: "'e \<Rightarrow> bool"
  assumes sim: "inv c \<Longrightarrow> ok e \<Longrightarrow>
    \<exists>x c'. step e c = Some (x, c') \<and> inv c' \<and> spec (op_of e) (abs c) x (abs c')"
begin

lemma simulated:
  "inv c \<Longrightarrow> \<forall>e \<in> set es. ok e \<Longrightarrow>
   \<exists>xs c'. runs step es c = Some (xs, c') \<and> inv c' \<and> spec_runs spec (map op_of es) (abs c) xs (abs c')"
proof (induction es arbitrary: c)
  case Nil
  then show ?case by simp
next
  case (Cons e es)
  then obtain x c1 where 1: "step e c = Some (x, c1)" "inv c1" "spec (op_of e) (abs c) x (abs c1)"
    using sim [of c e] by auto
  then obtain xs c' where "runs step es c1 = Some (xs, c')" "inv c'"
    "spec_runs spec (map op_of es) (abs c1) xs (abs c')"
    using Cons by fastforce
  then show ?case using 1 by (auto intro: spec_runs.more)
qed

end

section \<open>The service\<close>

record service =
  sc_subs :: "string \<rightharpoonup> SubData"
  sc_due :: "string set"
  sc_told :: "ScnSubscribe list"

text \<open>
  The operations: to refuse, to add a subscription under a key, to replace one that passes a test, to
  remove all that do, to list; to remove what is due, to note names as due (\<open>OpDead\<close>: the
  components among them that have a subscription), to fan a notification out.
\<close>

datatype service_op =
  OpRefuse nat
| OpAdd string ScnSubscribe
| OpReplace "string \<Rightarrow> SubData \<Rightarrow> bool" string ScnSubscribe nat
| OpRemove "string \<Rightarrow> SubData \<Rightarrow> bool" nat nat
| OpList "string \<Rightarrow> bool"
| OpPrune
| OpDue "string set"
| OpDead "string set"
| OpNotify Scn

datatype observed = Answered writer | Sent "JobSCNSend list" | Nothing

definition hits_of :: "(string \<Rightarrow> SubData \<Rightarrow> bool) \<Rightarrow> service \<Rightarrow> string set" where
  "hits_of hit s = {k. \<exists>sd. sc_subs s k = Some sd \<and> hit k sd}"

definition due_key :: "string set \<Rightarrow> string \<Rightarrow> bool" where
  "due_key D k \<longleftrightarrow> in_range k \<and> (key_component k \<in> D \<or>
     (\<exists>x a. keyService k = Some (x, a) \<and> pruneName x a \<in> D))"

text \<open>Those who are not to be notified, and those who are.\<close>

definition unavailable :: "Scn \<Rightarrow> service \<Rightarrow> string set" where
  "unavailable scn s =
     (if isStateUnavailable scn then sc_due s \<union> to_lower ` set (scnComponents scn) else {})"

definition addressees :: "Scn \<Rightarrow> service \<Rightarrow> string set" where
  "addressees scn s = {k. in_range k \<and> attr_match scn k \<and> key_component k \<notin> unavailable scn s \<and>
     (\<exists>sd. sc_subs s k = Some sd \<and> wanted (sdScnNodes sd) (scnComponents (scnToLower scn)) \<noteq> [])}"

inductive service_step :: "service_op \<Rightarrow> service \<Rightarrow> observed \<Rightarrow> service \<Rightarrow> bool" where
  refuse: "service_step (OpRefuse c) s (Answered w) s" if "status_of w = c"
| add: "service_step (OpAdd key j) s (Answered w)
     (s\<lparr>sc_subs := (sc_subs s)(key \<mapsto> entry_of j), sc_told := sc_told s @ [j]\<rparr>)"
   if "sc_subs s key = None" "status_of w = 200"
| taken: "service_step (OpAdd key j) s (Answered w) s" if "sc_subs s key \<noteq> None" "status_of w = 400"
| unmet: "service_step (OpReplace hit key j c) s (Answered w) s" if "hits_of hit s = {}" "status_of w = c"
| replace: "service_step (OpReplace hit key j c) s (Answered w)
     (s\<lparr>sc_subs := ((sc_subs s)(old := None))(key \<mapsto> entry_of j)\<rparr>)"
   if "old \<in> hits_of hit s" "status_of w = c"
| remove: "service_step (OpRemove hit c0 c) s (Answered w)
     (s\<lparr>sc_subs := sc_subs s |` (- hits_of hit s), sc_due := sc_due s \<union> key_svcName ` hits_of hit s\<rparr>)"
   if "status_of w = (if hits_of hit s = {} then c0 else c)"
| listing: "service_step (OpList want) s
     (Answered (list_answer (map (\<lambda>k. info_of k (the (sc_subs s k))) ks))) s"
   if "distinct ks" "set ks = {k. in_range k \<and> sc_subs s k \<noteq> None \<and> want (key_component k)}"
| prune: "service_step OpPrune s Nothing
     (s\<lparr>sc_subs := sc_subs s |` {k. \<not> due_key (sc_due s) k}, sc_due := {}\<rparr>)"
| due: "service_step (OpDue N) s Nothing (s\<lparr>sc_due := sc_due s \<union> N\<rparr>)"
| dead: "service_step (OpDead N) s Nothing
     (s\<lparr>sc_due := sc_due s \<union> {n \<in> N. \<exists>k. in_range k \<and> sc_subs s k \<noteq> None \<and> key_component k = n}\<rparr>)"
| notify: "service_step (OpNotify scn) s
     (Sent (map (\<lambda>k. job_for scn k (the (sc_subs s k))) ks)) (s\<lparr>sc_due := sc_due s \<union> unavailable scn s\<rparr>)"
   if "distinct ks" "set ks = addressees scn s"

inductive_cases service_stepE: "service_step op s x s'"

section \<open>What a request asks for\<close>

definition body_op :: "request \<Rightarrow> (ScnSubscribe \<Rightarrow> service_op) \<Rightarrow> service_op" where
  "body_op r f =
     (if rq_err r then OpRefuse 400
      else case unmarshal_ScnSubscribe (to_lower (rq_body r)) of None \<Rightarrow> OpRefuse 400 | Some j \<Rightarrow> f j)"

definition path_op :: "request \<Rightarrow> (string \<Rightarrow> service_op) \<Rightarrow> service_op" where
  "path_op r f =
     (let xn = VerifyNormalizeCompID (rq_var r ''xname'') in if xn = [] then OpRefuse 400 else f xn)"

text \<open>The component of a v1 subscriber.\<close>

definition v1_xname :: "ScnSubscribe \<Rightarrow> string" where
  "v1_xname j =
     (let ix = index_of (subSubscriber j) [SVC_DELIM] in
      if ix \<noteq> - 1 then drop (nat (ix + 1)) (subSubscriber j) else subSubscriber j)"

text \<open>The subscriptions that a PATCH is about.\<close>

definition patch_target ::
  "(string \<Rightarrow> string option \<Rightarrow> SubData \<Rightarrow> bool) \<Rightarrow> ScnSubscribe \<Rightarrow> string \<Rightarrow> SubData \<Rightarrow> bool" where
  "patch_target hit j k sd \<longleftrightarrow>
     (case patchRange j of Some (lo, hi) \<Rightarrow> lo \<le> k \<and> k \<le> hi | None \<Rightarrow> False) \<and>
     (case keyServicePatch k of Some (x, a) \<Rightarrow> hit x a sd | None \<Rightarrow> False)"

fun request_op :: "handler_id \<Rightarrow> request \<Rightarrow> service_op" where
  "request_op H_doSubscribePost r =
     body_op r (\<lambda>j. if checkSubscription_v1 j \<noteq> None \<or> \<not> hmsTypeValid (v1_xname j) then OpRefuse 400
       else OpAdd (makeSubscriptionKey_V1 j) j)"
| "request_op H_agentPost r =
     path_op r (\<lambda>xn. body_op r (\<lambda>j. if checkSubscription_v2 j \<noteq> None then OpRefuse 400
       else OpAdd (makeSubscriptionKey_V2 j xn (rq_var r ''agent'')) j))"
| "request_op H_doSubscribePatch r =
     body_op r (\<lambda>j. if checkSubscription_v1 j \<noteq> None then OpRefuse 400
       else OpReplace (patch_target (patch_hit_v1 j) j) (makeSubscriptionKey_V1 j) j 200)"
| "request_op H_agentPatch r =
     path_op r (\<lambda>xn. body_op r (\<lambda>j. OpReplace (patch_target (patch_hit_v2 xn (rq_var r ''agent'')) j)
       (makeSubscriptionKey_V2 j xn (rq_var r ''agent'')) j 204))"
| "request_op H_doSubscribeDelete r =
     (case unmarshal_NodeSubscriptionDelete (rq_body r) of
        None \<Rightarrow> OpRefuse 400
      | Some j \<Rightarrow>
          let c = (if rq_err r \<or> nsdSubscriber j = [] \<or> nsdUrl j = [] then 400 else 200) in
          OpRemove (\<lambda>k sd. in_range k \<and> to_lower (key_svcName k) = to_lower (nsdSubscriber j) \<and>
            to_lower (sdUrl sd) = to_lower (nsdUrl j)) c c)"
| "request_op H_agentDelete r =
     path_op r (\<lambda>xn. OpRemove (\<lambda>k sd. in_range k \<and> key_component k = xn \<and> key_agent k = rq_var r ''agent'') 400 204)"
| "request_op H_xnameDelete r =
     path_op r (\<lambda>xn. OpRemove (\<lambda>k sd. in_range k \<and> key_component k = xn) 204 204)"
| "request_op H_subscriptions r = (if rq_method r \<noteq> ''GET'' then OpRefuse 405 else OpList (\<lambda>_. True))"
| "request_op H_xnameGet r =
     (if rq_method r \<noteq> ''GET'' then OpRefuse 405 else path_op r (\<lambda>xn. OpList (\<lambda>c. c = xn)))"
| "request_op _ r = OpRefuse 0"

section \<open>The program\<close>

fun sub_handler :: "handler_id \<Rightarrow> (request \<Rightarrow> substate \<Rightarrow> writer option \<times> substate) option" where
  "sub_handler H_subscriptions = Some subscriptionsHandler"
| "sub_handler H_doSubscribePost = Some doSubscribePost"
| "sub_handler H_doSubscribePatch = Some doSubscribePatch"
| "sub_handler H_doSubscribeDelete = Some doSubscribeDelete"
| "sub_handler H_xnameGet = Some subscriptionsXNameGetHandler"
| "sub_handler H_agentPost = Some subscriptionsAgentPostHandler"
| "sub_handler H_agentPatch = Some subscriptionsAgentPatchHandler"
| "sub_handler H_agentDelete = Some subscriptionsAgentDeleteHandler"
| "sub_handler H_xnameDelete = Some subscriptionsXNameDeleteHandler"
| "sub_handler _ = None"

text \<open>
  A request, a round of \<open>prune\<close>, a notification to fan out, a job of a worker with the outcome of its attempts, the
  reply of HSM to \<open>pruneDeadWood\<close>.
\<close>

datatype service_event =
  Requested handler_id request
| PruneRound
| Notified Scn
| JobRun "int \<Rightarrow> attempt" int JobSCNSend
| DeadNodes opParams "string option list"

fun sub_step :: "service_event \<Rightarrow> substate \<Rightarrow> (observed \<times> substate) option" where
  "sub_step (Requested h r) st =
     (case sub_handler h of
        None \<Rightarrow> None
      | Some f \<Rightarrow> (case f r st of (None, _) \<Rightarrow> None | (Some w, st') \<Rightarrow> Some (Answered w, st')))"
| "sub_step PruneRound st =
     (case prune_round st of (crashed, st') \<Rightarrow> if crashed then None else Some (Nothing, st'))"
| "sub_step (Notified scn) st =
     (case doScn scn st of ((crashed, jobs), st') \<Rightarrow> if crashed then None else Some (Sent jobs, st'))"
| "sub_step (JobRun out retries jb) st =
     Some (Nothing, st\<lparr>ss_prune := snd (job_Run out retries jb (ss_prune st))\<rparr>)"
| "sub_step (DeadNodes p attempts) st =
     (case pruneDeadWood p attempts st of
        None \<Rightarrow> Some (Nothing, st)
      | Some (crashed, st') \<Rightarrow> if crashed then None else Some (Nothing, st'))"

fun op_of :: "service_event \<Rightarrow> service_op" where
  "op_of (Requested h r) = request_op h r"
| "op_of PruneRound = OpPrune"
| "op_of (Notified scn) = OpNotify scn"
| "op_of (JobRun out retries jb) =
     OpDue (if jobUrl jb \<noteq> [] \<and> \<not> delivered out retries then {jobSubscriber jb} else {})"
| "op_of (DeadNodes p attempts) =
     (if Nosm p \<noteq> 0 then OpDue {}
      else case deadwoodFetch attempts [] of None \<Rightarrow> OpDue {} | Some bad \<Rightarrow> OpDead (set bad))"

text \<open>The requests that write subscriptions must be clean.\<close>

definition clean_request :: "handler_id \<Rightarrow> request \<Rightarrow> bool" where
  "clean_request h r \<longleftrightarrow>
     (h \<in> {H_doSubscribePost, H_doSubscribePatch} \<longrightarrow> clean_v1 r) \<and>
     (h \<in> {H_agentPost, H_agentPatch} \<longrightarrow> clean_v2 r) \<and>
     (h = H_agentPatch \<longrightarrow> has_components r)"

fun event_ok :: "service_event \<Rightarrow> bool" where
  "event_ok (Requested h r) \<longleftrightarrow> sub_handler h \<noteq> None \<and> clean_request h r"
| "event_ok _ \<longleftrightarrow> True"

section \<open>The state of the program as a service\<close>

definition service_of :: "substate \<Rightarrow> service" where
  "service_of st = \<lparr>sc_subs = subscriptions st |` {k. sub_key k}, sc_due = {n. gm_flag (ss_prune st) n},
     sc_told = ss_hsmsub st\<rparr>"

definition sub_ok :: "substate \<Rightarrow> bool" where
  "sub_ok st \<longleftrightarrow> store_up st \<and> sound_store (ss_kv st)"

lemma service_of_simps [simp]:
  "sc_subs (service_of st) = subscriptions st |` {k. sub_key k}"
  "sc_due (service_of st) = {n. gm_flag (ss_prune st) n}"
  "sc_told (service_of st) = ss_hsmsub st"
  by (simp_all add: service_of_def)

lemma service_eqI:
  "sc_subs s = sc_subs t \<Longrightarrow> sc_due s = sc_due t \<Longrightarrow> sc_told s = sc_told t \<Longrightarrow> s = (t :: service)"
  by simp

lemma in_range_sub [simp]: "in_range k \<Longrightarrow> sub_key k"
  by (simp add: in_range_def in_range_sub_key)

text \<open>Every entry under the key of a subscription can be read.\<close>

lemma sub_ok_entry:
  assumes "sub_ok st" "sub_key k" "k \<in> dom (kv_content (ss_kv st))"
  shows "keyService k \<noteq> None \<and> keyServicePatch k \<noteq> None \<and> subinfo_of_key k \<noteq> None \<and>
    (\<exists>sd. subscriptions st k = Some sd \<and> sdScnNodes sd \<noteq> [])"
proof -
  obtain v where "kv_content (ss_kv st) k = Some v" using assms(3) by auto
  moreover from this have "entry_ok k v" using assms by (simp add: sub_ok_def sound_store_def)
  ultimately show ?thesis by (auto simp: entry_ok_def subscriptions_def)
qed

lemma sub_ok_facts:
  assumes "sub_ok st"
  shows "store_up st" "keys_readable st" "entries_readable st" "keys_listable st" "deliverable st"
    "\<And>lo hi. \<forall>k. lo \<le> k \<longrightarrow> k \<le> hi \<longrightarrow> sub_key k \<Longrightarrow> entries_patchable lo hi st"
  using assms sub_ok_entry [OF assms] in_range_sub
  unfolding sub_ok_def keys_readable_def entries_readable_def keys_listable_def deliverable_def entries_patchable_def
  by blast+

lemma stored_iff: "sub_ok st \<Longrightarrow> sub_key k \<Longrightarrow> kv_content (ss_kv st) k = None \<longleftrightarrow> subscriptions st k = None"
  using sub_ok_entry [of st k] by (cases "kv_content (ss_kv st) k") (auto simp: subscriptions_def)

lemma sub_ok_moves: "sub_ok st \<Longrightarrow> kv_moves (ss_kv st) (ss_kv st') \<Longrightarrow> sub_ok st'"
  using kv_moves_sound by (auto simp: sub_ok_def store_up_def kv_moves_def)

section \<open>The handlers refine the operations\<close>

text \<open>What is to be shown of a result: it is the answer of the operation, which the state follows.\<close>

definition answers :: "service_op \<Rightarrow> substate \<Rightarrow> writer option \<times> substate \<Rightarrow> bool" where
  "answers op st res \<longleftrightarrow> (\<exists>w st'. res = (Some w, st') \<and>
     service_step op (service_of st) (Answered w) (service_of st'))"

lemma answersI:
  "res = (Some w, st') \<Longrightarrow> service_of st' = s' \<Longrightarrow> service_step op (service_of st) (Answered w) s' \<Longrightarrow>
   answers op st res"
  by (auto simp: answers_def)

lemma answers_refuse: "status_of w = c \<Longrightarrow> answers (OpRefuse c) st (Some w, st)"
  by (auto simp: answers_def intro: service_step.refuse)

lemma storeNew_answers:
  assumes "sub_ok st" "sub_key key"
  shows "answers (OpAdd key j) st (storeNew e j key new_writer st)"
proof -
  note up = storeNew_up [OF sub_ok_facts(1) [OF assms(1)], of e j key]
  obtain w st' where s: "storeNew e j key new_writer st = (Some w, st')" using up by blast
  have p: "ss_prune st' = ss_prune st" using storeNew_prune [of e j key new_writer st] s by simp
  show ?thesis
  proof (cases "subscriptions st key = None")
    case True
    then have "status_of w = 200" "subscriptions st' = (subscriptions st)(key \<mapsto> entry_of j)"
      "ss_hsmsub st' = ss_hsmsub st @ [j]"
      using up s stored_iff [OF assms] by simp_all
    moreover from this have "service_of st' = service_of st
        \<lparr>sc_subs := (sc_subs (service_of st))(key \<mapsto> entry_of j), sc_told := sc_told (service_of st) @ [j]\<rparr>"
      using p assms(2) by (intro service_eqI) auto
    moreover have "sc_subs (service_of st) key = None" using True by (simp add: restrict_map_def)
    ultimately show ?thesis
      using s service_step.add [of "service_of st" key w j] by (simp add: answers_def)
  next
    case False
    then have "status_of w = 400" "subscriptions st' = subscriptions st" "ss_hsmsub st' = ss_hsmsub st"
      using up s stored_iff [OF assms] by simp_all
    moreover from this have "service_of st' = service_of st" using p by (intro service_eqI) simp_all
    moreover have "sc_subs (service_of st) key \<noteq> None" using False assms(2) by simp
    ultimately show ?thesis
      using s service_step.taken [of "service_of st" key w j] by (simp add: answers_def)
  qed
qed

lemma entry_hit_iff: "entry_hit hit (k, v) \<longleftrightarrow>
    (\<exists>x a sd. keyServicePatch k = Some (x, a) \<and> unmarshal_SubData v = Some sd \<and> hit x a sd)"
  by (auto simp: entry_hit_def split: option.splits)

lemma patch_target_iff: "patch_target hit j k sd \<longleftrightarrow>
    (\<exists>lo hi x a. patchRange j = Some (lo, hi) \<and> lo \<le> k \<and> k \<le> hi \<and> keyServicePatch k = Some (x, a) \<and> hit x a sd)"
  by (auto simp: patch_target_def split: option.splits)

lemma patchLoop_answers:
  assumes "sub_ok st" "patchRange j = Some (lo, hi)" "kvGetRange lo hi (ss_kv st) = (Inr kvs, kv1)" "sub_key key"
  shows "answers (OpReplace (patch_target hit j) key j c) st
    (patchLoop e c hit key j kvs new_writer (st\<lparr>ss_kv := kv1\<rparr>))"
proof -
  have sub: "sub_key k" if "lo \<le> k" "k \<le> hi" for k using patchRange_sub_keys [OF assms(2) that] .
  obtain st' where st': "patchLoop e c hit key j kvs new_writer (st\<lparr>ss_kv := kv1\<rparr>) = (Some (writeHeader c new_writer), st')"
    "ss_prune st' = ss_prune st" "ss_hsmsub st' = ss_hsmsub st"
    and eff: "if patch_hits hit lo hi st = {} then subscriptions st' = subscriptions st
      else \<exists>old \<in> patch_hits hit lo hi st. subscriptions st' = ((subscriptions st)(old := None))(key \<mapsto> entry_of j)"
    using patchLoop_any [OF sub_ok_facts(1) [OF assms(1)] sub_ok_facts(6) [OF assms(1)] assms(3), of e c hit key j] sub
    by blast
  have hits: "patch_hits hit lo hi st = hits_of (patch_target hit j) (service_of st)"
    using sub by (auto simp: patch_hits_def hits_of_def patch_target_iff assms(2) entry_hit_iff subscriptions_def
        restrict_map_def bind_eq_Some_conv)
  show ?thesis
  proof (cases "hits_of (patch_target hit j) (service_of st) = {}")
    case True
    then have "service_of st' = service_of st" using eff st' by (intro service_eqI) (simp_all add: hits)
    then show ?thesis
      using st'(1) service_step.unmet [OF True, of "writeHeader c new_writer" c key j] by (simp add: answers_def)
  next
    case False
    then obtain old where old: "old \<in> hits_of (patch_target hit j) (service_of st)"
      "subscriptions st' = ((subscriptions st)(old := None))(key \<mapsto> entry_of j)"
      using eff by (auto simp: hits)
    then have "service_of st' = service_of st
        \<lparr>sc_subs := ((sc_subs (service_of st))(old := None))(key \<mapsto> entry_of j)\<rparr>"
      using st' assms(4) by (intro service_eqI) (auto simp: restrict_map_def)
    then show ?thesis
      using st'(1) service_step.replace [OF old(1), of "writeHeader c new_writer" c key j] by (simp add: answers_def)
  qed
qed

text \<open>A deletion, given what it does to the map of subscriptions and to the prune map.\<close>

lemma deleted_answers:
  assumes "deleted H st st'" "H = hits_of hit (service_of st)" "status_of w = (if H = {} then c0 else c)"
  shows "answers (OpRemove hit c0 c) st (Some w, st')"
proof -
  have "service_of st' = service_of st\<lparr>sc_subs := sc_subs (service_of st) |` (- hits_of hit (service_of st)),
      sc_due := sc_due (service_of st) \<union> key_svcName ` hits_of hit (service_of st)\<rparr>"
    using assms(1) unfolding assms(2) [symmetric] by (intro service_eqI) (auto simp: deleted_def Int_commute)
  then show ?thesis
    using service_step.remove [of w hit "service_of st" c0 c] assms(2,3) by (simp add: answers_def)
qed

lemma stored_sc:
  "sub_ok st \<Longrightarrow> in_range k \<Longrightarrow> kv_content (ss_kv st) k = None \<longleftrightarrow> sc_subs (service_of st) k = None"
  using stored_iff [of st k] by (simp add: restrict_map_def)

lemma matching_hits:
  "sub_ok st \<Longrightarrow> matching_keys hit st =
    hits_of (\<lambda>k sd. in_range k \<and> hit (key_component k) (key_agent k)) (service_of st)"
  using stored_sc [of st] by (fastforce simp: matching_keys_def hits_of_def)

lemma listReply_answers:
  assumes "sub_ok st"
  shows "answers (OpList want) st (listReply e want new_writer st)"
proof -
  let ?A = "service_of st"
  obtain ks st' where l: "listReply e want new_writer st =
      (Some (list_answer (map (\<lambda>k. info_of k (the (subscriptions st k))) ks)), st')"
    "distinct ks" "set ks = {k. in_range k \<and> subscriptions st k \<noteq> None \<and> want (key_component k)}"
    "subscriptions st' = subscriptions st" "ss_prune st' = ss_prune st" "ss_hsmsub st' = ss_hsmsub st"
    using listReply_spec [OF sub_ok_facts(1,4) [OF assms], of e want] by blast
  have "map (\<lambda>k. info_of k (the (subscriptions st k))) ks = map (\<lambda>k. info_of k (the (sc_subs ?A k))) ks"
    using l(3) by auto
  then have res: "listReply e want new_writer st =
      (Some (list_answer (map (\<lambda>k. info_of k (the (sc_subs ?A k))) ks)), st')" using l(1) by (simp only:)
  have same: "service_of st' = ?A" using l by (intro service_eqI) simp_all
  have "set ks = {k. in_range k \<and> sc_subs ?A k \<noteq> None \<and> want (key_component k)}"
    unfolding l(3) by auto
  then show ?thesis by (rule answersI [OF res same service_step.listing [OF l(2)]])
qed

subsection \<open>Each handler\<close>

lemma invalid_status [simp]: "status_of (invalid e d new_writer) = 400"
  by simp

lemma postError_status [simp]: "status_of (handleSubscribePostError e new_writer b) = 400"
  by (auto simp: handleSubscribePostError_def split: option.split)

lemma doSubscribePost_answers:
  assumes "sub_ok st"
  shows "answers (request_op H_doSubscribePost r) st (doSubscribePost r st)"
proof (cases "rq_err r \<or> unmarshal_ScnSubscribe (to_lower (rq_body r)) = None")
  case True
  then show ?thesis
    by (auto simp: doSubscribePost_def body_op_def Let_def intro!: answers_refuse split: option.split)
next
  case False
  then obtain j where j: "\<not> rq_err r" "unmarshal_ScnSubscribe (to_lower (rq_body r)) = Some j" by blast
  let ?ix = "index_of (subSubscriber j) [SVC_DELIM]"
  have x: "(if ?ix \<noteq> - 1 then slice_from (subSubscriber j) (?ix + 1)
      else Some (subSubscriber j)) = Some (v1_xname j)"
    using subscriber_slice [of "subSubscriber j" SVC_DELIM] by (auto simp: v1_xname_def Let_def slice_from_def)
  have "doSubscribePost r st = (case checkSubscription_v1 j of
      Some err \<Rightarrow> (Some (invalid ''/subscribe'' err new_writer), st)
    | None \<Rightarrow> if \<not> hmsTypeValid (v1_xname j)
        then (Some (invalid ''/subscribe'' ''Subcriber field is not a valid XName'' new_writer), st)
        else storeNew ''/subscribe'' j (makeSubscriptionKey_V1 j) new_writer st)"
    by (simp only: doSubscribePost_def Let_def j x option.case if_False)
  then show ?thesis
    using j storeNew_answers [OF assms, of "makeSubscriptionKey_V1 j"]
    by (auto simp: body_op_def makeKey_V1 intro!: answers_refuse split: option.split)
qed

lemma agentPost_answers:
  assumes "sub_ok st"
  shows "answers (request_op H_agentPost r) st (subscriptionsAgentPostHandler r st)"
proof -
  have v: "hmsTypeValid (VerifyNormalizeCompID (rq_var r ''xname''))" if "VerifyNormalizeCompID (rq_var r ''xname'') \<noteq> []"
    using VerifyNormalizeCompID_valid that by blast
  show ?thesis
    using v storeNew_answers [OF assms, OF makeKey_sub_key]
    by (auto simp: subscriptionsAgentPostHandler_def path_op_def body_op_def Let_def
        intro!: answers_refuse split: option.split)
qed

lemma patch_range_answers:
  assumes "sub_ok st" "sub_key key"
  shows "answers (OpReplace (patch_target hit j) key j c) st
    (case patchRange j of None \<Rightarrow> (None, st) | Some (lo, hi) \<Rightarrow>
      (case kvGetRange lo hi (ss_kv st) of
         (Inl _, kv1) \<Rightarrow> (Some w, st\<lparr>ss_kv := kv1\<rparr>)
       | (Inr kvs, kv1) \<Rightarrow> patchLoop e c hit key j kvs new_writer (st\<lparr>ss_kv := kv1\<rparr>)))"
proof -
  obtain lo hi where pr: "patchRange j = Some (lo, hi)" using patchRange_total by blast
  obtain kvs kv1 where r: "kvGetRange lo hi (ss_kv st) = (Inr kvs, kv1)"
    using kv.range_read [of "ss_kv st" lo hi] sub_ok_facts(1) [OF assms(1)] unfolding store_up_def by auto
  show ?thesis using patchLoop_answers [OF assms(1) pr r assms(2)] by (simp add: pr r)
qed

lemma doSubscribePatch_answers:
  assumes "sub_ok st"
  shows "answers (request_op H_doSubscribePatch r) st (doSubscribePatch r st)"
  using patch_range_answers [OF assms, of "makeSubscriptionKey_V1 j" for j]
  by (auto simp: doSubscribePatch_def body_op_def Let_def makeKey_V1 intro!: answers_refuse split: option.split)

lemma agentPatch_answers:
  assumes "sub_ok st"
  shows "answers (request_op H_agentPatch r) st (subscriptionsAgentPatchHandler r st)"
  using patch_range_answers [OF assms makeKey_sub_key]
  by (auto simp: subscriptionsAgentPatchHandler_def path_op_def body_op_def Let_def intro!: answers_refuse
      split: option.split)

lemma doSubscribeDelete_answers:
  assumes "sub_ok st"
  shows "answers (request_op H_doSubscribeDelete r) st (doSubscribeDelete r st)"
proof (cases "unmarshal_NodeSubscriptionDelete (rq_body r)")
  case None
  then show ?thesis
    by (auto simp: doSubscribeDelete_def handleSubscribeDeleteError_def status_of_def Let_def intro!: answers_refuse split: option.split)
next
  case (Some j)
  let ?H = "{k. in_range k \<and> to_lower (key_svcName k) = to_lower (nsdSubscriber j) \<and>
      (\<exists>sd. subscriptions st k = Some sd \<and> to_lower (sdUrl sd) = to_lower (nsdUrl j))}"
  obtain w st' where d: "doSubscribeDelete r st = (Some w, st')" "deleted ?H st st'"
    "status_of w = (if rq_err r \<or> nsdSubscriber j = [] \<or> nsdUrl j = [] then 400 else 200)"
    using delete_v1_any [OF sub_ok_facts(1,3) [OF assms] Some] by blast
  have "?H = hits_of (\<lambda>k sd. in_range k \<and> to_lower (key_svcName k) = to_lower (nsdSubscriber j) \<and>
      to_lower (sdUrl sd) = to_lower (nsdUrl j)) (service_of st)"
    by (auto simp: hits_of_def restrict_map_def)
  from deleted_answers [OF d(2) this, of w] show ?thesis using Some d(1,3) by (simp add: Let_def)
qed

lemma agentDelete_answers:
  assumes "sub_ok st"
  shows "answers (request_op H_agentDelete r) st (subscriptionsAgentDeleteHandler r st)"
proof (cases "VerifyNormalizeCompID (rq_var r ''xname'') = []")
  case True
  then show ?thesis by (simp add: path_op_def subscriptionsAgentDeleteHandler_def answers_refuse)
next
  case False
  let ?hit = "\<lambda>c a. VerifyNormalizeCompID (rq_var r ''xname'') = c \<and> rq_var r ''agent'' = a"
  obtain w st' where d: "subscriptionsAgentDeleteHandler r st = (Some w, st')" "deleted (matching_keys ?hit st) st st'"
    "status_of w = (if matching_keys ?hit st = {} then 400 else 204)"
    using agent_delete_spec [OF sub_ok_facts(1,2) [OF assms] refl False] by blast
  show ?thesis
    using deleted_answers [OF d(2) matching_hits [OF assms] d(3)] False d(1)
    by (simp add: path_op_def eq_commute cong: conj_cong)
qed

lemma xnameDelete_answers:
  assumes "sub_ok st"
  shows "answers (request_op H_xnameDelete r) st (subscriptionsXNameDeleteHandler r st)"
proof (cases "VerifyNormalizeCompID (rq_var r ''xname'') = []")
  case True
  then show ?thesis by (simp add: path_op_def subscriptionsXNameDeleteHandler_def answers_refuse)
next
  case False
  let ?hit = "\<lambda>c a. VerifyNormalizeCompID (rq_var r ''xname'') = c"
  obtain st' where d: "subscriptionsXNameDeleteHandler r st = (Some (writeHeader 204 new_writer), st')"
    "deleted (matching_keys ?hit st) st st'"
    using xname_delete_run [OF sub_ok_facts(1,2) [OF assms] False] by blast
  show ?thesis
    using deleted_answers [OF d(2) matching_hits [OF assms], of "writeHeader 204 new_writer" 204 204] False d(1)
    by (simp add: path_op_def eq_commute cong: conj_cong)
qed

lemma not_get_status [simp]: "status_of (not_get e new_writer) = 405"
  by (simp add: not_get_def)

lemma subscriptionsHandler_answers:
  "sub_ok st \<Longrightarrow> answers (request_op H_subscriptions r) st (subscriptionsHandler r st)"
  by (simp add: subscriptionsHandler_def Let_def answers_refuse listReply_answers)

lemma xnameGet_answers:
  "sub_ok st \<Longrightarrow> answers (request_op H_xnameGet r) st (subscriptionsXNameGetHandler r st)"
  by (simp add: subscriptionsXNameGetHandler_def path_op_def Let_def answers_refuse listReply_answers)

lemmas all_answers = doSubscribePost_answers agentPost_answers doSubscribePatch_answers agentPatch_answers
  doSubscribeDelete_answers agentDelete_answers xnameDelete_answers subscriptionsHandler_answers xnameGet_answers

lemma handler_answers:
  assumes "sub_handler h = Some f" "sub_ok st"
  shows "answers (request_op h r) st (f r st)"
  using assms(1) all_answers [OF assms(2), of r] by (cases h) auto

lemmas all_handled = doSubscribePost_handled agentPost_handled doSubscribePatch_handled agentPatch_handled
  doSubscribeDelete_handled agentDelete_handled xnameDelete_handled subscriptionsHandler_handled xnameGet_handled

lemma handler_handled:
  assumes "sub_handler h = Some f" "clean_request h r"
  shows "handled st (f r st)"
  using assms by (cases h) (auto simp: clean_request_def all_handled)

section \<open>The goroutines refine the operations\<close>

lemma prune_refined:
  assumes "sub_ok st"
  shows "\<exists>st'. prune_round st = (False, st') \<and> service_step OpPrune (service_of st) Nothing (service_of st')"
proof -
  obtain st' where p: "prune_round st = (False, st')" "ss_prune st' = []" "ss_hsmsub st' = ss_hsmsub st"
    "subscriptions st' = subscriptions st |` {k. \<not> (in_range k \<and> prune_hit (ss_prune st) k)}"
    using prune_round_run [OF sub_ok_facts(1,2) [OF assms]] by blast
  have "due_key (sc_due (service_of st)) k \<longleftrightarrow> in_range k \<and> prune_hit (ss_prune st) k" for k
    by (auto simp: due_key_def prune_hit_def)
  then have "service_of st' = service_of st
      \<lparr>sc_subs := sc_subs (service_of st) |` {k. \<not> due_key (sc_due (service_of st)) k}, sc_due := {}\<rparr>"
    using p by (intro service_eqI) (auto simp: Int_commute)
  then show ?thesis using p(1) service_step.prune by metis
qed

lemma notify_refined:
  assumes "sub_ok st"
  shows "\<exists>jobs st'. doScn scn st = ((False, jobs), st') \<and>
    service_step (OpNotify scn) (service_of st) (Sent jobs) (service_of st')"
proof -
  let ?A = "service_of st"
  obtain ks st' where d: "doScn scn st = ((False, map (\<lambda>k. job_for scn k (the (subscriptions st k))) ks), st')"
    "distinct ks" "set ks = recipients scn st" "subscriptions st' = subscriptions st"
    "\<And>n. gm_flag (ss_prune st') n \<longleftrightarrow> gm_flag (ss_prune st) n \<or> n \<in> left_out scn st"
    using doScn_run [OF sub_ok_facts(1,5) [OF assms], of scn] by blast
  have un: "left_out scn st = unavailable scn ?A" by (auto simp: left_out_def unavailable_def)
  have h: "ss_hsmsub (snd (doScn scn st)) = ss_hsmsub st"
    by (simp add: doScn_def Let_def split: prod.split sum.split)
  have ks: "set ks = addressees scn ?A"
    unfolding d(3) recipients_def addressees_def un by (auto simp: restrict_map_def)
  have "map (\<lambda>k. job_for scn k (the (subscriptions st k))) ks = map (\<lambda>k. job_for scn k (the (sc_subs ?A k))) ks"
    using ks by (auto simp: addressees_def restrict_map_def)
  moreover have "service_of st' = ?A\<lparr>sc_due := sc_due ?A \<union> unavailable scn ?A\<rparr>"
    using d h by (intro service_eqI) (auto simp: un)
  ultimately show ?thesis using d(1) service_step.notify [OF d(2) ks] by metis
qed

lemma job_refined:
  "service_step (op_of (JobRun out retries jb)) (service_of st) Nothing
     (service_of (st\<lparr>ss_prune := snd (job_Run out retries jb (ss_prune st))\<rparr>))"
proof -
  obtain retry ref sent where l: "sendLoop out retries 1 0 = (retry, ref, sent)" by (metis prod.exhaust)
  let ?N = "if jobUrl jb \<noteq> [] \<and> \<not> delivered out retries then {jobSubscriber jb} else {}"
  have "service_of (st\<lparr>ss_prune := snd (job_Run out retries jb (ss_prune st))\<rparr>) =
      service_of st\<lparr>sc_due := sc_due (service_of st) \<union> ?N\<rparr>"
    using sendLoop_delivered(1) [OF l] l
    by (intro service_eqI) (auto simp: job_Run_def sendSCNToSubscriber_def subscriptions_def restrict_map_def)
  then show ?thesis unfolding op_of.simps by (simp only: service_step.due)
qed

lemma dead_refined:
  assumes "sub_ok st" "Nosm p = 0" "deadwoodFetch attempts [] = Some bad"
  shows "\<exists>st'. pruneDeadWood p attempts st = Some (False, st') \<and>
    service_step (OpDead (set bad)) (service_of st) Nothing (service_of st')"
proof -
  obtain st' where d: "pruneDeadWood p attempts st = Some (False, st')"
    "kv_content (ss_kv st') = kv_content (ss_kv st)"
    "\<And>n. gm_flag (ss_prune st') n \<longleftrightarrow> gm_flag (ss_prune st) n \<or> n \<in> set bad \<and>
       (\<exists>k. in_range k \<and> kv_content (ss_kv st) k \<noteq> None \<and> key_component k = n)"
    using deadwood_run [OF sub_ok_facts(1) [OF assms(1)] assms(2,3)] by blast
  have h: "ss_hsmsub st' = ss_hsmsub st"
    by (rule deadwood_hsmsub [OF d(1)])
  have ex: "(\<exists>k. in_range k \<and> kv_content (ss_kv st) k \<noteq> None \<and> key_component k = n) \<longleftrightarrow>
      (\<exists>k. in_range k \<and> sc_subs (service_of st) k \<noteq> None \<and> key_component k = n)" for n
    by (rule arg_cong [of _ _ Ex], rule ext) (metis stored_sc [OF assms(1)])
  have "service_of st' = service_of st\<lparr>sc_due := sc_due (service_of st) \<union>
      {n \<in> set bad. \<exists>k. in_range k \<and> sc_subs (service_of st) k \<noteq> None \<and> key_component k = n}\<rparr>"
    unfolding ex [symmetric] using d h by (intro service_eqI) (auto simp: subscriptions_def [abs_def])
  then have "service_step (OpDead (set bad)) (service_of st) Nothing (service_of st')"
    by (simp only: service_step.dead)
  with d(1) show ?thesis by blast
qed

section \<open>The simulation\<close>

lemma sub_step_sim:
  assumes "sub_ok st" "event_ok e"
  shows "\<exists>x st'. sub_step e st = Some (x, st') \<and> sub_ok st' \<and>
    service_step (op_of e) (service_of st) x (service_of st')"
proof (cases e)
  case (Requested h r)
  then obtain f where f: "sub_handler h = Some f" "clean_request h r" using assms(2) by auto
  obtain w st' where a: "f r st = (Some w, st')"
    "service_step (request_op h r) (service_of st) (Answered w) (service_of st')"
    using handler_answers [OF f(1) assms(1)] unfolding answers_def by blast
  moreover have "sub_ok st'"
    using handler_handled [OF f, of st] a(1) sub_ok_moves [OF assms(1)] by (simp add: handled_def)
  ultimately show ?thesis using Requested f(1) by simp
next
  case PruneRound
  obtain st' where p: "prune_round st = (False, st')" "service_step OpPrune (service_of st) Nothing (service_of st')"
    using prune_refined [OF assms(1)] by blast
  moreover have "sub_ok st'" using sub_ok_moves [OF assms(1)] prune_round_safe [of st] p(1) by simp
  ultimately show ?thesis using PruneRound by simp
next
  case (Notified scn)
  obtain jobs st' where d: "doScn scn st = ((False, jobs), st')"
    "service_step (OpNotify scn) (service_of st) (Sent jobs) (service_of st')"
    using notify_refined [OF assms(1)] by blast
  moreover have "sub_ok st'" using sub_ok_moves [OF assms(1)] doScn_safe [of st scn] d(1) by simp
  ultimately show ?thesis using Notified by simp
next
  case (JobRun out retries jb)
  let ?st' = "st\<lparr>ss_prune := snd (job_Run out retries jb (ss_prune st))\<rparr>"
  have "sub_ok ?st'" using assms(1) by (simp add: sub_ok_def store_up_def)
  then show ?thesis using JobRun job_refined by (intro exI [of _ Nothing] exI [of _ ?st']) simp
next
  case (DeadNodes p attempts)
  have stay: "service_step (OpDue {}) (service_of st) Nothing (service_of st)"
    using service_step.due [of "{}" "service_of st"] by (simp add: service_of_def)
  show ?thesis
  proof (cases "Nosm p \<noteq> 0 \<or> deadwoodFetch attempts [] = None")
    case True
    then show ?thesis using DeadNodes stay assms(1) by (auto simp: pruneDeadWood_def)
  next
    case False
    then obtain bad where bad: "Nosm p = 0" "deadwoodFetch attempts [] = Some bad" by blast
    obtain st' where d: "pruneDeadWood p attempts st = Some (False, st')"
      "service_step (OpDead (set bad)) (service_of st) Nothing (service_of st')"
      using dead_refined [OF assms(1) bad] by blast
    moreover have "sub_ok st'" using sub_ok_moves [OF assms(1)] deadwood_safe [OF d(1)] by simp
    ultimately show ?thesis using DeadNodes bad by simp
  qed
qed

interpretation svc: simulation sub_step service_step op_of service_of sub_ok event_ok
  by unfold_locales (rule sub_step_sim)

section \<open>Which subscriptions stay\<close>

text \<open>An operation that neither hits the subscription \<open>sd\<close> under \<open>k\<close> nor notes a name that is its.\<close>

definition spares :: "string \<Rightarrow> SubData \<Rightarrow> service_op \<Rightarrow> bool" where
  "spares k sd op \<longleftrightarrow>
     (case op of
        OpReplace hit key j c \<Rightarrow> \<not> hit k sd \<and> key \<noteq> k
      | OpRemove hit c0 c \<Rightarrow> \<not> hit k sd \<and> (\<forall>k' sd'. hit k' sd' \<longrightarrow> \<not> due_key {key_svcName k'} k)
      | OpDue N \<Rightarrow> \<not> due_key N k
      | OpDead N \<Rightarrow> \<not> due_key N k
      | OpNotify scn \<Rightarrow> isStateUnavailable scn \<longrightarrow> \<not> due_key (to_lower ` set (scnComponents scn)) k
      | _ \<Rightarrow> True)"

lemma due_key_Un: "due_key (A \<union> B) k \<longleftrightarrow> due_key A k \<or> due_key B k"
  by (auto simp: due_key_def)

lemma due_key_mono: "due_key A k \<Longrightarrow> A \<subseteq> B \<Longrightarrow> due_key B k"
  by (auto simp: due_key_def)

lemma due_key_image: "due_key (f ` A) k \<longleftrightarrow> (\<exists>x \<in> A. due_key {f x} k)"
  by (auto simp: due_key_def)

lemma due_key_empty [simp]: "\<not> due_key {} k"
  by (simp add: due_key_def)

lemma step_spares:
  assumes "service_step op s x s'" "spares k sd op" "sc_subs s k = Some sd" "\<not> due_key (sc_due s) k"
  shows "sc_subs s' k = Some sd \<and> \<not> due_key (sc_due s') k"
  using assms
proof (cases rule: service_step.cases)
  case (remove w hit c0 c)
  have "k \<notin> hits_of hit s" using remove(1) assms(2,3) by (auto simp: hits_of_def spares_def)
  moreover have "\<not> due_key (key_svcName ` hits_of hit s) k"
    using remove(1) assms(2) by (auto simp: due_key_image hits_of_def spares_def)
  ultimately show ?thesis using remove assms(3,4) by (simp add: due_key_Un)
next
  case (replace old hit w c key j)
  then have "old \<noteq> k" using assms(2,3) by (auto simp: hits_of_def spares_def)
  then show ?thesis using replace assms(2-4) by (auto simp: spares_def)
next
  case (dead N)
  have "\<not> due_key {n \<in> N. \<exists>k. in_range k \<and> sc_subs s k \<noteq> None \<and> key_component k = n} k"
    using dead(1) assms(2) due_key_mono [of _ k N] by (auto simp: spares_def)
  then show ?thesis using dead assms(3,4) by (simp add: due_key_Un)
next
  case (notify ks scn)
  have "\<not> due_key (unavailable scn s) k"
    using notify(1) assms(2,4) by (auto simp: spares_def unavailable_def due_key_Un)
  then show ?thesis using notify assms(3,4) by (simp add: due_key_Un)
qed (auto simp: spares_def due_key_Un)

lemma run_spares:
  "spec_runs service_step ops s xs s' \<Longrightarrow> \<forall>op \<in> set ops. spares k sd op \<Longrightarrow>
   sc_subs s k = Some sd \<Longrightarrow> \<not> due_key (sc_due s) k \<Longrightarrow>
   sc_subs s' k = Some sd \<and> \<not> due_key (sc_due s') k"
proof (induction rule: spec_runs.induct)
  case (more op s x s1 ops xs s')
  from step_spares [OF more.hyps(1) _ more.prems(2,3)] more.prems(1) show ?case
    by (intro more.IH) simp_all
qed simp

section \<open>Properties\<close>

text \<open>
  C1: The program refines the service: on a store that answers, any sequence of clean
  subscription requests, pruning rounds, notifications, jobs and replies about dead nodes runs
  to its end without a panic, and its answers, the jobs it queues and the subscriptions, the
  prune map and the queue to HSM it leaves are those of a run of the abstract service, in which
  a request adds, replaces, removes or lists entries of a map, a round removes what is due, and
  a notification goes to its addressees.
\<close>

theorem service_refined:
  assumes "sub_ok st" "\<forall>e \<in> set es. event_ok e"
  shows "\<exists>xs st'. runs sub_step es st = Some (xs, st') \<and> sub_ok st' \<and>
    spec_runs service_step (map op_of es) (service_of st) xs (service_of st')"
  by (rule svc.simulated [OF assms])

text \<open>
  C4: No subscription is lost for another reason than those that are meant: one that is not due
  at the start is still there, with the same URL and components, after any sequence of clean
  operations none of which hits it (a DELETE or PATCH whose test it passes, a POST or PATCH for
  its key) or notes its component or its agent@component for pruning (a DELETE of a subscriber
  of that name, a job to it that failed, its node off, empty, halted or disabled).
\<close>

theorem subscription_stays:
  assumes "sub_ok st" "\<forall>e \<in> set es. event_ok e \<and> spares k sd (op_of e)"
    and "sub_key k" "subscriptions st k = Some sd" "\<not> due_key {n. gm_flag (ss_prune st) n} k"
  shows "\<exists>xs st'. runs sub_step es st = Some (xs, st') \<and> subscriptions st' k = Some sd \<and>
    \<not> due_key {n. gm_flag (ss_prune st') n} k"
proof -
  obtain xs st' where r: "runs sub_step es st = Some (xs, st')"
    "spec_runs service_step (map op_of es) (service_of st) xs (service_of st')"
    using svc.simulated [OF assms(1), of es] assms(2) by blast
  then show ?thesis using run_spares [OF r(2), of k sd] assms(2-5) by simp
qed

text \<open>
  C35: On a store that answers, a v1 DELETE of one URL of a subscriber takes its other
  subscriptions with it: the DELETE leaves the subscription with the other URL in the store, but
  notes the subscriber in the prune map, and the next round of pruning removes every
  subscription with the same component and agent; when the deleted one had no agent, every
  subscription on the component.
\<close>

theorem delete_overreach:
  assumes "sub_ok st" "unmarshal_NodeSubscriptionDelete (rq_body r) = Some j"
    and "in_range k" "subscriptions st k = Some sd" "to_lower (key_svcName k) = to_lower (nsdSubscriber j)"
      "to_lower (sdUrl sd) = to_lower (nsdUrl j)"
    and "in_range k'" "subscriptions st k' = Some sd'" "to_lower (sdUrl sd') \<noteq> to_lower (nsdUrl j)"
      "key_svcName k' = key_svcName k \<or> key_component k' = key_svcName k"
  shows "\<exists>w st1 st2. doSubscribeDelete r st = (Some w, st1) \<and> subscriptions st1 k' = Some sd' \<and>
    prune_round st1 = (False, st2) \<and> subscriptions st2 k' = None"
proof -
  obtain w st1 where d: "doSubscribeDelete r st = (Some w, st1)"
    and del: "deleted {k. in_range k \<and> to_lower (key_svcName k) = to_lower (nsdSubscriber j) \<and>
      (\<exists>sd. subscriptions st k = Some sd \<and> to_lower (sdUrl sd) = to_lower (nsdUrl j))} st st1"
    using delete_v1_any [OF sub_ok_facts(1,3) [OF assms(1)] assms(2)] by blast
  have flag: "gm_flag (ss_prune st1) (key_svcName k)" using del assms(3-6) by (auto simp: deleted_def)
  have stays: "subscriptions st1 k' = Some sd'" using del assms(7-9) by (auto simp: deleted_def restrict_map_def)
  have ok: "sub_ok st1"
    using doSubscribeDelete_handled [of st r] d sub_ok_moves [OF assms(1)] by (simp add: handled_def)
  have "k' \<in> dom (kv_content (ss_kv st))" using assms(8) by (auto simp: subscriptions_def bind_eq_Some_conv)
  then obtain x a where k': "keyService k' = Some (x, a)"
    using sub_ok_entry [OF assms(1) in_range_sub [OF assms(7)]] by auto
  have "prune_hit (ss_prune st1) k'"
    using assms(10) flag k' keyService_component [OF k']
    by (cases a) (auto simp: prune_hit_def key_svcName_def svcName_def pruneName_def)
  then show ?thesis
    using prune_round_run [OF sub_ok_facts(1,2) [OF ok]] d stays assms(7) by (auto simp: restrict_map_def)
qed

section \<open>A worked example\<close>

definition ex_key2 :: string where
  "ex_key2 = ''sub#x0c0s0b0n0#hs.ready#svc.mon''"

definition ex_val2 :: string where
  "ex_val2 = ''{\"Url\":\"http://b\",\"ScnNodes\":[\"x0c0s1b0n0\"]}''"

abbreviation ex_two :: substate where
  "ex_two \<equiv> ex_store [] [(ex_key, ex_val), (ex_key2, ex_val2)]"

lemma ex_values2:
  "unmarshal_SubData ex_val2 = Some \<lparr>sdUrl = ''http://b'', sdScnNodes = [''x0c0s1b0n0'']\<rparr>"
  "keyService ex_key2 = Some (''x0c0s0b0n0'', Some ''mon'')"
  "keyServicePatch ex_key2 = Some (''x0c0s0b0n0'', Some ''mon'')"
  by code_simp+

lemma ex_infos: "subinfo_of_key ex_key \<noteq> None" "subinfo_of_key ex_key2 \<noteq> None"
proof -
  have "case subinfo_of_key ex_key of Some _ \<Rightarrow> True | None \<Rightarrow> False"
    "case subinfo_of_key ex_key2 of Some _ \<Rightarrow> True | None \<Rightarrow> False" by code_simp+
  then show "subinfo_of_key ex_key \<noteq> None" "subinfo_of_key ex_key2 \<noteq> None" by (auto split: option.splits)
qed

lemma ex_sub_ok: "sub_ok ex_one" "sub_ok ex_two"
proof -
  have e: "entry_ok ex_key ex_val" "entry_ok ex_key2 ex_val2"
    using ex_infos by (simp_all add: entry_ok_def ex_values ex_values2)
  show "sub_ok ex_one"
    using e by (auto simp: sub_ok_def sound_store_def ex_up ex_content split: if_splits)
      (simp add: ex_store_def kv_ok_def gm_ok_def)
  have "ex_key \<noteq> ex_key2" by (simp add: ex_key_def ex_key2_def)
  then show "sub_ok ex_two"
    using e by (auto simp: sub_ok_def sound_store_def store_up_def ex_content split: if_splits)
      (simp_all add: ex_store_def kv_ok_def kv_reliable_def gm_ok_def)
qed

lemma ex_patch_clean: "clean_sub ex_patch ''x0c0s0b0n0'' ''mon''"
proof -
  have "plain_sub ex_patch ''x0c0s0b0n0'' ''mon''"
    by (simp add: plain_sub_def sub_attrs_def ex_patch_def ScnSubscribe0_def plain_def)
  moreover have "list_all (\<lambda>t. \<not> go_contains t ''svc'') (''sub'' # ''x0c0s0b0n0'' # attr_toks ex_patch)" by code_simp
  ultimately show ?thesis by (auto simp: clean_sub_def tag_free_def go_contains_iff list_all_iff)
qed

lemma ex_post_clean: "event_ok (Requested H_agentPost (ex_request ''POST'' ex_body))"
  by (simp add: clean_request_def clean_v2_def ex_var ex_unmarshal ex_patch_clean)

theorem service_refined_witness:
  "\<exists>xs st'. runs sub_step [Requested H_agentDelete (ex_request ''DELETE'' []), PruneRound, Notified ex_scn,
      Requested H_agentPost (ex_request ''POST'' ex_body)] ex_one = Some (xs, st') \<and> sub_ok st'"
proof -
  have "event_ok (Requested H_agentDelete (ex_request ''DELETE'' []))" by (simp add: clean_request_def)
  then show ?thesis
    using service_refined [OF ex_sub_ok(1), of "[Requested H_agentDelete (ex_request ''DELETE'' []), PruneRound,
        Notified ex_scn, Requested H_agentPost (ex_request ''POST'' ex_body)]"] ex_post_clean
    by auto
qed

theorem subscription_stays_witness:
  "\<exists>xs st'. runs sub_step [Notified (ex_off\<lparr>scnComponents := [''X0c0s1b0n0'']\<rparr>),
      Requested H_agentPost (ex_request ''POST'' ex_body), PruneRound] ex_one = Some (xs, st') \<and>
    subscriptions st' ex_key = Some \<lparr>sdUrl = ''http://a/scn'', sdScnNodes = [''x0c0s1b0n0'']\<rparr>"
proof -
  let ?es = "[Notified (ex_off\<lparr>scnComponents := [''X0c0s1b0n0'']\<rparr>),
      Requested H_agentPost (ex_request ''POST'' ex_body), PruneRound]"
  let ?sd = "\<lparr>sdUrl = ''http://a/scn'', sdScnNodes = [''x0c0s1b0n0'']\<rparr>"
  have "to_lower ''X0c0s1b0n0'' = ''x0c0s1b0n0''" by code_simp
  then have "\<not> due_key (to_lower ` {''X0c0s1b0n0''}) ex_key"
    using keyService_component [OF ex_values(5), symmetric] by (simp add: due_key_def ex_values pruneName_def)
  then have "\<forall>e \<in> set ?es. event_ok e \<and> spares ex_key ?sd (op_of e)"
    using ex_post_clean by (auto simp: spares_def path_op_def body_op_def Let_def split: option.split)
  moreover have "\<not> due_key {n. gm_flag (ss_prune ex_one) n} ex_key"
    by (simp add: ex_store_def)
  ultimately show ?thesis
    using subscription_stays [OF ex_sub_ok(1), of ?es ex_key ?sd] in_range_sub [OF ex_in_range] ex_subscriptions by auto
qed

theorem delete_overreach_witness:
  "\<exists>r w st1 st2. doSubscribeDelete r ex_two = (Some w, st1) \<and> subscriptions st1 ex_key \<noteq> None \<and>
    prune_round st1 = (False, st2) \<and> subscriptions st2 ex_key = None"
proof -
  let ?r = "ex_request ''DELETE'' ''{\"Subscriber\":\"mon@x0c0s0b0n0\",\"Url\":\"http://b\"}''"
  have u: "unmarshal_NodeSubscriptionDelete (rq_body ?r) =
      Some \<lparr>nsdSubscriber = ''mon@x0c0s0b0n0'', nsdUrl = ''http://b''\<rparr>" by code_simp
  have s: "subscriptions ex_two ex_key = Some \<lparr>sdUrl = ''http://a/scn'', sdScnNodes = [''x0c0s1b0n0'']\<rparr>"
    "subscriptions ex_two ex_key2 = Some \<lparr>sdUrl = ''http://b'', sdScnNodes = [''x0c0s1b0n0'']\<rparr>"
    using ex_values ex_values2 by (simp_all add: subscriptions_def ex_content ex_key_def ex_key2_def)
  have n: "key_svcName ex_key = ''mon@x0c0s0b0n0''" "key_svcName ex_key2 = ''mon@x0c0s0b0n0''"
    by (simp_all add: key_svcName_def ex_values ex_values2 svcName_def)
  have "in_range ex_key2" by (simp add: in_range_def ex_key2_def)
  then show ?thesis
    using delete_overreach [OF ex_sub_ok(2) u _ s(2) _ _ ex_in_range s(1)] n by (auto simp: to_lower_def)
qed

end
