(* ===== verification/Startup.thy ===== *)
theory Startup
  imports Hsm Health
begin

text \<open>
  The start of the program: the parameter part of \<open>main\<close> and \<open>openKV\<close> of cmd/hmi-nfd/hmnfd.go.
\<close>

section \<open>Parameters at the start\<close>

definition full_url :: "string \<Rightarrow> gstate \<Rightarrow> string" where
  "full_url serviceName g = ''https://'' @ serviceName @ '':'' @ show_int (url_port g) @ ''/'' @ ''hmi'' @ ''/'' @ ''v2''"

text \<open>\<open>name\<close> is what \<open>GetServiceInstanceName\<close> returns, \<open>None\<close> for an error. \<open>None\<close>: the process exits.\<close>

definition start_params :: "environ \<Rightarrow> cmdFlags \<Rightarrow> string option \<Rightarrow> gstate option" where
  "start_params env flags name =
     (case parseCmdLine flags (parseEnvVars env initial_gstate) of
        None \<Rightarrow> None
      | Some g \<Rightarrow>
          let serviceName = (case name of None \<Rightarrow> ''localhost'' | Some n \<Rightarrow> n);
              p = app_params g in
          Some (if Scn_in_url p = []
                then g\<lparr>app_params := p\<lparr>Scn_in_url := full_url serviceName g @ ''/'' @ ''scn''\<rparr>\<rparr>
                else g))"

text \<open>
  The variable HMNFD_PORT changes the port of the parameters, not the one that the server listens
  on and that the URL for notifications is made of; the flag --port changes both.
\<close>

lemma env_port_ignored: "url_port (parseEnvVars env g) = url_port g"
  by (simp add: parseEnvVars_def Let_def)

lemma flag_port:
  assumes "\<not> fl_help f" "Port (fl_params f) \<noteq> - 1"
  shows "url_port (the (parseCmdLine f g)) = Port (fl_params f) \<and>
    Port (app_params (the (parseCmdLine f g))) = Port (fl_params f)"
  unfolding parseCmdLine_def Let_def using assms by (simp add: seen_int_def)

section \<open>Opening the store\<close>

text \<open>
  \<open>opens\<close> is what each attempt of \<open>hmetcd.Open\<close> comes back with. \<open>OpenHang\<close>: no URL, the process
  sleeps for ever; \<open>OpenTrying\<close>: no attempt has succeeded.
\<close>

datatype open_result = OpenHang | OpenTrying | Opened gstate kvs

text \<open>How \<open>hmetcd.Open\<close> decides that a URL means the memory back end.\<close>

definition mem_url :: "string \<Rightarrow> bool" where
  "mem_url endpoint \<longleftrightarrow> hd (split_on CHR '':'' endpoint) = ''mem''"

fun first_open :: "kvs option list \<Rightarrow> kvs option" where
  "first_open [] = None"
| "first_open (None # rest) = first_open rest"
| "first_open (Some s # rest) = Some s"

text \<open>The loop that stores the health key until a call succeeds. A script ends; after it all calls do.\<close>

function health_key_loop :: "kvs \<Rightarrow> kvs" where
  "health_key_loop s =
     (case kvStore ''HMNFD_HEALTH_KEY'' ''HMNFD_OK'' s of
        (err, s1) \<Rightarrow> if err then health_key_loop s1 else s1)"
  by pat_completeness auto
termination
  by (relation "measure (\<lambda>s. length (kv_script s))")
     (auto simp: kvStore_def kv_next_def split: prod.splits list.splits if_splits)

declare health_key_loop.simps [simp del]

definition getenv :: "environ \<Rightarrow> string \<Rightarrow> string" where
  "getenv env k = (case gm_get env k of None \<Rightarrow> [] | Some v \<Rightarrow> v)"

definition openKV :: "environ \<Rightarrow> (string \<Rightarrow> kvs option list) \<Rightarrow> gstate \<Rightarrow> open_result" where
  "openKV env opens g =
     (let p = app_params g; eh = getenv env ''ETCD_HOST''; ep = getenv env ''ETCD_PORT'' in
      if KV_url p = [] \<and> (eh = [] \<or> ep = []) then OpenHang
      else let g1 = (if KV_url p = []
                     then g\<lparr>app_params := p\<lparr>KV_url := ''http://'' @ eh @ '':'' @ ep\<rparr>\<rparr> else g) in
        (case first_open (opens (KV_url (app_params g1))) of
           None \<Rightarrow> OpenTrying
         | Some s \<Rightarrow> Opened g1 (health_key_loop s)))"

lemma health_key_stored: "kv_content (health_key_loop s) ''HMNFD_HEALTH_KEY'' = Some ''HMNFD_OK''"
proof (induction s rule: health_key_loop.induct)
  case (1 s)
  obtain err s1 where st: "kvStore ''HMNFD_HEALTH_KEY'' ''HMNFD_OK'' s = (err, s1)" by force
  show ?case
  proof (cases err)
    case True
    then show ?thesis using "1.IH" [OF st [symmetric] True] st by (simp add: health_key_loop.simps [of s])
  next
    case False
    then show ?thesis
      using st by (auto simp: health_key_loop.simps [of s] kvStore_def kv_content_def
          split: prod.splits if_splits)
  qed
qed

end
