(* ===== verification/ScnCache.thy ===== *)
theory ScnCache
  imports ScnTypes Http
begin

text \<open>
  The cache in which notifications from HSM are batched: \<open>scnHandler\<close>, \<open>jdcDeepCopy\<close>,
  \<open>scnCacheEqual\<close> and one round of \<open>checkSCNCache\<close> in cmd/hmi-nfd/api.go, with the globals
  \<open>jdCache\<close>, \<open>jdCount\<close> and the channel \<open>scnQ\<close>. Both goroutines hold \<open>jdcMutex\<close> while they touch the
  cache, so they are atomic steps here; \<open>now\<close> is the formatted time. A send on \<open>scnQ\<close> blocks when
  it holds 10000 batches; the queue is unbounded here. The theory CacheConc has the bound and the mutex, and
  shows that nothing is lost by this view.
\<close>

section \<open>Operations\<close>

record cstate =
  jdCache :: Scn
  jdCount :: int
  scnQ :: "Scn list"

definition cache_init :: cstate where
  "cache_init = \<lparr>jdCache = Scn0, jdCount = 0, scnQ = []\<rparr>"

text \<open>The timestamp is not copied, and \<open>Enabled\<close> only when the notification has it.\<close>

definition jdcDeepCopy :: "Scn \<Rightarrow> Scn \<Rightarrow> Scn" where
  "jdcDeepCopy jdp cache = cache\<lparr>scnState := scnState jdp, scnFlag := scnFlag jdp,
     scnRole := scnRole jdp, scnSubRole := scnSubRole jdp,
     scnSoftwareStatus := scnSoftwareStatus jdp,
     scnEnabled := (if scnEnabled jdp \<noteq> None then scnEnabled jdp else scnEnabled cache),
     scnComponents := scnComponents jdp\<rparr>"

definition scnCacheEqual :: "Scn \<Rightarrow> Scn \<Rightarrow> bool" where
  "scnCacheEqual jdp cache =
     (let enblp = (scnEnabled jdp \<noteq> None \<and> scnEnabled jdp \<noteq> Some False);
          enblc = (scnEnabled cache \<noteq> None \<and> scnEnabled cache \<noteq> Some False) in
      \<not> (scnState jdp \<noteq> scnState cache \<or> scnFlag jdp \<noteq> scnFlag cache \<or>
         scnSoftwareStatus jdp \<noteq> scnSoftwareStatus cache \<or> enblp \<noteq> enblc \<or>
         scnRole jdp \<noteq> scnRole cache))"

text \<open>\<open>jdCache.Timestamp = ...; scnQ <- jdCache\<close>\<close>

definition send_cache :: "string \<Rightarrow> cstate \<Rightarrow> cstate" where
  "send_cache now st =
     (let c = (jdCache st)\<lparr>scnTimestamp := now\<rparr> in st\<lparr>jdCache := c, scnQ := scnQ st @ [c]\<rparr>)"

text \<open>What \<open>scnHandler\<close> does between the lock and the unlock.\<close>

definition cache_scn :: "string \<Rightarrow> int \<Rightarrow> Scn \<Rightarrow> cstate \<Rightarrow> cstate" where
  "cache_scn now max_cache jdata st =
     (if scnComponents (jdCache st) = [] \<or> jdCount st = 0
      then st\<lparr>jdCache := jdcDeepCopy jdata (jdCache st), jdCount := jdCount st + 1\<rparr>
      else if scnCacheEqual jdata (jdCache st)
      then (let st1 = st\<lparr>jdCache := (jdCache st)\<lparr>scnComponents :=
                                     scnComponents (jdCache st) @ scnComponents jdata\<rparr>,
                         jdCount := jdCount st + 1\<rparr> in
            if max_cache \<le> jdCount st1
            then (send_cache now st1)\<lparr>jdCache := Scn0, jdCount := 0\<rparr> else st1)
      else if scnComponents (jdCache st) \<noteq> []
      then (let st1 = send_cache now st in
            st1\<lparr>jdCache := jdcDeepCopy jdata (jdCache st1), jdCount := 1\<rparr>)
      else st)"

definition scnHandler :: "string \<Rightarrow> int \<Rightarrow> request \<Rightarrow> cstate \<Rightarrow> writer \<times> cstate" where
  "scnHandler now max_cache r st =
     (let errinst = ''/scn''; w = new_writer in
      if rq_method r \<noteq> ''POST''
      then (sendProblem ''Invalid Request'' ''Only POST operations supported'' errinst 405
              (setHeader ''Allow'' ''POST'' w), st)
      else case unmarshal_Scn (rq_body r) of
        None \<Rightarrow> (sendProblem ''Internal Server Error'' ''Error unmarshalling SCN JSON'' errinst 500 w, st)
      | Some jdata \<Rightarrow>
          (if scnComponents (jdCache st) = [] \<or> jdCount st = 0
           then (w, cache_scn now max_cache jdata st)
           else (writeHeader 200 w, cache_scn now max_cache jdata st)))"

text \<open>One round of \<open>checkSCNCache\<close>, after its sleep.\<close>

definition checkSCNCache :: "string \<Rightarrow> cstate \<Rightarrow> cstate" where
  "checkSCNCache now st =
     (if scnComponents (jdCache st) \<noteq> []
      then (send_cache now st)\<lparr>jdCache := Scn0, jdCount := 0\<rparr> else st)"

section \<open>Runs\<close>

text \<open>The requests on /scn and the rounds of the timer, in the order they take the lock.\<close>

datatype cevent = Notify string request | Timer string

fun cstep :: "int \<Rightarrow> cevent \<Rightarrow> cstate \<Rightarrow> cstate" where
  "cstep max_cache (Notify now r) st = snd (scnHandler now max_cache r st)"
| "cstep max_cache (Timer now) st = checkSCNCache now st"

definition crun :: "int \<Rightarrow> cevent list \<Rightarrow> cstate" where
  "crun max_cache evs = fold (cstep max_cache) evs cache_init"

text \<open>The notifications taken in, those without components apart: they concern nobody.\<close>

definition src :: "Scn \<Rightarrow> Scn list" where
  "src jdata = (if scnComponents jdata = [] then [] else [jdata])"

fun taken :: "cevent \<Rightarrow> Scn list" where
  "taken (Notify now r) =
     (if rq_method r \<noteq> ''POST'' then []
      else case unmarshal_Scn (rq_body r) of
        None \<Rightarrow> [] | Some s \<Rightarrow> src s)"
| "taken (Timer now) = []"

text \<open>A batch holds the components of its sources, in order, and says of them what they said.\<close>

definition batch_of :: "Scn \<Rightarrow> Scn list \<Rightarrow> bool" where
  "batch_of b srcs \<longleftrightarrow> scnComponents b = concat (map scnComponents srcs) \<and>
     (\<forall>s \<in> set srcs. scnState s = scnState b \<and> scnFlag s = scnFlag b \<and>
        scnRole s = scnRole b \<and> scnSoftwareStatus s = scnSoftwareStatus b)"

definition full_batch :: "int \<Rightarrow> Scn \<Rightarrow> Scn list \<Rightarrow> bool" where
  "full_batch max_cache b srcs \<longleftrightarrow>
     batch_of b srcs \<and> srcs \<noteq> [] \<and> scnComponents b \<noteq> [] \<and> int (length srcs) \<le> max 2 max_cache"

definition cache_inv :: "int \<Rightarrow> cstate \<Rightarrow> Scn list \<Rightarrow> bool" where
  "cache_inv max_cache st all \<longleftrightarrow> (\<exists>parts cur. all = concat parts @ cur \<and>
     list_all2 (full_batch max_cache) (scnQ st) parts \<and> batch_of (jdCache st) cur \<and>
     (\<forall>s \<in> set cur. scnComponents s \<noteq> []) \<and>
     int (length cur) \<le> jdCount st \<and> (cur \<noteq> [] \<longrightarrow> int (length cur) < max 2 max_cache))"

lemma cache_inv_init: "cache_inv mx cache_init []"
  unfolding cache_inv_def
  by (intro exI [of _ "[]"]) (simp add: cache_init_def batch_of_def Scn0_def)

lemma batch_copy: "batch_of (jdcDeepCopy jdata c) (src jdata)"
  by (simp add: batch_of_def src_def jdcDeepCopy_def)

lemma batch_time [simp]: "batch_of (b\<lparr>scnTimestamp := t\<rparr>) srcs = batch_of b srcs"
  by (simp add: batch_of_def)

lemma batch_merge:
  assumes "batch_of c cur" "scnCacheEqual jdata c"
  shows "batch_of (c\<lparr>scnComponents := scnComponents c @ scnComponents jdata\<rparr>) (cur @ src jdata)"
  using assms by (auto simp: batch_of_def src_def scnCacheEqual_def Let_def)

lemma batch_empty: "batch_of Scn0 []"
  by (simp add: batch_of_def Scn0_def)

lemma cache_inv_split:
  assumes "cache_inv mx st all"
  obtains parts cur where "all = concat parts @ cur" "list_all2 (full_batch mx) (scnQ st) parts"
    "batch_of (jdCache st) cur" "\<forall>s \<in> set cur. scnComponents s \<noteq> []"
    "int (length cur) \<le> jdCount st" "cur \<noteq> [] \<longrightarrow> int (length cur) < max 2 mx"
    "cur = [] \<longleftrightarrow> scnComponents (jdCache st) = []"
proof -
  obtain parts cur where h: "all = concat parts @ cur" "list_all2 (full_batch mx) (scnQ st) parts"
    "batch_of (jdCache st) cur" "\<forall>s \<in> set cur. scnComponents s \<noteq> []"
    "int (length cur) \<le> jdCount st" "cur \<noteq> [] \<longrightarrow> int (length cur) < max 2 mx"
    using assms unfolding cache_inv_def by blast
  moreover have "cur = [] \<longleftrightarrow> scnComponents (jdCache st) = []"
    using h(3,4) by (cases cur) (auto simp: batch_of_def)
  ultimately show ?thesis using that by blast
qed

text \<open>The limit may change from one notification to the next, as long as \<open>M\<close> bounds it.\<close>

lemma cache_inv_scn:
  assumes "cache_inv M st all" "mx \<le> M"
  shows "cache_inv M (cache_scn now mx jdata st) (all @ src jdata)"
proof -
  obtain parts cur where h: "all = concat parts @ cur" "list_all2 (full_batch M) (scnQ st) parts"
    "batch_of (jdCache st) cur" "\<forall>s \<in> set cur. scnComponents s \<noteq> []"
    "int (length cur) \<le> jdCount st" "cur \<noteq> [] \<longrightarrow> int (length cur) < max 2 M"
    "cur = [] \<longleftrightarrow> scnComponents (jdCache st) = []"
    using assms(1) by (rule cache_inv_split)
  have src: "\<forall>s \<in> set (src jdata). scnComponents s \<noteq> []" "length (src jdata) \<le> 1"
    by (auto simp: src_def)
  show ?thesis
  proof (cases "scnComponents (jdCache st) = [] \<or> jdCount st = 0")
    case True
    then have "cur = []" using h(5,7) by auto
    then show ?thesis
      using True h(1,2,5) src batch_copy [of jdata "jdCache st"] unfolding cache_inv_def
      by (intro exI [of _ parts] exI [of _ "src jdata"]) (auto simp: cache_scn_def)
  next
    case False
    then have ne: "cur \<noteq> []" using h(7) by simp
    show ?thesis
    proof (cases "scnCacheEqual jdata (jdCache st)")
      case True
      let ?c = "(jdCache st)\<lparr>scnComponents := scnComponents (jdCache st) @ scnComponents jdata\<rparr>"
      note m = batch_merge [OF h(3) True]
      show ?thesis
      proof (cases "mx \<le> jdCount st + 1")
        case fl: True
        have "full_batch M (?c\<lparr>scnTimestamp := now\<rparr>) (cur @ src jdata)"
          using m ne h(6) src False by (auto simp: full_batch_def)
        then show ?thesis
          using False True fl h(1,2) unfolding cache_inv_def
          by (intro exI [of _ "parts @ [cur @ src jdata]"] exI [of _ "[]"])
            (auto simp: cache_scn_def send_cache_def Let_def list_all2_appendI batch_empty)
      next
        case nf: False
        then show ?thesis
          using False True h src m assms(2) unfolding cache_inv_def
          by (intro exI [of _ parts] exI [of _ "cur @ src jdata"])
            (auto simp: cache_scn_def Let_def)
      qed
    next
      case neq: False
      have "full_batch M ((jdCache st)\<lparr>scnTimestamp := now\<rparr>) cur"
        using h(3,6) ne False by (auto simp: full_batch_def)
      then show ?thesis
        using False neq h(1,2) src batch_copy [of jdata] unfolding cache_inv_def
        by (intro exI [of _ "parts @ [cur]"] exI [of _ "src jdata"])
          (auto simp: cache_scn_def send_cache_def Let_def list_all2_appendI)
    qed
  qed
qed

lemma cache_inv_timer:
  assumes "cache_inv mx st all"
  shows "cache_inv mx (checkSCNCache now st) all"
proof -
  obtain parts cur where h: "all = concat parts @ cur" "list_all2 (full_batch mx) (scnQ st) parts"
    "batch_of (jdCache st) cur" "\<forall>s \<in> set cur. scnComponents s \<noteq> []"
    "int (length cur) \<le> jdCount st" "cur \<noteq> [] \<longrightarrow> int (length cur) < max 2 mx"
    "cur = [] \<longleftrightarrow> scnComponents (jdCache st) = []"
    using assms by (rule cache_inv_split)
  show ?thesis
  proof (cases "scnComponents (jdCache st) = []")
    case True
    then show ?thesis using assms by (simp add: checkSCNCache_def)
  next
    case False
    then have "full_batch mx ((jdCache st)\<lparr>scnTimestamp := now\<rparr>) cur"
      using h(3,6,7) by (auto simp: full_batch_def)
    then show ?thesis
      using False h(1,2) unfolding cache_inv_def
      by (intro exI [of _ "parts @ [cur]"] exI [of _ "[]"])
        (auto simp: checkSCNCache_def send_cache_def Let_def list_all2_appendI batch_empty)
  qed
qed

lemma cache_inv_step: "cache_inv M st all \<Longrightarrow> mx \<le> M \<Longrightarrow> cache_inv M (cstep mx ev st) (all @ taken ev)"
proof (cases ev)
  case (Notify now r)
  assume "cache_inv M st all" "mx \<le> M"
  then show ?thesis
    using cache_inv_scn [of M st all mx now] Notify
    by (simp add: scnHandler_def Let_def split: option.split)
next
  case (Timer now)
  assume "cache_inv M st all"
  then show ?thesis using cache_inv_timer Timer by simp
qed

lemma cache_inv_run: "cache_inv mx st all \<Longrightarrow>
    cache_inv mx (fold (cstep mx) evs st) (all @ concat (map taken evs))"
proof (induction evs arbitrary: st all)
  case (Cons ev evs)
  from Cons.IH [OF cache_inv_step [OF Cons.prems order_refl, of ev]] show ?case by simp
qed simp

text \<open>
  C13: After any sequence of requests and timer rounds, the notifications taken in can be cut
  into consecutive groups, one for each queued batch and one for the cache; every queued batch
  is not empty, merges at most max(2, Scn_max_cache) notifications, and all of them had its
  state, flag, role and software status.
\<close>

theorem batching:
  "\<exists>parts cur. concat (map taken evs) = concat parts @ cur \<and>
     list_all2 (full_batch mx) (scnQ (crun mx evs)) parts \<and> batch_of (jdCache (crun mx evs)) cur"
proof -
  have "cache_inv mx (crun mx evs) (concat (map taken evs))"
    using cache_inv_run [OF cache_inv_init, of mx evs] by (simp add: crun_def)
  then show ?thesis by (rule cache_inv_split) blast
qed

lemma cache_inv_conserves:
  assumes "cache_inv mx st all"
  shows "concat (map scnComponents (scnQ st)) @ scnComponents (jdCache st) = concat (map scnComponents all)"
proof -
  obtain parts cur where h: "all = concat parts @ cur" "list_all2 (full_batch mx) (scnQ st) parts" "batch_of (jdCache st) cur"
    using assms by (rule cache_inv_split)
  have "concat (map scnComponents bs) = concat (map scnComponents (concat ps))"
    if "list_all2 (full_batch mx) bs ps" for bs ps
    using that by (induction rule: list_all2_induct) (simp_all add: full_batch_def batch_of_def)
  then show ?thesis using h by (simp add: batch_of_def)
qed

text \<open>
  C12: After any sequence of requests on /scn and timer rounds, the queued batches followed by
  the cache hold exactly the components of the notifications taken in, in order: none is lost,
  duplicated or reordered.
\<close>

theorem components_conserved:
  "concat (map scnComponents (scnQ (crun mx evs))) @ scnComponents (jdCache (crun mx evs)) =
     concat (map scnComponents (concat (map taken evs)))"
  using cache_inv_conserves [OF cache_inv_run [OF cache_inv_init, of mx evs]] by (simp add: crun_def)

end
