(* ===== verification/Server.thy ===== *)
theory Server
  imports Service Startup ScnCache
begin

text \<open>
  The parts put together: the state that the goroutines and the request handlers of one process
  share, each request as one step, and the rounds of the goroutines that work on their own part of
  the state. The theory Conc adds the others and takes the handlers apart.

  A panic in a request handler is caught by net/http, which drops the connection; a panic in a
  goroutine ends the process.
\<close>

section \<open>State\<close>

text \<open>
  \<open>sv_jobs\<close> are the jobs of the notification that is being fanned out which the pool has not taken
  yet, \<open>sv_wait\<close> the job that \<open>doScn\<close> waits for in the fan-out sync mode. The channel and the
  store of \<open>sv_hsm\<close> are those of \<open>sv_sub\<close>.
\<close>

record server =
  sv_sub :: substate
  sv_cache :: cstate
  sv_g :: gstate
  sv_hsm :: hsmstate
  sv_tel :: telstate
  sv_pool :: pool
  sv_jobs :: "JobSCNSend list"
  sv_wait :: "nat option"

text \<open>After \<open>main\<close> has opened the store, made the pool and put the mandatory subscription into the queue.\<close>

definition boot :: "gstate \<Rightarrow> kvs \<Rightarrow> server" where
  "boot g kv =
     (let hsm = subscribeMandatoryScn (app_params g) (hsm_start [] kv) in
      \<lparr>sv_sub = \<lparr>ss_kv = kv, ss_prune = [], ss_hsmsub = h_chan hsm\<rparr>, sv_cache = cache_init, sv_g = g,
       sv_hsm = hsm, sv_tel = \<lparr>tl_queue = [], tl_bus = None, tl_cfg = None, tl_written = []\<rparr>,
       sv_pool = NewWorkerPool 500 10000, sv_jobs = [], sv_wait = None\<rparr>)"

section \<open>Requests\<close>

definition on_sub :: "(substate \<Rightarrow> writer option \<times> substate) \<Rightarrow> server \<Rightarrow> writer option \<times> server" where
  "on_sub f sv = (case f (sv_sub sv) of (w, s) \<Rightarrow> (w, sv\<lparr>sv_sub := s\<rparr>))"

definition put_kv :: "kvs option \<Rightarrow> server \<Rightarrow> server" where
  "put_kv s sv = (case s of None \<Rightarrow> sv | Some kv \<Rightarrow> sv\<lparr>sv_sub := (sv_sub sv)\<lparr>ss_kv := kv\<rparr>\<rparr>)"

text \<open>\<open>perr\<close> is the text of the JSON decoder's error, \<open>now\<close> the formatted time.\<close>

fun serve :: "handler_id \<Rightarrow> string \<Rightarrow> string \<Rightarrow> request \<Rightarrow> server \<Rightarrow> writer option \<times> server" where
  "serve H_paramsGet now perr r sv = (Some (paramsGet (sv_g sv)), sv)"
| "serve H_paramsPatch now perr r sv =
     (case paramsPatch perr r (sv_g sv) (ss_kv (sv_sub sv)) of
        (w, g, kv) \<Rightarrow> (Some w, put_kv (Some kv) (sv\<lparr>sv_g := g\<rparr>)))"
| "serve H_liveness now perr r sv = (Some (livenessHandler r), sv)"
| "serve H_readiness now perr r sv =
     (case readinessHandler r (Some (ss_kv (sv_sub sv))) (tl_bus (sv_tel sv)) of
        (w, kv) \<Rightarrow> (Some w, put_kv kv sv))"
| "serve H_health now perr r sv =
     (case healthHandler r (Some (ss_kv (sv_sub sv))) (tl_bus (sv_tel sv)) (ss_prune (sv_sub sv))
             (Some (sv_pool sv)) of
        (w, kv) \<Rightarrow> (Some w, put_kv kv sv))"
| "serve H_scn now perr r sv =
     (case scnHandler now (Scn_max_cache (app_params (sv_g sv))) r (sv_cache sv) of
        (w, c) \<Rightarrow> (Some w, sv\<lparr>sv_cache := c\<rparr>))"
| "serve H_subscriptions now perr r sv = on_sub (subscriptionsHandler r) sv"
| "serve H_doSubscribePost now perr r sv = on_sub (doSubscribePost r) sv"
| "serve H_doSubscribePatch now perr r sv = on_sub (doSubscribePatch r) sv"
| "serve H_doSubscribeDelete now perr r sv = on_sub (doSubscribeDelete r) sv"
| "serve H_xnameGet now perr r sv = on_sub (subscriptionsXNameGetHandler r) sv"
| "serve H_agentPost now perr r sv = on_sub (subscriptionsAgentPostHandler r) sv"
| "serve H_agentPatch now perr r sv = on_sub (subscriptionsAgentPatchHandler r) sv"
| "serve H_agentDelete now perr r sv = on_sub (subscriptionsAgentDeleteHandler r) sv"
| "serve H_xnameDelete now perr r sv = on_sub (subscriptionsXNameDeleteHandler r) sv"

text \<open>
  The answers of the router itself. The page that \<open>http.Redirect\<close> adds for a GET is left out.
\<close>

definition http_step :: "string \<Rightarrow> string \<Rightarrow> request \<Rightarrow> server \<Rightarrow> writer option \<times> server" where
  "http_step now perr r sv =
     (case newRouter generateRoutes (rq_method r) (rq_path r) of
        Handled h vs \<Rightarrow> serve h now perr (r\<lparr>rq_vars := vs\<rparr>) sv
      | Moved p \<Rightarrow> (Some (writeHeader 301 (setHeader ''Location'' p new_writer)), sv)
      | MethodNotAllowed \<Rightarrow> (Some (writeHeader 405 new_writer), sv)
      | NotFound \<Rightarrow>
          (Some (writeBody (Bytes (''404 page not found'' @ [CHR 0x0A])) (writeHeader 404
             (setHeader ''X-Content-Type-Options'' ''nosniff''
                (setHeader ''Content-Type'' ''text/plain; charset=utf-8'' new_writer)))), sv))"

section \<open>The other goroutines\<close>

text \<open>
  The timer of the cache, the hand-over of a job to the pool, the HSM thread and the two threads of
  the telemetry bus. \<open>TelStatus\<close>: the handle of the bus, if there is one, reports another status from now on.
\<close>

datatype sevent =
  CacheTimer string
| SubmitJob
| HsmRound string hsm_reply
| TelSend "nat \<Rightarrow> tel_attempt"
| TelConnect "string \<times> int \<times> string \<Rightarrow> int option"
| TelStatus int

text \<open>
  \<open>doScn\<close> hands its jobs to the pool one by one. In the fan-out sync mode it waits for each of them.
\<close>

definition wait_over :: "JobSCNSend \<Rightarrow> bool" where
  "wait_over jb \<longleftrightarrow> fst (GetStatus jb) = JSTAT_COMPLETE \<or> fst (GetStatus jb) = JSTAT_ERROR \<or>
     fst (GetStatus jb) = JSTAT_CANCELLED"

definition submit_job :: "server \<Rightarrow> server" where
  "submit_job sv =
     (case sv_wait sv of
        Some j \<Rightarrow> if wait_over (pl_jobs (sv_pool sv) j) then sv\<lparr>sv_wait := None\<rparr> else sv
      | None \<Rightarrow>
          (case sv_jobs sv of
             [] \<Rightarrow> sv
           | jb # rest \<Rightarrow>
               (case pool_step (Submit (jobSCNData jb) (jobSubscriber jb) (jobUrl jb)) (sv_pool sv) of
                  None \<Rightarrow> sv
                | Some p \<Rightarrow> sv\<lparr>sv_pool := p, sv_jobs := rest,
                    sv_wait := if fanoutSyncMode (sv_g sv) \<noteq> 0 then Some (pl_next (sv_pool sv)) else None\<rparr>)))"

definition hsm_step :: "string \<Rightarrow> hsm_reply \<Rightarrow> server \<Rightarrow> server" where
  "hsm_step host reply sv =
     (let h = hsm_round host (app_params (sv_g sv)) reply
                ((sv_hsm sv)\<lparr>h_chan := ss_hsmsub (sv_sub sv), h_kv := ss_kv (sv_sub sv)\<rparr>) in
      sv\<lparr>sv_hsm := h, sv_sub := (sv_sub sv)\<lparr>ss_hsmsub := h_chan h, ss_kv := h_kv h\<rparr>\<rparr>)"

fun server_step :: "sevent \<Rightarrow> server \<Rightarrow> server" where
  "server_step (CacheTimer now) sv = sv\<lparr>sv_cache := checkSCNCache now (sv_cache sv)\<rparr>"
| "server_step SubmitJob sv = submit_job sv"
| "server_step (HsmRound host reply) sv = hsm_step host reply sv"
| "server_step (TelSend att) sv = sv\<lparr>sv_tel := fst (telemetryBusSend att (sv_tel sv))\<rparr>"
| "server_step (TelConnect conn) sv = sv\<lparr>sv_tel := telebus_round conn (app_params (sv_g sv)) (sv_tel sv)\<rparr>"
| "server_step (TelStatus st) sv =
     sv\<lparr>sv_tel := (sv_tel sv)\<lparr>tl_bus := map_option (\<lambda>_. st) (tl_bus (sv_tel sv))\<rparr>\<rparr>"

section \<open>Clean traffic\<close>

definition clean_http :: "request \<Rightarrow> bool" where
  "clean_http r \<longleftrightarrow>
     (case newRouter generateRoutes (rq_method r) (rq_path r) of
        Handled h vs \<Rightarrow> clean_request h (r\<lparr>rq_vars := vs\<rparr>)
      | _ \<Rightarrow> True)"

text \<open>What every step keeps of the store.\<close>

definition sv_kv :: "server \<Rightarrow> kvs" where
  "sv_kv sv = ss_kv (sv_sub sv)"

lemma sv_kv_fields [simp]:
  "sv_kv (sv\<lparr>sv_cache := c\<rparr>) = sv_kv sv" "sv_kv (sv\<lparr>sv_g := g\<rparr>) = sv_kv sv"
  "sv_kv (sv\<lparr>sv_tel := t\<rparr>) = sv_kv sv" "sv_kv (sv\<lparr>sv_pool := p\<rparr>) = sv_kv sv"
  "sv_kv (sv\<lparr>sv_jobs := j\<rparr>) = sv_kv sv" "sv_kv (sv\<lparr>sv_hsm := h\<rparr>) = sv_kv sv"
  "sv_kv (sv\<lparr>sv_wait := wt\<rparr>) = sv_kv sv"
  "sv_kv (sv\<lparr>sv_sub := s\<rparr>) = ss_kv s" "sv_kv (put_kv (Some kv) sv) = kv"
  by (simp_all add: sv_kv_def put_kv_def)

lemma on_sub_handled:
  assumes "handled (sv_sub sv) (f (sv_sub sv))" "on_sub f sv = (w, sv')"
  shows "kv_moves (sv_kv sv) (sv_kv sv') \<and> (sound_store (sv_kv sv) \<longrightarrow> w \<noteq> None)"
  using assms by (auto simp: on_sub_def handled_def sv_kv_def split: prod.splits)

lemma hmnfd_keys: "\<not> sub_key ''hmnfd_params''" "\<not> sub_key ''hsmsubs''"
  by (simp_all add: sub_key_def)

lemma kv_moves_put:
  "kvStore k v s = (err, s') \<Longrightarrow> \<not> sub_key k \<Longrightarrow> k \<noteq> ''HMNFD_HEALTH_KEY'' \<Longrightarrow> kv_moves s s'"
  using kv_moves_store [of k v s] by auto

lemma paramsPatch_moves:
  assumes "paramsPatch perr r g s = (w, g', s')"
  shows "kv_moves s s'"
proof -
  have "kv_moves s (snd (kvStore ''hmnfd_params'' v s))" for v
    using kv_moves_store [of "''hmnfd_params''" v s] hmnfd_keys by simp
  then have "kv_moves s s1" if "kvStore ''hmnfd_params'' v s = (err, s1)" for v err s1
    using that by (metis snd_conv)
  then show ?thesis
    using assms by (auto simp: paramsPatch_def Let_def split: if_splits prod.splits option.splits)
qed

lemma key_status_moves: "key_status k e a v n (Some s) = (t, s') \<Longrightarrow> \<exists>s1. s' = Some s1 \<and> kv_moves s s1"
  using kv_moves_get [of s k] by (auto simp: key_status_def split: prod.splits sum.splits option.splits)

lemma health_moves:
  assumes "healthHandler r (Some s) bus pm pool = (w, s')"
  shows "\<exists>s1. s' = Some s1 \<and> kv_moves s s1"
proof (cases "rq_method r = ''GET''")
  case True
  obtain t1 k1 where 1: "key_status ''HMNFD_HEALTH_KEY'' ''Error retrieving key:'' ''Health key not present''
      ''Health key value:'' ''KV Store not initialized'' (Some s) = (t1, k1)" by force
  then obtain s1 where s1: "k1 = Some s1" "kv_moves s s1" using key_status_moves by blast
  obtain t2 k2 where 2: "key_status ''hsmsubs'' ''HSM Subscription key retrieval error:''
      ''HSM Subscription key not present'' ''HSM Subscription: '' ''KVStore not initialized'' (Some s1) = (t2, k2)"
    by force
  then obtain s2 where "k2 = Some s2" "kv_moves s1 s2" using key_status_moves by blast
  then show ?thesis
    using assms True 1 2 s1 kv_moves_trans by (auto simp: healthHandler_def Let_def)
qed (use assms in \<open>auto simp: healthHandler_def\<close>)

lemma readiness_moves:
  assumes "readinessHandler r (Some s) bus = (w, s')"
  shows "\<exists>s1. s' = Some s1 \<and> kv_moves s s1"
  using assms kv_moves_get [of s "''HMNFD_HEALTH_KEY''"]
  by (auto simp: readinessHandler_def Let_def split: if_splits prod.splits sum.splits option.splits)

text \<open>The subscription handlers of a server are those of the theory Service.\<close>

lemma serve_sub: "sub_handler h = Some f \<Longrightarrow> serve h now perr r sv = on_sub (f r) sv"
  by (cases h) auto

lemma serve_safe:
  assumes "serve h now perr r sv = (w, sv')" "clean_request h r"
  shows "kv_moves (sv_kv sv) (sv_kv sv') \<and> (sound_store (sv_kv sv) \<longrightarrow> w \<noteq> None)"
proof (cases "sub_handler h")
  case (Some f)
  then show ?thesis
    using assms(1) serve_sub [OF Some] on_sub_handled handler_handled [OF Some assms(2)] by metis
next
  case None
  have k: "ss_kv (sv_sub sv) = sv_kv sv" by (simp add: sv_kv_def)
  show ?thesis
  proof (cases h)
    case H_paramsPatch
    then show ?thesis using assms paramsPatch_moves by (auto simp: k split: prod.splits)
  next
    case H_readiness
    then show ?thesis using assms readiness_moves by (fastforce simp: k split: prod.splits)
  next
    case H_health
    then show ?thesis using assms health_moves by (fastforce simp: k split: prod.splits)
  qed (use assms None in \<open>auto split: prod.splits\<close>)
qed

lemma http_safe:
  assumes "http_step now perr r sv = (w, sv')" "clean_http r"
  shows "kv_moves (sv_kv sv) (sv_kv sv') \<and> (sound_store (sv_kv sv) \<longrightarrow> w \<noteq> None)"
  using assms serve_safe
  by (fastforce simp: http_step_def clean_http_def split: route_result.splits)

lemma hsm_round_moves: "kv_moves (h_kv st) (h_kv (hsm_round host p reply st))"
proof -
  have p: "kv_moves s (snd (kvStore ''hsmsubs'' v s))" for v s
    using kv_moves_store [of "''hsmsubs''" v s] hmnfd_keys by simp
  have "kv_moves s (snd (kvStore ''hsmsubs'' v (snd (kvStore ''hsmsubs'' v s))))" for v s
    by (rule kv_moves_trans [OF p p])
  then show ?thesis
    by (auto simp: hsm_round_def sendHsmScnSubscription_def Let_def split: list.split prod.split)
qed

lemma submit_job_kv [simp]: "sv_kv (submit_job sv) = sv_kv sv"
  by (simp add: submit_job_def split: list.split option.split)

lemma hsm_step_moves: "kv_moves (sv_kv sv) (sv_kv (hsm_step host reply sv))"
  using hsm_round_moves [of "(sv_hsm sv)\<lparr>h_chan := ss_hsmsub (sv_sub sv), h_kv := ss_kv (sv_sub sv)\<rparr>"]
  by (simp add: hsm_step_def Let_def sv_kv_def)

lemma server_step_moves: "kv_moves (sv_kv sv) (sv_kv (server_step ev sv))"
  by (cases ev) (simp_all add: hsm_step_moves)

lemma boot_kv [simp]: "sv_kv (boot g kv) = kv"
  by (simp add: boot_def sv_kv_def Let_def)

lemma opened_health:
  "openKV env opens g = Opened g1 kv \<Longrightarrow> kv_content kv ''HMNFD_HEALTH_KEY'' = Some ''HMNFD_OK''"
  using health_key_stored by (auto simp: openKV_def Let_def split: if_splits option.splits)

end
