(* ===== verification/Conc.thy ===== *)
theory Conc
  imports Steps Server
begin

text \<open>
  The server with its goroutines interleaved one access to shared state at a time. net/http runs
  every request in a goroutine of its own; \<open>prune\<close>, \<open>handleSCNs\<close> and \<open>pruneDeadWood\<close> are one
  each, and every worker of the pool runs one job at a time. An event is the start of one of them,
  a step of one that is there, or a step of one of the other goroutines (theory Server).

  Every call of the store is one atomic step, which is what etcd gives. The memory back end does not
  (theory MemStore), so that what is said here of the process is said of a store that was opened with
  another URL than one of \<open>mem:\<close>. That two goroutines read and write one variable without a lock and one
  sees a value that was never written is not modelled either.

  \<open>conc_safe\<close> and \<open>conc_fair\<close> are the invariants; the first needs clean requests, the second nothing.
\<close>

section \<open>State\<close>

datatype role = Request | Probe | Pruner | Fanner | DeadWooder | Worker nat

text \<open>A goroutine that has come to its end stays in the list, with how it ended.\<close>

record conc =
  cn_sv :: server
  cn_lock :: bool
  cn_threads :: "(role \<times> goroutine) list"

definition conc_boot :: "gstate \<Rightarrow> kvs \<Rightarrow> conc" where
  "conc_boot g kv = \<lparr>cn_sv = boot g kv, cn_lock = False, cn_threads = []\<rparr>"

definition sv_rest :: "server \<Rightarrow> prest" where
  "sv_rest sv = \<lparr>rs_jobs = sv_jobs sv, rs_bus = tl_bus (sv_tel sv), rs_pool = sv_pool sv\<rparr>"

definition cn_shared :: "conc \<Rightarrow> pstate" where
  "cn_shared c = \<lparr>ps_sub = sv_sub (cn_sv c), ps_lock = cn_lock c, ps_rest = sv_rest (cn_sv c)\<rparr>"

definition put_shared :: "pstate \<Rightarrow> conc \<Rightarrow> conc" where
  "put_shared s c =
     c\<lparr>cn_sv := (cn_sv c)\<lparr>sv_sub := ps_sub s, sv_jobs := rs_jobs (ps_rest s),
          sv_tel := (sv_tel (cn_sv c))\<lparr>tl_bus := rs_bus (ps_rest s)\<rparr>, sv_pool := rs_pool (ps_rest s)\<rparr>,
       cn_lock := ps_lock s\<rparr>"

lemma shared_put [simp]:
  "cn_shared (put_shared s c) = s" "cn_shared (c\<lparr>cn_threads := ts\<rparr>) = cn_shared c"
  "put_shared s' (put_shared s c) = put_shared s' c" "put_shared (cn_shared c) c = c"
  by (simp_all add: put_shared_def cn_shared_def sv_rest_def)

definition spawn :: "role \<Rightarrow> goroutine \<Rightarrow> conc \<Rightarrow> conc" where
  "spawn r p c = c\<lparr>cn_threads := cn_threads c @ [(r, p)]\<rparr>"

definition busy :: "role \<Rightarrow> conc \<Rightarrow> bool" where
  "busy r c \<longleftrightarrow> list_ex (\<lambda>(q, p). q = r \<and> \<not> returned p) (cn_threads c)"

section \<open>Steps\<close>

text \<open>The handlers that have steps of their own, and the probes; the others are one step.\<close>

fun handler_steps :: "handler_id \<Rightarrow> request \<Rightarrow> goroutine option" where
  "handler_steps H_subscriptions r = Some (subscriptions_steps r)"
| "handler_steps H_doSubscribePost r = Some (doSubscribePost_steps r)"
| "handler_steps H_doSubscribePatch r = Some (doSubscribePatch_steps r)"
| "handler_steps H_doSubscribeDelete r = Some (doSubscribeDelete_steps r)"
| "handler_steps H_xnameGet r = Some (xnameGet_steps r)"
| "handler_steps H_agentPost r = Some (agentPost_steps r)"
| "handler_steps H_agentPatch r = Some (agentPatch_steps r)"
| "handler_steps H_agentDelete r = Some (agentDelete_steps r)"
| "handler_steps H_xnameDelete r = Some (xnameDelete_steps r)"
| "handler_steps _ r = None"

definition request_steps :: "request \<Rightarrow> goroutine option" where
  "request_steps r =
     (case newRouter generateRoutes (rq_method r) (rq_path r) of
        Handled h vs \<Rightarrow> handler_steps h (r\<lparr>rq_vars := vs\<rparr>)
      | _ \<Rightarrow> None)"

fun probe_steps :: "handler_id \<Rightarrow> request \<Rightarrow> goroutine option" where
  "probe_steps H_readiness r = Some (readiness_steps r)"
| "probe_steps H_health r = Some (health_steps r)"
| "probe_steps _ r = None"

definition probing_steps :: "request \<Rightarrow> goroutine option" where
  "probing_steps r =
     (case newRouter generateRoutes (rq_method r) (rq_path r) of
        Handled h vs \<Rightarrow> probe_steps h (r\<lparr>rq_vars := vs\<rparr>)
      | _ \<Rightarrow> None)"

definition arrive :: "string \<Rightarrow> string \<Rightarrow> request \<Rightarrow> conc \<Rightarrow> conc" where
  "arrive now perr r c =
     (case request_steps r of
        Some p \<Rightarrow> spawn Request p c
      | None \<Rightarrow>
          (case probing_steps r of
             Some p \<Rightarrow> spawn Probe p c
           | None \<Rightarrow>
               (case http_step now perr r (cn_sv c) of
                  (w, sv') \<Rightarrow> spawn Request (Ret (ending_of w)) (c\<lparr>cn_sv := sv'\<rparr>))))"

text \<open>One step of the goroutine \<open>i\<close>; \<open>None\<close> if it has come to its end or has to wait.\<close>

definition go_step :: "nat \<Rightarrow> conc \<Rightarrow> conc option" where
  "go_step i c =
     (if i < length (cn_threads c)
      then map_option (\<lambda>(p, s). (put_shared s c)\<lparr>cn_threads := (cn_threads c)[i := (fst (cn_threads c ! i), p)]\<rparr>)
             (proc_step (snd (cn_threads c ! i)) (cn_shared c))
      else None)"

text \<open>\<open>handleSCNs\<close> takes the next batch when it is done with the one before.\<close>

definition next_batch :: "conc \<Rightarrow> conc" where
  "next_batch c =
     (let sv = cn_sv c in
      case scnQ (sv_cache sv) of
        scn # rest \<Rightarrow>
          if sv_jobs sv = [] \<and> sv_wait sv = None \<and> \<not> busy Fanner c
          then spawn Fanner (doScn_steps scn)
                 (c\<lparr>cn_sv := sv\<lparr>sv_cache := (sv_cache sv)\<lparr>scnQ := rest\<rparr>,
                    sv_tel := sendToTelemetryBus (app_params (sv_g sv)) scn (sv_tel sv)\<rparr>\<rparr>)
          else c
      | [] \<Rightarrow> c)"

definition dead_wood :: "string option list \<Rightarrow> conc \<Rightarrow> conc" where
  "dead_wood attempts c =
     (if Nosm (app_params (sv_g (cn_sv c))) \<noteq> 0 \<or> busy DeadWooder c then c
      else case deadwoodFetch attempts [] of
        None \<Rightarrow> c
      | Some bad \<Rightarrow> spawn DeadWooder (pruneDeadWood_steps bad) c)"

text \<open>
  The worker \<open>w\<close> begins with the job it is sent, and is finished with it when the goroutine has come to its
  end. \<open>out\<close> is what its attempts will come back with.
\<close>

definition pool_go :: "pool_event \<Rightarrow> (int \<Rightarrow> attempt) \<Rightarrow> conc \<Rightarrow> conc" where
  "pool_go e out c =
     (let p = sv_pool (cn_sv c) in
      if \<not> internal_event e \<or> (case e of Finish w \<Rightarrow> busy (Worker w) c | _ \<Rightarrow> False) then c
      else case pool_step e p of
        None \<Rightarrow> c
      | Some p' \<Rightarrow>
          let c' = c\<lparr>cn_sv := (cn_sv c)\<lparr>sv_pool := p'\<rparr>\<rparr> in
          (case (e, pl_disp p) of
             (Send, DSend j w) \<Rightarrow>
               spawn (Worker w) (send_steps out (Scn_retries (app_params (sv_g (cn_sv c)))) (pl_jobs p j)) c'
           | _ \<Rightarrow> c'))"

datatype activity =
  Arrive string string request
| Goes nat
| PruneTimer
| NextBatch
| HsmStates "string option list"
| PoolGoes pool_event "int \<Rightarrow> attempt"
| Elsewhere sevent

fun conc_move :: "activity \<Rightarrow> conc \<Rightarrow> conc" where
  "conc_move (Arrive now perr r) c = arrive now perr r c"
| "conc_move (Goes i) c = (case go_step i c of None \<Rightarrow> c | Some c' \<Rightarrow> c')"
| "conc_move PruneTimer c = (if busy Pruner c then c else spawn Pruner prune_steps c)"
| "conc_move NextBatch c = next_batch c"
| "conc_move (HsmStates attempts) c = dead_wood attempts c"
| "conc_move (PoolGoes e out) c = pool_go e out c"
| "conc_move (Elsewhere ev) c = c\<lparr>cn_sv := server_step ev (cn_sv c)\<rparr>"

text \<open>A goroutine that panics ends the process.\<close>

fun is_crash :: "goroutine \<Rightarrow> bool" where
  "is_crash (Ret a) = (a = Crashed)"
| "is_crash (Act _ _) = False"

definition conc_step :: "activity \<Rightarrow> conc \<Rightarrow> conc option" where
  "conc_step ev c =
     (let c' = conc_move ev c in if list_ex (is_crash \<circ> snd) (cn_threads c') then None else Some c')"

fun conc_run :: "activity list \<Rightarrow> conc \<Rightarrow> conc option" where
  "conc_run [] c = Some c"
| "conc_run (ev # evs) c = Option.bind (conc_step ev c) (conc_run evs)"

lemma conc_run_append: "conc_run (xs @ ys) c = Option.bind (conc_run xs c) (conc_run ys)"
  by (induction xs arbitrary: c) (simp_all split: bind_split)

section \<open>Requests without company\<close>

lemma on_sub_alone:
  "on_sub f sv = (w, sv') \<Longrightarrow> runs_as p (sv_sub sv) (f (sv_sub sv)) \<Longrightarrow>
   runs_as p (sv_sub sv) (w, sv_sub sv') \<and> sv' = sv\<lparr>sv_sub := sv_sub sv'\<rparr>"
  by (auto simp: on_sub_def split: prod.splits)

lemma handler_alone:
  assumes "handler_steps h r = Some p" "serve h now perr r sv = (w, sv')"
    and "length (ss_hsmsub (sv_sub sv)) < hsmsub_cap"
  shows "runs_as p (sv_sub sv) (w, sv_sub sv') \<and> sv' = sv\<lparr>sv_sub := sv_sub sv'\<rparr>"
  using assms(1,2)
  by (cases h)
     (simp_all, (metis on_sub_alone post_alone_v1 [OF assms(3)] post_alone_v2 [OF assms(3)]
        patch_alone delete_alone list_alone)+)

lemma put_kv_sub: "put_kv (Some kv) sv = sv\<lparr>sv_sub := (sv_sub sv)\<lparr>ss_kv := kv\<rparr>\<rparr>"
  by (simp add: put_kv_def)

lemma probe_alone:
  assumes "probe_steps h r = Some p" "serve h now perr r sv = (w, sv')"
  shows "proc_run p (at_rest (sv_sub sv) (sv_rest sv)) = Some (ending_of w, at_rest (sv_sub sv') (sv_rest sv)) \<and>
    sv' = sv\<lparr>sv_sub := sv_sub sv'\<rparr>"
proof (cases h)
  case H_readiness
  obtain w1 kv where r: "readinessHandler r (Some (ss_kv (sv_sub sv))) (tl_bus (sv_tel sv)) = (w1, Some kv)"
    using readiness_moves by (metis prod.collapse)
  then show ?thesis
    using assms readiness_alone [of r "at_rest (sv_sub sv) (sv_rest sv)" w1 kv]
    by (auto simp: H_readiness put_kv_sub ending_of_def sv_rest_def)
next
  case H_health
  obtain w1 kv where r: "healthHandler r (Some (ss_kv (sv_sub sv))) (tl_bus (sv_tel sv)) (ss_prune (sv_sub sv))
      (Some (sv_pool sv)) = (w1, Some kv)"
    using health_moves by (metis prod.collapse)
  then show ?thesis
    using assms health_alone [of r "at_rest (sv_sub sv) (sv_rest sv)" w1 kv]
    by (auto simp: H_health put_kv_sub ending_of_def sv_rest_def)
qed (use assms in simp_all)

section \<open>What every schedule keeps\<close>

definition cn_kv :: "conc \<Rightarrow> kvs" where
  "cn_kv c = sv_kv (cn_sv c)"

definition conc_safe :: "kvs \<Rightarrow> conc \<Rightarrow> bool" where
  "conc_safe kv c \<longleftrightarrow> kv_moves kv (cn_kv c) \<and>
     (\<forall>(r, p) \<in> set (cn_threads c). live_go p \<and> (r \<noteq> Probe \<longrightarrow> safe_go p))"

definition clean_activity :: "activity \<Rightarrow> bool" where
  "clean_activity ev \<longleftrightarrow> (case ev of Arrive now perr r \<Rightarrow> clean_http r | _ \<Rightarrow> True)"

lemma handler_steps_safe: "handler_steps h r = Some p \<Longrightarrow> clean_request h r \<Longrightarrow> safe_go p"
  by (cases h) (auto simp: clean_request_def doSubscribePost_safe agentPost_safe doSubscribePatch_safe
      agentPatch_safe delete_safe list_safe)

lemma request_steps_safe: "request_steps r = Some p \<Longrightarrow> clean_http r \<Longrightarrow> safe_go p"
  using handler_steps_safe by (auto simp: request_steps_def clean_http_def split: route_result.splits)

lemma cn_kv_fields [simp]:
  "cn_kv (spawn r p c) = cn_kv c" "cn_kv (c\<lparr>cn_sv := sv\<rparr>) = sv_kv sv"
  "cn_kv (c\<lparr>cn_threads := ts\<rparr>) = cn_kv c" "cn_kv (put_shared s c) = ss_kv (ps_sub s)"
  "ss_kv (ps_sub (cn_shared c)) = cn_kv c"
  by (simp_all add: cn_kv_def sv_kv_def spawn_def put_shared_def cn_shared_def)

lemma threads_fields [simp]:
  "cn_threads (spawn r p c) = cn_threads c @ [(r, p)]" "cn_threads (put_shared s c) = cn_threads c"
  by (simp_all add: spawn_def put_shared_def)

lemma conc_safe_spawn [simp]:
  "conc_safe kv (spawn r p c) \<longleftrightarrow> conc_safe kv c \<and> live_go p \<and> (r \<noteq> Probe \<longrightarrow> safe_go p)"
  by (auto simp: conc_safe_def)

lemma probing_live: "probing_steps r = Some p \<Longrightarrow> live_go p"
proof -
  have "probe_steps h r = Some p \<Longrightarrow> live_go p" for h r by (cases h) (auto simp: probes_live)
  then show "probing_steps r = Some p \<Longrightarrow> live_go p" by (auto simp: probing_steps_def split: route_result.splits)
qed

lemma conc_safe_sv [simp]: "sv_kv sv = sv_kv (cn_sv c) \<Longrightarrow> conc_safe kv (c\<lparr>cn_sv := sv\<rparr>) = conc_safe kv c"
  by (simp add: conc_safe_def cn_kv_def)

lemma go_stepE:
  assumes "go_step i c = Some c'"
  obtains p s where "i < length (cn_threads c)" "proc_step (snd (cn_threads c ! i)) (cn_shared c) = Some (p, s)"
    "c' = (put_shared s c)\<lparr>cn_threads := (cn_threads c)[i := (fst (cn_threads c ! i), p)]\<rparr>" "cn_shared c' = s"
  using assms by (auto simp: go_step_def split: if_splits)

lemma go_step_safe:
  assumes "conc_safe kv c" "sound_store kv" "go_step i c = Some c'"
  shows "conc_safe kv c'"
proof -
  obtain p s where i: "i < length (cn_threads c)"
    and p: "proc_step (snd (cn_threads c ! i)) (cn_shared c) = Some (p, s)"
    and c': "c' = (put_shared s c)\<lparr>cn_threads := (cn_threads c)[i := (fst (cn_threads c ! i), p)]\<rparr>"
    using go_stepE [OF assms(3)] by blast
  let ?r = "fst (cn_threads c ! i)" and ?q = "snd (cn_threads c ! i)"
  have q: "live_go ?q" "?r \<noteq> Probe \<longrightarrow> safe_go ?q"
    using assms(1) nth_mem [OF i] by (auto simp: conc_safe_def)
  have "sound_store (ss_kv (ps_sub (cn_shared c)))" using assms(1,2) kv_moves_sound by (auto simp: conc_safe_def)
  then have "kv_moves (cn_kv c) (ss_kv (ps_sub s))" "live_go p" "?r \<noteq> Probe \<longrightarrow> safe_go p"
    using keeps_step [OF _ _ p] q unfolding safe_go_def live_go_def by (metis (no_types, lifting) cn_kv_fields(5))+
  then show ?thesis
    using assms(1) kv_moves_trans set_update_subset_insert [of "cn_threads c" i]
    unfolding conc_safe_def c' by fastforce
qed

lemma conc_move_safe:
  assumes "conc_safe kv c" "sound_store kv" "clean_activity ev"
  shows "conc_safe kv (conc_move ev c)"
proof (cases ev)
  case (Arrive now perr r)
  have clean: "clean_http r" using assms(3) by (simp add: Arrive clean_activity_def)
  show ?thesis
  proof (cases "request_steps r"; cases "probing_steps r")
    assume None: "request_steps r = None" "probing_steps r = None"
    obtain w sv' where h: "http_step now perr r (cn_sv c) = (w, sv')" by force
    have "sound_store (sv_kv (cn_sv c))"
      using assms(1,2) kv_moves_sound by (auto simp: conc_safe_def cn_kv_def)
    then obtain w' where "w = Some w'" "kv_moves (cn_kv c) (sv_kv sv')"
      using http_safe [OF h clean] by (auto simp: cn_kv_def)
    then show ?thesis
      using assms(1) kv_moves_trans [of kv "cn_kv c"] None h
      by (simp add: Arrive arrive_def conc_safe_def ending_of_def)
  next
    fix p
    assume "request_steps r = None" "probing_steps r = Some p"
    then show ?thesis using probing_live assms(1) by (simp add: Arrive arrive_def)
  qed (use request_steps_safe [OF _ clean] safe_live assms(1) in \<open>auto simp: Arrive arrive_def\<close>)
next
  case (Goes i)
  then show ?thesis using go_step_safe [OF assms(1,2)] assms(1) by (simp split: option.split)
next
  case (Elsewhere ev)
  show ?thesis
    using server_step_moves [of "cn_sv c" ev] assms(1) kv_moves_trans [of kv "cn_kv c"]
    by (simp add: Elsewhere conc_safe_def cn_kv_def)
qed (use assms(1) prune_safe doScn_steps_safe pruneDeadWood_safe send_safe safe_live in
    \<open>auto simp: next_batch_def dead_wood_def pool_go_def Let_def
      split: list.split option.split pool_event.split dispatcher.split\<close>)

lemma safe_not_crashed: "conc_safe kv c \<Longrightarrow> \<not> list_ex (is_crash \<circ> snd) (cn_threads c)"
  by (fastforce simp: conc_safe_def list_ex_iff elim!: is_crash.elims)

lemma conc_run_safe:
  "conc_safe kv c \<Longrightarrow> sound_store kv \<Longrightarrow> \<forall>ev \<in> set evs. clean_activity ev \<Longrightarrow>
   \<exists>c'. conc_run evs c = Some c' \<and> conc_safe kv c'"
proof (induction evs arbitrary: c)
  case (Cons ev evs)
  then have "conc_safe kv (conc_move ev c)" using conc_move_safe by simp
  then show ?case using Cons safe_not_crashed by (simp add: conc_step_def)
qed simp

lemma conc_boot_safe [simp]: "conc_safe kv (conc_boot g kv)"
  by (simp add: conc_safe_def conc_boot_def cn_kv_def)

section \<open>Nobody waits for ever\<close>

definition conc_fair :: "conc \<Rightarrow> bool" where
  "conc_fair c \<longleftrightarrow>
     one_holder ps_lock chan_full (\<lambda>s. ss_prune (ps_sub s)) (\<lambda>a. a = Crashed)
       (map snd (cn_threads c)) (cn_shared c)"

lemma conc_fair_sv [simp]: "conc_fair (c\<lparr>cn_sv := sv\<rparr>) = conc_fair c"
  by (auto simp: conc_fair_def cn_shared_def one_holder_def)

lemma probing_fair: "probing_steps r = Some p \<Longrightarrow> fair_go p False"
proof -
  have "probe_steps h r = Some p \<Longrightarrow> fair_go p False" for h r by (cases h) (auto simp: fair_probes)
  then show "probing_steps r = Some p \<Longrightarrow> fair_go p False" by (auto simp: probing_steps_def split: route_result.splits)
qed

lemma conc_fair_spawn: "conc_fair c \<Longrightarrow> fair_go p False \<Longrightarrow> conc_fair (spawn r p c)"
  using one_holder_spawn [of ps_lock chan_full "\<lambda>s. ss_prune (ps_sub s)" "\<lambda>a. a = Crashed"]
  by (auto simp: conc_fair_def fair_go_def spawn_def cn_shared_def)

lemma handler_steps_fair: "handler_steps h r = Some p \<Longrightarrow> fair_go p False"
  by (cases h) (auto simp: fair_handlers)

lemma go_step_fair:
  assumes "conc_fair c" "go_step i c = Some c'"
  shows "conc_fair c'"
proof -
  obtain p s where i: "i < length (cn_threads c)"
    and p: "proc_step (snd (cn_threads c ! i)) (cn_shared c) = Some (p, s)"
    and c': "c' = (put_shared s c)\<lparr>cn_threads := (cn_threads c)[i := (fst (cn_threads c ! i), p)]\<rparr>"
    using go_stepE [OF assms(2)] by blast
  have "one_holder ps_lock chan_full (\<lambda>s. ss_prune (ps_sub s)) (\<lambda>a. a = Crashed)
      ((map snd (cn_threads c))[i := p]) s"
    using one_holder_step [OF assms(1) [unfolded conc_fair_def], of i p s] i p by simp
  moreover have "cn_shared c' = s" by (simp add: c')
  ultimately show ?thesis by (simp add: conc_fair_def c' map_update)
qed

lemma conc_move_fair: "conc_fair c \<Longrightarrow> conc_fair (conc_move ev c)"
proof (cases ev)
  case (Arrive now perr r)
  assume "conc_fair c"
  moreover have "fair_go p False" if "request_steps r = Some p" for p
    using that handler_steps_fair by (auto simp: request_steps_def split: route_result.splits)
  ultimately show ?thesis
    using probing_fair by (auto simp: Arrive arrive_def conc_fair_spawn split: option.split prod.split)
next
  case (Goes i)
  assume "conc_fair c"
  then show ?thesis using go_step_fair by (simp add: Goes split: option.split)
qed (auto simp: next_batch_def dead_wood_def pool_go_def Let_def conc_fair_spawn fair_goroutines
    split: list.split option.split pool_event.split dispatcher.split)

lemma conc_run_fair: "conc_run evs c = Some c' \<Longrightarrow> conc_fair c \<Longrightarrow> conc_fair c'"
  by (induction evs arbitrary: c) (auto simp: conc_step_def Let_def conc_move_fair split: bind_splits if_splits)

lemma conc_boot_fair [simp]: "conc_fair (conc_boot g kv)"
  by (simp add: conc_fair_def conc_boot_def one_holder_def cn_shared_def)

lemma conc_run_alive:
  "conc_run evs c = Some c' \<Longrightarrow> \<not> list_ex (is_crash \<circ> snd) (cn_threads c) \<Longrightarrow>
   \<not> list_ex (is_crash \<circ> snd) (cn_threads c')"
  by (induction evs arbitrary: c) (auto simp: conc_step_def Let_def split: bind_splits if_splits)

text \<open>A state in which no goroutine can move.\<close>

definition at_end :: "conc \<Rightarrow> bool" where
  "at_end c \<longleftrightarrow> (\<forall>i < length (cn_threads c). go_step i c = None)"

lemma at_end_returned:
  assumes "conc_fair c" "\<not> list_ex (is_crash \<circ> snd) (cn_threads c)" "at_end c" "\<not> chan_full (cn_shared c)"
  shows "\<forall>(r, p) \<in> set (cn_threads c). returned p"
proof (rule ccontr)
  assume n: "\<not> (\<forall>(r, p) \<in> set (cn_threads c). returned p)"
  have "\<exists>i < length (map snd (cn_threads c)). proc_step (map snd (cn_threads c) ! i) (cn_shared c) \<noteq> None"
    by (rule someone_moves [OF assms(1) [unfolded conc_fair_def]])
       (use n assms(2,4) in \<open>fastforce simp: list_ex_iff\<close>)+
  then show False using assms(3) by (auto simp: at_end_def go_step_def)
qed

definition threads_of :: "conc \<Rightarrow> goroutine multiset" where
  "threads_of c = mset (map snd (cn_threads c))"

lemma go_step_progress:
  assumes "go_step i c = Some c'"
  shows "(threads_of c', threads_of c) \<in> progress"
proof -
  obtain p s where i: "i < length (cn_threads c)"
    and p: "proc_step (snd (cn_threads c ! i)) (cn_shared c) = Some (p, s)"
    and c': "c' = (put_shared s c)\<lparr>cn_threads := (cn_threads c)[i := (fst (cn_threads c ! i), p)]\<rparr>"
    using go_stepE [OF assms] by blast
  show ?thesis
    using progress_step [of i "map snd (cn_threads c)" p] i step_follows [OF p]
    by (simp add: threads_of_def c' map_update)
qed

lemma no_endless_run: "\<nexists>f. \<forall>n. \<exists>i. go_step i (f n) = Some (f (Suc n))"
proof
  assume "\<exists>f. \<forall>n. \<exists>i. go_step i (f n) = Some (f (Suc n))"
  then obtain f where "\<And>n. (threads_of (f (Suc n)), threads_of (f n)) \<in> progress"
    using go_step_progress by metis
  then show False using wf_progress wf_iff_no_infinite_down_chain [of progress] by fast
qed

section \<open>One goroutine that nobody interrupts\<close>

lemma go_new:
  "go_step (length (cn_threads c)) (spawn r p c) =
     map_option (\<lambda>(p', s). spawn r p' (put_shared s c)) (proc_step p (cn_shared c))"
  by (cases "proc_step p (cn_shared c)")
     (auto simp: go_step_def spawn_def put_shared_def cn_shared_def nth_append)

lemma solo_step:
  assumes "proc_step p (cn_shared c) = Some (q, s)" "\<not> is_crash q" "\<not> list_ex (is_crash \<circ> snd) (cn_threads c)"
  shows "conc_step (Goes (length (cn_threads c))) (spawn r p c) = Some (spawn r q (put_shared s c))"
  using assms go_new [of c r p] by (simp add: conc_step_def comp_def)

lemma undisturbed:
  "proc_run p (cn_shared c) = Some (a, s) \<Longrightarrow> a \<noteq> Crashed \<Longrightarrow> \<not> list_ex (is_crash \<circ> snd) (cn_threads c) \<Longrightarrow>
   \<exists>m. conc_run (replicate m (Goes (length (cn_threads c)))) (spawn r p c) = Some (spawn r (Ret a) (put_shared s c))"
proof (induction p arbitrary: c)
  case (Ret b)
  then have "s = cn_shared c" "b = a" by simp_all
  then show ?case by (intro exI [of _ 0]) simp
next
  case (Act f k)
  then obtain s1 where f: "f (cn_shared c) = Some s1" "proc_run (k (cn_shared c)) s1 = Some (a, s)"
    by (auto split: option.splits)
  let ?c1 = "put_shared s1 c"
  obtain m where "conc_run (replicate m (Goes (length (cn_threads ?c1)))) (spawn r (k (cn_shared c)) ?c1) =
      Some (spawn r (Ret a) (put_shared s ?c1))"
    using Act.IH [of "k (cn_shared c)" ?c1] f(2) Act.prems(2,3) by auto
  moreover have "\<not> is_crash (k (cn_shared c))" using f(2) Act.prems(2) by (cases "k (cn_shared c)") auto
  ultimately have "conc_run (replicate (Suc m) (Goes (length (cn_threads c)))) (spawn r (Act f k) c) =
      Some (spawn r (Ret a) (put_shared s c))"
    using solo_step [of "Act f k" c "k (cn_shared c)" s1 r] f(1) Act.prems(3) by simp
  then show ?case by blast
qed

section \<open>A PATCH and a DELETE\<close>

lemma moves_up: "kv_moves (ss_kv st) (ss_kv st') \<Longrightarrow> store_up st \<Longrightarrow> store_up st'"
  by (simp add: kv_moves_def store_up_def)

lemma sound_readable: "sound_store (ss_kv st) \<Longrightarrow> keys_readable st"
  using in_range_sub_key by (auto simp: sound_store_def keys_readable_def entry_ok_def in_range_def)

text \<open>What a PATCH has found in its range, when one key was to be replaced.\<close>

lemma range_patch:
  assumes "store_up st" "sound_store (ss_kv st)" "patchRange j = Some (lo, hi)"
    and "kvGetRange lo hi (ss_kv st) = (Inr kvs, kv1)" "patch_hits hit lo hi st = {key}"
  shows "patchable kvs \<and> (\<exists>v. find (entry_hit hit) kvs = Some (key, v))"
proof
  have mem: "\<And>k v. (k, v) \<in> set kvs \<longleftrightarrow> kv_content (ss_kv st) k = Some v \<and> lo \<le> k \<and> k \<le> hi"
    using kv.range_read [of "ss_kv st" lo hi] assms(1,4) unfolding store_up_def by auto
  show "patchable kvs"
    using range_entries [OF assms(4) patchRange_sub_keys [OF assms(3)] assms(2)]
    by (fastforce simp: patchable_def entry_ok_def)
  show "\<exists>v. find (entry_hit hit) kvs = Some (key, v)"
  proof (cases "find (entry_hit hit) kvs")
    case None
    then have "patch_hits hit lo hi st = {}" by (auto simp: patch_hits_def find_None_iff mem)
    then show ?thesis using assms(5) by simp
  next
    case (Some kv)
    then have "kv \<in> set kvs" "entry_hit hit kv" by (auto simp: find_Some_iff)
    then have "fst kv \<in> patch_hits hit lo hi st" using mem [of "fst kv" "snd kv"] by (auto simp: patch_hits_def)
    then show ?thesis using Some assms(5) by (cases kv) auto
  qed
qed

section \<open>Properties\<close>

text \<open>
  C3: From the start, with any number of requests, probes, pruning rounds, notifications and
  jobs that take their accesses to the store, the prune map, its lock and the handle of the
  telemetry bus in any order, and whatever the store, HSM, the bus and the subscribers do: when
  the store was not opened as the memory back end, so that each of its calls is atomic, and as
  long as the subscriptions that are posted or patched are clean and have components, the
  process never dies, no handler but a probe panics, every entry of the store can be read, the
  health key stays, and a server whose store answers is ready unless the telemetry bus is
  closed.
\<close>

theorem interleaved_traffic:
  assumes "openKV env opens g = Opened g1 kv" "\<not> mem_url (KV_url (app_params g1))" "sound_store kv"
    and "\<forall>ev \<in> set evs. clean_activity ev"
  shows "\<exists>c. conc_run evs (conc_boot g1 kv) = Some c \<and> (\<forall>(r, p) \<in> set (cn_threads c). p = panic \<longrightarrow> r = Probe) \<and>
    sound_store (cn_kv c) \<and> kv_content (cn_kv c) ''HMNFD_HEALTH_KEY'' = Some ''HMNFD_OK'' \<and>
    (kv_reliable kv \<longrightarrow> tl_bus (sv_tel (cn_sv c)) \<noteq> Some 2 \<longrightarrow>
      (\<forall>r. rq_method r = ''GET'' \<longrightarrow>
         status_of (fst (readinessHandler r (Some (cn_kv c)) (tl_bus (sv_tel (cn_sv c))))) = 204))"
proof -
  obtain c where c: "conc_run evs (conc_boot g1 kv) = Some c" "conc_safe kv c"
    using conc_run_safe [OF conc_boot_safe assms(3,4)] by blast
  then have m: "kv_moves kv (cn_kv c)" and t: "\<forall>(r, p) \<in> set (cn_threads c). p = panic \<longrightarrow> r = Probe"
    by (auto simp: conc_safe_def)
  have h: "kv_content (cn_kv c) ''HMNFD_HEALTH_KEY'' = Some ''HMNFD_OK''"
    using m opened_health [OF assms(1)] by (simp add: kv_moves_def)
  have "kv_reliable kv \<longrightarrow> kv_reliable (cn_kv c)" using m by (simp add: kv_moves_def)
  then show ?thesis
    using c(1) t h kv_moves_sound [OF m assms(3)] ready_reliable by (intro exI [of _ c]) auto
qed

definition ex_arrive :: "string \<Rightarrow> string \<Rightarrow> string \<Rightarrow> activity" where
  "ex_arrive meth path body =
     Arrive ''now'' [] \<lparr>rq_method = meth, rq_path = path, rq_vars = [], rq_body = body, rq_err = False\<rparr>"

definition ex_path :: string where
  "ex_path = ''/hmi/v2/subscriptions/x0c0s0b0n0/agents/mon''"

definition ex_post_body :: string where
  "ex_post_body =
     ''{\"Subscriber\":\"mon@x0c0s0b0n0\",\"Components\":[\"x0c0s1b0n0\"],\"States\":[\"On\"],\"Url\":\"http://a\"}''"

text \<open>A POST and a DELETE of the same agent take their steps in turn, while a notification comes in.\<close>

definition ex_traffic :: "activity list" where
  "ex_traffic =
     [ex_arrive ''POST'' ex_path ex_post_body, ex_arrive ''DELETE'' ex_path [], Goes 0, Goes 1, Goes 0, Goes 0,
      ex_arrive ''POST'' ''/hmi/v1/scn'' ''{\"Components\":[\"x0c0s1b0n0\"],\"State\":\"On\"}'',
      Elsewhere (CacheTimer ''t1''), NextBatch, PruneTimer, Goes 3, Goes 4, Elsewhere SubmitJob,
      ex_arrive ''GET'' ''/hmi/v1/readiness'' [], Goes 5, Goes 5]"

definition ex_env :: environ where
  "ex_env = [(''ETCD_HOST'', ''etcd''), (''ETCD_PORT'', ''2379'')]"

definition ex_start :: gstate where
  "ex_start = initial_gstate\<lparr>app_params := (app_params initial_gstate)\<lparr>KV_url := []\<rparr>\<rparr>"

lemma ex_opened:
  "\<exists>g1 kv. openKV ex_env (\<lambda>_. [None, Some kv_open]) ex_start = Opened g1 kv \<and>
     \<not> mem_url (KV_url (app_params g1)) \<and> sound_store kv"
proof -
  have "case openKV ex_env (\<lambda>_. [None, Some kv_open]) ex_start of
      Opened g1 kv \<Rightarrow> \<not> mem_url (KV_url (app_params g1)) \<and> kv = \<lparr>kv_mem = [(''HMNFD_HEALTH_KEY'', ''HMNFD_OK'')], kv_script = [], kv_errmsg = []\<rparr>
    | _ \<Rightarrow> False"
    by code_simp
  then obtain g1 kv where o: "openKV ex_env (\<lambda>_. [None, Some kv_open]) ex_start = Opened g1 kv"
    "\<not> mem_url (KV_url (app_params g1))"
    "kv_content kv = [''HMNFD_HEALTH_KEY'' \<mapsto> ''HMNFD_OK'']" "kv_ok kv"
    by (auto simp: kv_content_def kv_ok_def gm_ok_def split: open_result.splits)
  then show ?thesis by (auto simp: sound_store_def sub_key_def split: if_splits)
qed

lemma ex_clean: "\<forall>ev \<in> set ex_traffic. clean_activity ev"
proof -
  have "list_all clean_activity ex_traffic" by code_simp
  then show ?thesis by (simp add: list_all_iff)
qed

theorem interleaved_traffic_witness:
  "\<exists>g1 kv c. openKV ex_env (\<lambda>_. [None, Some kv_open]) ex_start = Opened g1 kv \<and>
     conc_run ex_traffic (conc_boot g1 kv) = Some c \<and>
     (\<forall>(r, p) \<in> set (cn_threads c). p = panic \<longrightarrow> r = Probe) \<and> sound_store (cn_kv c)"
proof -
  obtain g1 kv where o: "openKV ex_env (\<lambda>_. [None, Some kv_open]) ex_start = Opened g1 kv"
    "\<not> mem_url (KV_url (app_params g1))" "sound_store kv"
    using ex_opened by blast
  then show ?thesis using interleaved_traffic [OF o ex_clean] by blast
qed

text \<open>The handle of the bus goes away between the two looks of a probe.\<close>

lemma bus_race:
  assumes "\<not> list_ex (is_crash \<circ> snd) (cn_threads c)"
    and "tl_bus (sv_tel (cn_sv c)) \<noteq> None" "Use_telemetry (app_params (sv_g (cn_sv c))) = 0"
  shows "\<exists>c'. conc_run [Goes (length (cn_threads c)), Elsewhere (TelConnect conn), Goes (length (cn_threads c))]
       (spawn r (bus_steps k) c) = Some c' \<and> cn_threads c' = cn_threads c @ [(r, panic)]"
proof -
  let ?n = "length (cn_threads c)"
  let ?use = "see_rest rs_bus (\<lambda>bus. case bus of None \<Rightarrow> panic | Some st \<Rightarrow> k (Some st))"
  let ?c1 = "c\<lparr>cn_sv := server_step (TelConnect conn) (cn_sv c)\<rparr>"
  have "proc_step (bus_steps k) (cn_shared c) = Some (?use, cn_shared c)"
    using assms(2) by (simp add: bus_steps_def see_rest_def act_def cn_shared_def sv_rest_def)
  moreover have "\<not> is_crash ?use" by (simp add: see_rest_def act_def)
  ultimately have 1: "conc_step (Goes ?n) (spawn r (bus_steps k) c) = Some (spawn r ?use c)"
    using solo_step [of "bus_steps k" c ?use "cn_shared c" r] assms(1) by simp
  have 2: "conc_step (Elsewhere (TelConnect conn)) (spawn r ?use c) = Some (spawn r ?use ?c1)"
    using assms(1) \<open>\<not> is_crash ?use\<close> by (simp add: conc_step_def spawn_def comp_def)
  have "proc_step ?use (cn_shared ?c1) = Some (panic, cn_shared ?c1)"
    using assms(3) by (simp add: see_rest_def act_def cn_shared_def sv_rest_def telebus_round_def)
  then have 3: "conc_step (Goes ?n) (spawn r ?use ?c1) = Some (spawn r panic ?c1)"
    using solo_step [of ?use ?c1 panic "cn_shared ?c1" r] assms(1) by simp
  show ?thesis using 1 2 3 by simp
qed

lemma probe_replies:
  assumes "probe_steps h r = Some p"
  shows "\<exists>w s'. proc_run p s = Some (Replied w, s')"
proof (cases h)
  case H_readiness
  obtain w kv where "readinessHandler r (Some (ss_kv (ps_sub s))) (rs_bus (ps_rest s)) = (w, Some kv)"
    using readiness_moves by (metis prod.collapse)
  from readiness_alone [OF this] show ?thesis using assms H_readiness by auto
next
  case H_health
  obtain w kv where "healthHandler r (Some (ss_kv (ps_sub s))) (rs_bus (ps_rest s))
      (ss_prune (ps_sub s)) (Some (rs_pool (ps_rest s))) = (w, Some kv)"
    using health_moves by (metis prod.collapse)
  from health_alone [OF this] show ?thesis using assms H_health by auto
qed (use assms in simp_all)

text \<open>
  C29: The probes look at the handle of the telemetry bus twice without its mutex: a GET on
  readiness or health that comes in while the bus is connected panics, when telebusConnect drops
  the handle between the two looks because a PATCH has switched telemetry off; the process goes
  on, and every other goroutine is as it was. Without that step in between the probe is
  answered.
\<close>

theorem probe_race:
  assumes "newRouter generateRoutes (rq_method r) (rq_path r) = Handled h vs" "rq_method r = ''GET''"
    and "h \<in> {H_readiness, H_health}" "\<not> list_ex (is_crash \<circ> snd) (cn_threads c)"
    and "tl_bus (sv_tel (cn_sv c)) \<noteq> None" "Use_telemetry (app_params (sv_g (cn_sv c))) = 0"
  shows "(\<exists>m c'. conc_run (Arrive now perr r # replicate m (Goes (length (cn_threads c))) @
        [Elsewhere (TelConnect conn), Goes (length (cn_threads c))]) c = Some c' \<and>
      cn_threads c' = cn_threads c @ [(Probe, panic)]) \<and>
    (\<exists>m c' w. conc_run (Arrive now perr r # replicate m (Goes (length (cn_threads c)))) c = Some c' \<and>
      cn_threads c' = cn_threads c @ [(Probe, reply w)])"
proof -
  let ?r = "r\<lparr>rq_vars := vs\<rparr>" and ?n = "length (cn_threads c)"
  obtain p where p: "probe_steps h ?r = Some p" "request_steps r = None" "probing_steps r = Some p"
    using assms(1,3) by (auto simp: request_steps_def probing_steps_def)
  have alive: "\<not> is_crash p" using p(1) assms(2,3)
    by (auto simp: readiness_steps_def health_steps_def bus_steps_def key_steps_def see_rest_def on_kv_def act_def)
  have start: "conc_step (Arrive now perr r) c = Some (spawn Probe p c)"
    using p assms(4) alive by (simp add: conc_step_def arrive_def comp_def)
  have "\<exists>m c'. conc_run (replicate m (Goes ?n) @ [Elsewhere (TelConnect conn), Goes ?n]) (spawn Probe p c) = Some c' \<and>
      cn_threads c' = cn_threads c @ [(Probe, panic)]"
  proof (cases "h = H_readiness")
    case True
    then obtain k where k: "p = bus_steps k" using p(1) assms(2) by (auto simp: readiness_steps_def)
    show ?thesis using bus_race [OF assms(4-6), of conn Probe k] k by (intro exI [of _ 1]) simp
  next
    case False
    then have "h = H_health" using assms(3) by simp
    then obtain key e a v k where k: "p = key_steps key e a v (\<lambda>t. bus_steps (k t))"
      using p(1) assms(2) by (auto simp: health_steps_def)
    obtain t s where s: "proc_step p (cn_shared c) = Some (bus_steps (k t), s)" "ps_rest s = ps_rest (cn_shared c)"
      by (auto simp: k key_steps_def on_kv_def act_def split: prod.split)
    have b: "\<not> is_crash (bus_steps (k t))" by (simp add: bus_steps_def see_rest_def act_def)
    let ?c1 = "put_shared s c"
    have "tl_bus (sv_tel (cn_sv ?c1)) \<noteq> None" "Use_telemetry (app_params (sv_g (cn_sv ?c1))) = 0"
      using assms(5,6) s(2) by (simp_all add: put_shared_def cn_shared_def sv_rest_def)
    then show ?thesis
      using bus_race [of ?c1 conn Probe "k t"] assms(4) solo_step [OF s(1) b assms(4), of Probe]
      by (intro exI [of _ 2]) (simp add: numeral_2_eq_2)
  qed
  moreover have "\<exists>m c' w. conc_run (replicate m (Goes ?n)) (spawn Probe p c) = Some c' \<and>
      cn_threads c' = cn_threads c @ [(Probe, reply w)]"
    using probe_replies [OF p(1), of "cn_shared c"] undisturbed [of p c _ _ Probe] assms(4)
    by (metis ending.distinct(5) threads_fields)
  ultimately show ?thesis using start by simp
qed

text \<open>The bus is connected, and a PATCH of the parameters has just switched it off.\<close>

definition ex_switched :: conc where
  "ex_switched = (conc_boot ex_start kv_open)\<lparr>cn_sv := (boot ex_start kv_open)\<lparr>
     sv_g := ex_start\<lparr>app_params := (app_params ex_start)\<lparr>Use_telemetry := 0\<rparr>\<rparr>,
     sv_tel := \<lparr>tl_queue = [], tl_bus = Some 1, tl_cfg = Some (''bus'', 9092, ''topic''), tl_written = []\<rparr>\<rparr>\<rparr>"

theorem probe_race_witness:
  "\<exists>m c'. conc_run (ex_arrive ''GET'' ''/hmi/v1/readiness'' [] # replicate m (Goes 0) @
       [Elsewhere (TelConnect (\<lambda>_. None)), Goes 0]) ex_switched = Some c' \<and>
     cn_threads c' = [(Probe, panic)]"
proof -
  have "newRouter generateRoutes ''GET'' ''/hmi/v1/readiness'' = Handled H_readiness []" by code_simp
  then show ?thesis
    using probe_race [of "\<lparr>rq_method = ''GET'', rq_path = ''/hmi/v1/readiness'', rq_vars = [], rq_body = [],
          rq_err = False\<rparr>" H_readiness "[]" ex_switched "''now''" "[]" "\<lambda>_. None"]
    by (simp add: ex_arrive_def ex_switched_def conc_boot_def)
qed

text \<open>
  C7: Each of the nine subscription handlers and both probes, cut into its accesses to the
  store, the prune map, the lock, the channel and the handle of the bus, comes to its end when
  no other goroutine takes a step in between and then gives the answer and the state of the
  handler as one step.
\<close>

theorem requests_alone:
  assumes "handler_steps h r = Some p \<or> probe_steps h r = Some p \<and> rest = sv_rest sv"
    and "serve h now perr r sv = (w, sv')" "length (ss_hsmsub (sv_sub sv)) < hsmsub_cap"
  shows "proc_run p (at_rest (sv_sub sv) rest) = Some (ending_of w, at_rest (sv_sub sv') rest) \<and>
    sv' = sv\<lparr>sv_sub := sv_sub sv'\<rparr>"
  using handler_alone [OF _ assms(2,3)] probe_alone [OF _ assms(2)] assms(1) by (auto simp: runs_as_def)

theorem requests_alone_witness:
  "\<exists>p w sv' rest. handler_steps H_agentPost (ex_request ''POST'' ex_body) = Some p \<and>
     serve H_agentPost [] [] (ex_request ''POST'' ex_body) (boot initial_gstate kv_open) = (w, sv') \<and>
     proc_run p (at_rest (sv_sub (boot initial_gstate kv_open)) rest) = Some (ending_of w, at_rest (sv_sub sv') rest)"
proof -
  obtain w sv' where s: "serve H_agentPost [] [] (ex_request ''POST'' ex_body) (boot initial_gstate kv_open) = (w, sv')"
    by force
  have "length (ss_hsmsub (sv_sub (boot initial_gstate kv_open))) < hsmsub_cap"
    by (simp add: boot_def Let_def hsmsub_cap_def subscribeMandatoryScn_def hsm_start_def)
  then show ?thesis using requests_alone [OF _ s] s by auto
qed

text \<open>
  C5: In every state that the process can reach, every schedule of the goroutines that are there
  is finite, and when none of them can take another step, all of them have come to their end or
  the channel to the HSM thread is full: no request waits for ever for the lock of the prune
  map.
\<close>

theorem requests_end:
  assumes "conc_run evs (conc_boot g kv) = Some c"
  shows "(\<nexists>f. f 0 = c \<and> (\<forall>n. \<exists>i. go_step i (f n) = Some (f (Suc n)))) \<and>
    (at_end c \<longrightarrow> (\<forall>(r, p) \<in> set (cn_threads c). returned p) \<or> chan_full (cn_shared c))"
proof -
  have "\<not> list_ex (is_crash \<circ> snd) (cn_threads c)"
    using conc_run_alive [OF assms] by (simp add: conc_boot_def)
  then show ?thesis
    using no_endless_run at_end_returned [OF conc_run_fair [OF assms conc_boot_fair]] by blast
qed

theorem requests_end_witness:
  "\<exists>g1 kv c. openKV ex_env (\<lambda>_. [None, Some kv_open]) ex_start = Opened g1 kv \<and>
     conc_run ex_traffic (conc_boot g1 kv) = Some c \<and>
     (\<nexists>f. f 0 = c \<and> (\<forall>n. \<exists>i. go_step i (f n) = Some (f (Suc n))))"
proof -
  obtain g1 kv where o: "openKV ex_env (\<lambda>_. [None, Some kv_open]) ex_start = Opened g1 kv" "sound_store kv"
    using ex_opened by blast
  obtain c where c: "conc_run ex_traffic (conc_boot g1 kv) = Some c"
    using conc_run_safe [OF conc_boot_safe o(2) ex_clean] by blast
  then show ?thesis using o(1) requests_end [OF c] by blast
qed

text \<open>
  C6: In every state that the process can reach, a goroutine whose next step changes the prune
  map holds its lock, and no step that another goroutine could take instead changes the map or
  releases the lock: two writes of the map never race.
\<close>

theorem prune_map_locked:
  assumes "conc_run evs (conc_boot g kv) = Some c" "go_step i c = Some c1"
    and "ss_prune (sv_sub (cn_sv c1)) \<noteq> ss_prune (sv_sub (cn_sv c))" "j \<noteq> i" "go_step j c = Some c2"
  shows "cn_lock c \<and> cn_lock c2 \<and> ss_prune (sv_sub (cn_sv c2)) = ss_prune (sv_sub (cn_sv c))"
proof -
  let ?ps = "map snd (cn_threads c)"
  obtain p s where i: "i < length ?ps" "proc_step (?ps ! i) (cn_shared c) = Some (p, s)"
    "cn_shared c1 = s" by (rule go_stepE [OF assms(2)]) auto
  obtain q t where j: "j < length ?ps" "proc_step (?ps ! j) (cn_shared c) = Some (q, t)"
    "cn_shared c2 = t" by (rule go_stepE [OF assms(5)]) auto
  have "ss_prune (ps_sub s) \<noteq> ss_prune (ps_sub (cn_shared c))" using assms(3) i(3) by (auto simp: cn_shared_def)
  from one_holder_data [OF conc_run_fair [OF assms(1) conc_boot_fair, unfolded conc_fair_def]
      i(1,2) this j(1) assms(4) j(2)]
  show ?thesis using j(3) by (auto simp: cn_shared_def)
qed

text \<open>A notification has come in that makes a component unavailable.\<close>

definition ex_off_in :: "activity list" where
  "ex_off_in =
     [ex_arrive ''POST'' ''/hmi/v1/scn'' ''{\"Components\":[\"x0c0s1b0n0\"],\"State\":\"Off\"}'',
      Elsewhere (CacheTimer ''t1'')]"

theorem prune_map_locked_witness:
  "\<exists>c c1 c2. conc_run (ex_off_in @ [NextBatch, PruneTimer, Goes 1]) (conc_boot initial_gstate kv_open) = Some c \<and>
     go_step 1 c = Some c1 \<and> go_step 2 c = Some c2 \<and>
     ss_prune (sv_sub (cn_sv c1)) \<noteq> [] \<and> cn_lock c2 \<and> ss_prune (sv_sub (cn_sv c2)) = []"
proof -
  have "case conc_run ex_off_in (conc_boot initial_gstate kv_open) of
      Some c \<Rightarrow>
        (case scnQ (sv_cache (cn_sv c)) of
           [scn] \<Rightarrow> isStateUnavailable scn \<and> scnComponents (scnToLower scn) = [''x0c0s1b0n0''] | _ \<Rightarrow> False) \<and>
        length (cn_threads c) = 1 \<and> list_all (\<lambda>(r, p). r = Request \<and> returned p \<and> \<not> is_crash p) (cn_threads c) \<and>
        \<not> cn_lock c \<and> sv_jobs (cn_sv c) = [] \<and> sv_wait (cn_sv c) = None \<and>
        ss_prune (sv_sub (cn_sv c)) = []
    | None \<Rightarrow> False"
    by code_simp
  then obtain c0 scn p where c0: "conc_run ex_off_in (conc_boot initial_gstate kv_open) = Some c0"
    "scnQ (sv_cache (cn_sv c0)) = [scn]" "isStateUnavailable scn"
    "scnComponents (scnToLower scn) = [''x0c0s1b0n0'']" "cn_threads c0 = [(Request, p)]" "returned p" "\<not> is_crash p"
    "\<not> cn_lock c0" "sv_jobs (cn_sv c0) = []" "sv_wait (cn_sv c0) = None"
    "ss_prune (sv_sub (cn_sv c0)) = []"
    by (auto simp: length_Suc_conv split: option.splits list.splits)
  let ?c = "conc_move (Goes 1) (conc_move PruneTimer (conc_move NextBatch c0))"
  note steps = next_batch_def busy_def Let_def spawn_def go_step_def doScn_steps_def mutex_Lock_def await_def
    on_prune_def act_def prune_steps_def cn_shared_def put_shared_def
  have c: "conc_run (ex_off_in @ [NextBatch, PruneTimer, Goes 1]) (conc_boot initial_gstate kv_open) = Some ?c"
    using c0 by (simp add: conc_run_append conc_step_def steps)
  obtain c1 c2 where g: "go_step 1 ?c = Some c1" "go_step 2 ?c = Some c2"
    "ss_prune (sv_sub (cn_sv c1)) \<noteq> []" "ss_prune (sv_sub (cn_sv ?c)) = []"
    using c0 by (simp add: steps)
  then show ?thesis using c prune_map_locked [OF c g(1) _ _ g(2)] by auto
qed

text \<open>
  C37: On a store that answers, a v2 PATCH that has read its one subscription before a DELETE of
  the same agent goes on after it: the DELETE is answered with 204, the next round of pruning
  ends and no subscription of the agent is left, and then the PATCH stores one again, answers
  204 and nothing in the prune map will remove it.
\<close>

theorem patch_resurrects:
  assumes "store_up st" "sound_store (ss_kv st)" "\<not> rq_err r"
    and "VerifyNormalizeCompID (rq_var r ''xname'') = xn" "xn \<noteq> []" "rq_var r ''agent'' = agent"
    and "unmarshal_ScnSubscribe (to_lower (rq_body r)) = Some j" "patchRange j = Some (lo, hi)"
    and "patch_hits (patch_hit_v2 xn agent) lo hi st = {key}"
    and "VerifyNormalizeCompID (rq_var r' ''xname'') = xn" "rq_var r' ''agent'' = agent"
    and "matching_keys (\<lambda>c a. xn = c \<and> agent = a) st \<noteq> {}"
  shows "\<exists>p w s1 s2 s3 s4. proc_step (agentPatch_steps r) (at_rest st rest) = Some (p, at_rest s1 rest) \<and>
    proc_run (agentDelete_steps r') (at_rest s1 rest) = Some (Replied w, at_rest s2 rest) \<and> status_of w = 204 \<and>
    proc_run prune_steps (at_rest s2 rest) = Some (Ended, at_rest s3 rest) \<and>
    (\<forall>k \<in> matching_keys (\<lambda>c a. xn = c \<and> agent = a) st. subscriptions s3 k = None) \<and>
    proc_run p (at_rest s3 rest) = Some (Replied (writeHeader 204 new_writer), at_rest s4 rest) \<and>
    subscriptions s4 (makeSubscriptionKey_V2 j xn agent) = Some (entry_of j) \<and> ss_prune s4 = []"
proof -
  let ?H = "matching_keys (\<lambda>c a. xn = c \<and> agent = a)" and ?exKey = "makeSubscriptionKey_V2 j xn agent"
  obtain kvs kv1 where g: "kvGetRange lo hi (ss_kv st) = (Inr kvs, kv1)"
    using kv.range_read [of "ss_kv st" lo hi] assms(1) unfolding store_up_def by auto
  have c1: "kv_content kv1 = kv_content (ss_kv st)" using kv.range_frame [of lo hi "ss_kv st"] g by simp
  have m1: "kv_moves (ss_kv st) kv1" using kv_moves_range [of "ss_kv st" lo hi] g by simp
  let ?s1 = "st\<lparr>ss_kv := kv1\<rparr>"
  let ?p = "patchLoop_steps (rq_path r) 204 (patch_hit_v2 xn agent) ?exKey j kvs new_writer"
  have patch: "proc_step (agentPatch_steps r) (at_rest st rest) = Some (?p, at_rest ?s1 rest)"
    using assms(3-8) g by (simp add: agentPatch_steps_def Let_def patchRange_steps_def on_kv_def act_def)
  have up1: "store_up ?s1" "sound_store (ss_kv ?s1)"
    using moves_up [of st ?s1] m1 assms(1) kv_moves_sound [OF m1 assms(2)] by simp_all
  have H1: "?H ?s1 = ?H st" by (simp add: matching_keys_def c1)
  obtain s2 where d: "subscriptionsAgentDeleteHandler r' ?s1 = (Some (writeHeader 204 new_writer), s2)"
    "deleted (?H st) ?s1 s2"
    using delete_v2_effect [OF up1(1) sound_readable [OF up1(2)], of "\<lambda>c a. xn = c \<and> agent = a"] assms(5,10-12) H1
    by (auto simp: subscriptionsAgentDeleteHandler_def Let_def)
  have m2: "kv_moves (ss_kv ?s1) (ss_kv s2)" using agentDelete_handled [of ?s1 r'] d(1) by (simp add: handled_def)
  have up2: "store_up s2" "sound_store (ss_kv s2)"
    using moves_up [OF m2 up1(1)] kv_moves_sound [OF m2 up1(2)] by simp_all
  obtain s3 where pr: "prune_round s2 = (False, s3)" "ss_prune s3 = []"
    "subscriptions s3 = subscriptions s2 |` {k. \<not> (in_range k \<and> prune_hit (ss_prune s2) k)}"
    using prune_round_run [OF up2(1) sound_readable [OF up2(2)]] by blast
  have m3: "kv_moves (ss_kv s2) (ss_kv s3)" using prune_round_safe [of s2] pr(1) by simp
  have up3: "store_up s3" by (rule moves_up [OF m3 up2(1)])
  have gone: "\<forall>k \<in> ?H st. subscriptions s3 k = None"
    using d(2) pr(3) by (simp add: deleted_def restrict_map_def)
  have "key \<in> patch_hits (patch_hit_v2 xn agent) lo hi st" using assms(9) by simp
  let ?res = "replaceEntry (rq_path r) 204 j key ?exKey new_writer s3"
  have "patchLoop (rq_path r) 204 (patch_hit_v2 xn agent) ?exKey j kvs new_writer s3 = ?res"
    using range_patch [OF assms(1,2,8) g assms(9)] by (auto simp: patchLoop_find)
  then have go: "runs_as ?p s3 ?res" using patchLoop_alone [of "rq_path r" 204] by metis
  have rel: "kv_reliable (ss_kv s3)" using up3 by (simp add: store_up_def)
  have res: "fst ?res = Some (writeHeader 204 new_writer)" "ss_prune (snd ?res) = []"
    "subscriptions (snd ?res) ?exKey = Some (entry_of j)"
    using replaceEntry_reliable [OF rel, of "rq_path r" 204 j key ?exKey new_writer]
      subscriptions_move [of "snd ?res" s3 key ?exKey "entry_of j"] pr(2)
      replaceEntry_rest [of "rq_path r" 204 j key ?exKey new_writer s3]
    by (simp_all add: entry_of_def)
  have "proc_run (agentDelete_steps r') (at_rest ?s1 rest) =
      Some (Replied (writeHeader 204 new_writer), at_rest s2 rest)"
    using delete_alone(2) [of r' ?s1] d(1) by (simp add: runs_as_def ending_of_def)
  moreover have "proc_run prune_steps (at_rest s2 rest) = Some (Ended, at_rest s3 rest)"
    using prune_alone [of s2 rest] pr(1) by simp
  moreover have "proc_run ?p (at_rest s3 rest) =
      Some (Replied (writeHeader 204 new_writer), at_rest (snd ?res) rest)"
    using go res(1) by (simp add: runs_as_def ending_of_def)
  moreover have "status_of (writeHeader 204 new_writer) = 204" by simp
  ultimately show ?thesis using patch gone res(2,3) by blast
qed

theorem patch_resurrects_witness:
  "\<exists>s3 s4. proc_run prune_steps (at_rest s3 (sv_rest (boot initial_gstate kv_open))) = Some (Ended, at_rest s4 (sv_rest (boot initial_gstate kv_open))) \<and> subscriptions s4 ex_key = None \<and>
     (\<exists>p s5. proc_run p (at_rest s4 (sv_rest (boot initial_gstate kv_open))) = Some (Replied (writeHeader 204 new_writer), at_rest s5 (sv_rest (boot initial_gstate kv_open))) \<and>
        subscriptions s5 ''sub#x0c0s0b0n0#hs.ready#svc.mon'' = Some (entry_of ex_patch))"
proof -
  let ?st = "ex_store [] [(ex_key, ex_val)]"
  have "case subinfo_of_key ex_key of Some _ \<Rightarrow> True | None \<Rightarrow> False" by code_simp
  then have "entry_ok ex_key ex_val" by (auto simp: entry_ok_def ex_values split: option.splits)
  then have "sound_store (ss_kv ?st)"
    using ex_up(2) by (auto simp: sound_store_def store_up_def ex_content split: if_splits)
  moreover have "ex_key \<in> matching_keys (\<lambda>c a. ''x0c0s0b0n0'' = c \<and> ''mon'' = a) ?st"
    using ex_in_range keyService_component [OF ex_values(5)]
    by (simp add: matching_keys_def ex_content ex_values key_agent_def)
  ultimately show ?thesis
    using patch_resurrects [OF ex_up(2) [of ex_key ex_val],
        of "ex_request ''PATCH'' ex_body" "''x0c0s0b0n0''" "''mon''" ex_patch
        "''sub#x0c0s0b0n0''" "''sub#x0c0s0b0n0z''" ex_key "ex_request ''DELETE'' []" "sv_rest (boot initial_gstate kv_open)"]
    by (simp add: ex_var ex_unmarshal ex_patch_range ex_patch_hits ex_post) blast
qed

end
