(* ===== verification/Lifecycle.thy ===== *)
theory Lifecycle
  imports Conc
begin

text \<open>
  The end of \<open>main\<close> in cmd/hmi-nfd/hmnfd.go: the HTTP server, the goroutine that waits for a signal, and the
  exit of the process. Of net/http it uses what the documentation of the package says: \<open>Shutdown\<close> closes
  the listener at once and then waits for the connections; as soon as it has been called, \<open>ListenAndServe\<close>
  returns \<open>ErrServerClosed\<close>.
\<close>

section \<open>The process\<close>

text \<open>
  \<open>pr_running\<close> is the variable \<open>Running\<close>, \<open>pr_listening\<close> whether the listener is open, \<open>pr_idle\<close> whether
  \<open>idleConnsClosed\<close> has been closed, \<open>pr_exit\<close> the status with which the process has ended.
\<close>

record process =
  pr_conc :: conc
  pr_running :: bool
  pr_listening :: bool
  pr_idle :: bool
  pr_exit :: "int option"

definition listenAddr :: "gstate \<Rightarrow> string" where
  "listenAddr g = '':'' @ show_int (url_port g)"

definition serving :: "conc \<Rightarrow> process" where
  "serving c = \<lparr>pr_conc = c, pr_running = True, pr_listening = True, pr_idle = False, pr_exit = None\<rparr>"

text \<open>
  A step of the handlers and goroutines, after \<open>Signalled\<close> the signal that the goroutine takes from its
  channel, the call of \<open>Shutdown\<close> and its return, the return of \<open>ListenAndServe\<close> because of it, and one
  for any other reason.
\<close>

datatype life = Works activity | Signalled | ShutdownCalled | ShutdownReturns | ListenReturns | ListenFails

fun is_arrival :: "activity \<Rightarrow> bool" where
  "is_arrival (Arrive now perr r) = True"
| "is_arrival _ = False"

text \<open>
  \<open>None\<close>: the step is not possible. \<open>os.Exit(0)\<close> follows every return of \<open>ListenAndServe\<close>; a panic
  of a goroutine ends the process with status 2.
\<close>

definition life_step :: "life \<Rightarrow> process \<Rightarrow> process option" where
  "life_step ev p =
     (if pr_exit p \<noteq> None then None
      else case ev of
        Works a \<Rightarrow>
          if is_arrival a \<and> \<not> pr_listening p then None
          else (case conc_step a (pr_conc p) of
                  None \<Rightarrow> Some (p\<lparr>pr_exit := Some 2\<rparr>)
                | Some c \<Rightarrow> Some (p\<lparr>pr_conc := c\<rparr>))
      | Signalled \<Rightarrow> if pr_running p then Some (p\<lparr>pr_running := False\<rparr>) else None
      | ShutdownCalled \<Rightarrow>
          if \<not> pr_running p \<and> pr_listening p then Some (p\<lparr>pr_listening := False\<rparr>) else None
      | ShutdownReturns \<Rightarrow>
          if \<not> pr_listening p \<and> \<not> pr_idle p \<and> \<not> busy Request (pr_conc p)
          then Some (p\<lparr>pr_idle := True\<rparr>) else None
      | ListenReturns \<Rightarrow> if \<not> pr_listening p then Some (p\<lparr>pr_exit := Some 0\<rparr>) else None
      | ListenFails \<Rightarrow> if pr_listening p then Some (p\<lparr>pr_exit := Some 0\<rparr>) else None)"

fun life_run :: "life list \<Rightarrow> process \<Rightarrow> process option" where
  "life_run [] p = Some p"
| "life_run (ev # evs) p = Option.bind (life_step ev p) (life_run evs)"

lemma life_run_append: "life_run (xs @ ys) p = Option.bind (life_run xs p) (life_run ys)"
  by (induction xs arbitrary: p) (simp_all split: bind_split)

section \<open>Status\<close>

text \<open>With clean requests the process ends only through \<open>os.Exit(0)\<close>.\<close>

lemma life_step_safe:
  assumes "life_step ev p = Some p'" "conc_safe kv (pr_conc p)" "sound_store kv"
    and "\<forall>a. ev = Works a \<longrightarrow> clean_activity a"
  shows "conc_safe kv (pr_conc p') \<and> pr_exit p' \<in> {None, Some 0}"
proof (cases ev)
  case (Works a)
  then have "\<exists>c'. conc_step a (pr_conc p) = Some c' \<and> conc_safe kv c'"
    using conc_run_safe [OF assms(2,3), of "[a]"] assms(4) by (auto split: bind_splits)
  then show ?thesis using Works assms(1) by (auto simp: life_step_def split: if_splits)
qed (use assms in \<open>auto simp: life_step_def split: if_splits\<close>)

lemma life_run_safe:
  "life_run evs p = Some p' \<Longrightarrow> conc_safe kv (pr_conc p) \<Longrightarrow> sound_store kv \<Longrightarrow> pr_exit p \<in> {None, Some 0} \<Longrightarrow>
   \<forall>a. Works a \<in> set evs \<longrightarrow> clean_activity a \<Longrightarrow> conc_safe kv (pr_conc p') \<and> pr_exit p' \<in> {None, Some 0}"
proof (induction evs arbitrary: p)
  case (Cons ev evs)
  then obtain p1 where 1: "life_step ev p = Some p1" "life_run evs p1 = Some p'" by (auto split: bind_splits)
  have "conc_safe kv (pr_conc p1) \<and> pr_exit p1 \<in> {None, Some 0}"
    using life_step_safe [OF 1(1) Cons.prems(2,3)] Cons.prems(5) by auto
  then show ?case using Cons.IH [OF 1(2)] Cons.prems(3,5) by auto
qed simp

text \<open>Nothing reads \<open>Running\<close>: the goroutines work on after the signal as before it.\<close>

lemma running_ignored:
  "life_step (Works a) (p\<lparr>pr_running := b\<rparr>) = map_option (\<lambda>q. q\<lparr>pr_running := b\<rparr>) (life_step (Works a) p)"
  by (cases p) (auto simp: life_step_def split: option.split)

text \<open>Whatever the handlers are at, the process can end with three steps after the signal.\<close>

lemma exit_at_once:
  assumes "pr_exit p = None" "pr_running p" "pr_listening p"
  shows "life_run [Signalled, ShutdownCalled, ListenReturns] p =
    Some (p\<lparr>pr_running := False, pr_listening := False, pr_exit := Some 0\<rparr>)"
  using assms by (simp add: life_step_def)

section \<open>A request that is cut short\<close>

lemma patchLoop_steps_find:
  "patchable kvs \<Longrightarrow> patchLoop_steps e c hit exKey j kvs w =
     (case find (entry_hit hit) kvs of
        None \<Rightarrow> reply (writeHeader c w)
      | Some kv \<Rightarrow> replaceEntry_steps e c j (fst kv) exKey w)"
proof (induction e c hit exKey j kvs w rule: patchLoop_steps.induct)
  case (2 e c hit exKey j key val rest w)
  then obtain x a sd where "keyServicePatch key = Some (x, a)" "unmarshal_SubData val = Some sd"
    by (auto simp: patchable_def)
  moreover have "patchable rest" using "2.prems" by (simp add: patchable_def)
  ultimately show ?case using "2.IH" by (simp add: entry_hit_def)
qed simp

text \<open>
  C36: A signal cuts requests short: in whatever state the process is serving, a v2 PATCH that
  comes in and has deleted the old key of its subscription when the signal arrives is not waited
  for, since main leaves as soon as Shutdown has been called; the process exits with status 0
  and the store holds neither the old subscription nor the new one.
\<close>

theorem patch_cut_short:
  assumes "\<not> list_ex (is_crash \<circ> snd) (cn_threads c)" "sv_sub (cn_sv c) = st" "store_up st" "sound_store (ss_kv st)"
    and "request_steps r = Some (agentPatch_steps r')" "\<not> rq_err r'"
    and "VerifyNormalizeCompID (rq_var r' ''xname'') = xn" "xn \<noteq> []" "rq_var r' ''agent'' = agent"
    and "unmarshal_ScnSubscribe (to_lower (rq_body r')) = Some j" "patchRange j = Some (lo, hi)"
    and "patch_hits (patch_hit_v2 xn agent) lo hi st = {key}" "makeSubscriptionKey_V2 j xn agent \<noteq> key"
  shows "\<exists>p'. life_run [Works (Arrive now perr r), Works (Goes (length (cn_threads c))),
       Works (Goes (length (cn_threads c))), Signalled, ShutdownCalled, ListenReturns] (serving c) = Some p' \<and>
    pr_exit p' = Some 0 \<and> \<not> pr_idle p' \<and> busy Request (pr_conc p') \<and>
    subscriptions (sv_sub (cn_sv (pr_conc p'))) = (subscriptions st)(key := None)"
proof -
  let ?n = "length (cn_threads c)" and ?exKey = "makeSubscriptionKey_V2 j xn agent"
  obtain kvs kv1 where g: "kvGetRange lo hi (ss_kv st) = (Inr kvs, kv1)" and c1: "kv_content kv1 = kv_content (ss_kv st)"
    and rel: "kv_reliable kv1"
    using kv.range_read [of "ss_kv st" lo hi] assms(3) unfolding store_up_def by auto
  obtain v where f: "patchable kvs" "find (entry_hit (patch_hit_v2 xn agent)) kvs = Some (key, v)"
    using range_patch [OF assms(3,4,11) g assms(12)] by blast
  obtain err kv2 where d: "kvDelete key kv1 = (err, kv2)" by force
  have d2: "\<not> err" "kv_content kv2 = (kv_content (ss_kv st))(key := None)"
    using kv.reliable_delete [OF rel, of key] kv.reliable_delete_content [OF rel, of key] d c1 by simp_all
  let ?loop = "patchLoop_steps (rq_path r') 204 (patch_hit_v2 xn agent) ?exKey j kvs new_writer"
  let ?put = "on_kv (makeSubscriptionEntry (subComponents j) (subUrl j) ?exKey) (\<lambda>_. reply (writeHeader 204 new_writer))"
  let ?s = "cn_shared c"
  let ?s1 = "?s\<lparr>ps_sub := st\<lparr>ss_kv := kv1\<rparr>\<rparr>" and ?s2 = "?s\<lparr>ps_sub := st\<lparr>ss_kv := kv2\<rparr>\<rparr>"
  have sub: "ps_sub ?s = st" using assms(2) by (simp add: cn_shared_def)
  have 1: "proc_step (agentPatch_steps r') ?s = Some (?loop, ?s1)"
    using assms(6-11) g sub by (simp add: agentPatch_steps_def Let_def patchRange_steps_def on_kv_def act_def)
  have loop: "?loop = replaceEntry_steps (rq_path r') 204 j key ?exKey new_writer"
    using patchLoop_steps_find [OF f(1)] f(2) by simp
  have 2: "proc_step ?loop ?s1 = Some (?put, ?s2)"
    unfolding loop replaceEntry_steps_def Let_def using assms(13) d d2(1) by (simp add: on_kv_def act_def)
  have alive: "\<not> is_crash (agentPatch_steps r')" "\<not> is_crash ?loop" "\<not> is_crash ?put"
    using 1 2 by (cases "agentPatch_steps r'"; cases ?loop; simp add: on_kv_def act_def)+
  have put: "put_shared ?s2 (put_shared ?s1 c) = put_shared ?s2 c" "cn_shared (put_shared ?s1 c) = ?s1" by simp_all
  let ?c0 = "spawn Request (agentPatch_steps r') c" and ?c1 = "spawn Request ?loop (put_shared ?s1 c)"
    and ?c2 = "spawn Request ?put (put_shared ?s2 c)"
  have g1: "go_step ?n ?c0 = Some ?c1" using go_new [of c Request "agentPatch_steps r'"] 1 by simp
  have g2: "go_step ?n ?c1 = Some ?c2"
    using go_new [of "put_shared ?s1 c" Request ?loop] 2 put by simp
  have steps: "conc_step (Arrive now perr r) c = Some ?c0" "conc_step (Goes ?n) ?c0 = Some ?c1"
    "conc_step (Goes ?n) ?c1 = Some ?c2"
    using assms(1,5) g1 g2 alive by (simp_all add: conc_step_def arrive_def)
  let ?p = "(serving c)\<lparr>pr_conc := ?c2\<rparr>"
  have "life_run [Works (Arrive now perr r), Works (Goes ?n), Works (Goes ?n)] (serving c) = Some ?p"
    using steps by (simp add: life_step_def serving_def)
  then have run: "life_run [Works (Arrive now perr r), Works (Goes ?n), Works (Goes ?n), Signalled, ShutdownCalled,
      ListenReturns] (serving c) = Some (?p\<lparr>pr_running := False, pr_listening := False, pr_exit := Some 0\<rparr>)"
    using exit_at_once [of ?p]
      life_run_append [of "[Works (Arrive now perr r), Works (Goes ?n), Works (Goes ?n)]"
        "[Signalled, ShutdownCalled, ListenReturns]" "serving c"] by (simp add: serving_def)
  have "subscriptions (sv_sub (cn_sv ?c2)) = (subscriptions st)(key := None)"
    by (rule ext) (simp add: spawn_def put_shared_def subscriptions_def d2(2))
  moreover have "busy Request ?c2" by (simp add: busy_def on_kv_def act_def)
  ultimately show ?thesis using run by (simp add: serving_def)
qed

definition ex_life :: conc where
  "ex_life = (conc_boot initial_gstate kv_open)\<lparr>cn_sv := (boot initial_gstate kv_open)\<lparr>sv_sub := ex_one\<rparr>\<rparr>"

definition ex_patch_in :: request where
  "ex_patch_in = \<lparr>rq_method = ''PATCH'', rq_path = ex_path, rq_vars = [], rq_body = ex_body, rq_err = False\<rparr>"

theorem patch_cut_short_witness:
  "\<exists>p'. life_run [Works (Arrive [] [] ex_patch_in), Works (Goes 0), Works (Goes 0), Signalled, ShutdownCalled,
       ListenReturns] (serving ex_life) = Some p' \<and> pr_exit p' = Some 0 \<and>
     subscriptions (sv_sub (cn_sv (pr_conc p'))) ex_key = None"
proof -
  let ?vs = "[(''xname'', ''x0c0s0b0n0''), (''agent'', ''mon'')]"
  let ?r = "ex_patch_in\<lparr>rq_vars := ?vs\<rparr>"
  have rt: "newRouter generateRoutes ''PATCH'' ex_path = Handled H_agentPatch ?vs" by code_simp
  have r: "request_steps ex_patch_in = Some (agentPatch_steps ?r)"
    by (simp add: request_steps_def ex_patch_in_def rt)
  have v: "VerifyNormalizeCompID (rq_var ?r ''xname'') = ''x0c0s0b0n0''" "rq_var ?r ''agent'' = ''mon''"
    by code_simp+
  have b: "\<not> rq_err ?r" "unmarshal_ScnSubscribe (to_lower (rq_body ?r)) = Some ex_patch"
    by (simp_all add: ex_patch_in_def ex_unmarshal)
  have c: "\<not> list_ex (is_crash \<circ> snd) (cn_threads ex_life)" "sv_sub (cn_sv ex_life) = ex_one"
    "length (cn_threads ex_life) = 0"
    by (simp_all add: ex_life_def conc_boot_def)
  have k: "makeSubscriptionKey_V2 ex_patch ''x0c0s0b0n0'' ''mon'' \<noteq> ex_key" by (simp add: ex_post ex_key_def)
  show ?thesis
    using patch_cut_short [OF c(1,2) sub_ok_facts(1) [OF ex_sub_ok(1)] _ r b(1) v(1) _ v(2) b(2) ex_patch_range
        ex_patch_hits k, of "[]" "[]"] ex_sub_ok(1) c(3)
    by (auto simp: sub_ok_def)
qed

end
