(* ===== verification/Backoff.thy ===== *)
theory Backoff
  imports Jobs "HOL-Library.Word"
begin

text \<open>
  The time that sending takes: \<open>pauseIf\<close> of cmd/hmi-nfd/fanout.go between the attempts of
  \<open>sendSCNToSubscriber\<close>. A \<open>time.Duration\<close> is a number of nanoseconds in a signed 64-bit integer,
  so that the product with \<open>time.Second\<close> can wrap around; \<open>time.Sleep\<close> of a negative duration does
  not wait.
\<close>

section \<open>The pause\<close>

definition Second :: int where
  "Second = 1000000000"

definition backoff_duration :: "int \<Rightarrow> int" where
  "backoff_duration backoff = sint (word_of_int backoff * word_of_int Second :: 64 word)"

text \<open>How long \<open>pauseIf\<close> sleeps when \<open>elapsed\<close> nanoseconds have gone by since the start of the attempt.\<close>

definition pauseIf :: "int \<Rightarrow> int \<Rightarrow> int" where
  "pauseIf backoff elapsed = (if elapsed div Second = 0 then max 0 (backoff_duration backoff) else 0)"

text \<open>From the start of the loop to the end of it, when attempt \<open>i\<close> takes \<open>dur i\<close>.\<close>

function sendTime :: "(int \<Rightarrow> attempt) \<Rightarrow> (int \<Rightarrow> int) \<Rightarrow> int \<Rightarrow> int \<Rightarrow> int \<Rightarrow> int" where
  "sendTime out dur backoff retries retry =
     (if retry \<le> retries
      then dur retry +
        (if out retry = Answer 200 \<or> refused (out retry) then 0
         else pauseIf backoff (dur retry) + sendTime out dur backoff retries (retry + 1))
      else 0)"
  by pat_completeness auto

termination
  by (relation "measure (\<lambda>(out, dur, backoff, retries, retry). nat (retries + 1 - retry))") auto

declare sendTime.simps [simp del]

section \<open>How long it is\<close>

text \<open>The largest back-off whose duration is what it says, and one that wraps around.\<close>

lemma backoff_fits:
  assumes "0 \<le> backoff" "backoff \<le> 9223372036"
  shows "backoff_duration backoff = backoff * Second"
proof -
  have "(word_of_int backoff * word_of_int Second :: 64 word) = word_of_int (backoff * Second)"
    by simp
  moreover have "sint (word_of_int (backoff * Second) :: 64 word) = backoff * Second"
    unfolding sint_sbintrunc' by (rule signed_take_bit_int_eq_self) (use assms in \<open>simp_all add: Second_def\<close>)
  ultimately show ?thesis by (simp add: backoff_duration_def)
qed

lemma backoff_wraps: "pauseIf 9223372037 0 = 0"
  by code_simp

lemma pause_at_least:
  assumes "1 \<le> backoff" "backoff \<le> 9223372036" "0 \<le> elapsed"
  shows "Second \<le> elapsed + pauseIf backoff elapsed"
proof (cases "elapsed div Second = 0")
  case True
  have "Second \<le> backoff * Second" using assms(1) by (simp add: Second_def)
  then show ?thesis using True assms by (simp add: pauseIf_def backoff_fits)
next
  case False
  then have "Second \<le> elapsed" using assms(3) by (simp add: Second_def)
  then show ?thesis using False by (simp add: pauseIf_def)
qed

text \<open>One request a second: a job that has made \<open>n\<close> attempts that did not end it has taken \<open>n\<close> seconds.\<close>

lemma sendTime_nonneg: "\<forall>i. 0 \<le> dur i \<Longrightarrow> 0 \<le> sendTime out dur backoff retries retry"
proof (induction "nat (retries + 1 - retry)" arbitrary: retry)
  case 0
  then show ?case by (subst sendTime.simps) simp
next
  case (Suc n)
  have "0 \<le> sendTime out dur backoff retries (retry + 1)" using Suc by simp
  moreover have "0 \<le> dur retry" "0 \<le> pauseIf backoff (dur retry)" using Suc.prems by (simp_all add: pauseIf_def)
  ultimately show ?case by (subst sendTime.simps) simp
qed

lemma send_rate:
  assumes "1 \<le> backoff" "backoff \<le> 9223372036" "\<forall>i. 0 \<le> dur i"
    and "retry + int n \<le> retries + 1" "\<forall>i. retry \<le> i \<longrightarrow> i < retry + int n \<longrightarrow> \<not> final (out i)"
  shows "int n * Second \<le> sendTime out dur backoff retries retry"
  using assms(4,5)
proof (induction n arbitrary: retry)
  case 0
  then show ?case using sendTime_nonneg [OF assms(3)] by simp
next
  case (Suc n)
  have "\<forall>i. retry + 1 \<le> i \<longrightarrow> i < retry + 1 + int n \<longrightarrow> \<not> final (out i)" using Suc.prems(2) by simp
  then have "int n * Second \<le> sendTime out dur backoff retries (retry + 1)" using Suc by simp
  moreover have "Second \<le> dur retry + pauseIf backoff (dur retry)"
    using pause_at_least [OF assms(1,2)] assms(3) by simp
  moreover have "retry \<le> retries" "\<not> final (out retry)" using Suc.prems by simp_all
  then have "sendTime out dur backoff retries retry =
      dur retry + pauseIf backoff (dur retry) + sendTime out dur backoff retries (retry + 1)"
    by (subst sendTime.simps) (simp add: final_def)
  ultimately show ?case by (simp add: algebra_simps)
qed

section \<open>The time limit of an attempt\<close>

text \<open>
  The client that sends the notifications, and the requests to HSM as well, gets its limit in \<open>main\<close>
  from SM_timeout. net/http has no limit for a \<open>Timeout\<close> that is not positive.
\<close>

definition client_timeout :: "int \<Rightarrow> int option" where
  "client_timeout sm_timeout = (let d = backoff_duration sm_timeout in if 0 < d then Some d else None)"

lemma client_timeout_fits:
  "0 < sm_timeout \<Longrightarrow> sm_timeout \<le> 9223372036 \<Longrightarrow> client_timeout sm_timeout = Some (sm_timeout * Second)"
  by (simp add: client_timeout_def backoff_fits Second_def)

text \<open>Zero is no limit, and neither is a number whose duration wraps around.\<close>

lemma client_timeout_none: "client_timeout 0 = None" "client_timeout 9223372037 = None"
  by code_simp+

text \<open>With a limit \<open>d\<close> a job comes to its end: each attempt and the pause after it have their bounds.\<close>

lemma pause_at_most:
  "0 \<le> backoff \<Longrightarrow> backoff \<le> 9223372036 \<Longrightarrow> 0 \<le> pauseIf backoff t \<and> pauseIf backoff t \<le> backoff * Second"
  by (simp add: pauseIf_def backoff_fits Second_def)

lemma send_time_bound:
  assumes "0 \<le> backoff" "backoff \<le> 9223372036" "client_timeout sm_timeout = Some d" "\<forall>i. 0 \<le> dur i \<and> dur i \<le> d"
  shows "sendTime out dur backoff retries retry \<le> int (nat (retries + 1 - retry)) * (d + backoff * Second)"
proof (induction "nat (retries + 1 - retry)" arbitrary: retry)
  case 0
  then show ?case by (subst sendTime.simps) simp
next
  case (Suc n)
  then have n: "n = nat (retries + 1 - (retry + 1))" by simp
  let ?B = "d + backoff * Second"
  have ih: "sendTime out dur backoff retries (retry + 1) \<le> int n * ?B" using Suc.hyps(1) [OF n] n by simp
  have "0 \<le> int n * ?B" using assms by (simp add: Second_def client_timeout_def Let_def split: if_splits)
  moreover have "sendTime out dur backoff retries retry \<le>
      dur retry + pauseIf backoff (dur retry) + max 0 (sendTime out dur backoff retries (retry + 1))"
    using pause_at_most [OF assms(1,2), of "dur retry"] Suc.hyps(2) by (subst sendTime.simps) auto
  moreover have "dur retry + pauseIf backoff (dur retry) \<le> ?B"
    using pause_at_most [OF assms(1,2), of "dur retry"] assms(4) by (intro add_mono) simp_all
  ultimately have "sendTime out dur backoff retries retry \<le> ?B + int n * ?B" using ih by linarith
  then show ?case unfolding Suc.hyps(2) [symmetric] by (simp add: algebra_simps)
qed

end
