(* ===== verification/Profiling.thy ===== *)
theory Profiling
  imports Router
begin

text \<open>
  \<open>RegisterPProfHandlers\<close> of cmd/hmi-nfd/pprof.go and of cmd/hmi-nfd/pprof_stub.go: with the build
  tag pprof, \<open>newRouter\<close> adds routes for the pages of net/http/pprof after its own, without a method
  matcher. What the pages hold is up to that package; here is who answers.
\<close>

section \<open>The routes\<close>

datatype pprof_handler = Index | Cmdline | Profile | Symbol | Trace | Lookup string

definition RegisterPProfHandlers :: "(string \<times> pprof_handler) list" where
  "RegisterPProfHandlers =
     [(''/hmi/v2/debug/pprof/'', Index),
      (''/hmi/v2/debug/pprof/cmdline'', Cmdline),
      (''/hmi/v2/debug/pprof/profile'', Profile),
      (''/hmi/v2/debug/pprof/symbol'', Symbol),
      (''/hmi/v2/debug/pprof/trace'', Trace),
      (''/hmi/v2/debug/pprof/allocs'', Lookup ''allocs''),
      (''/hmi/v2/debug/pprof/block'', Lookup ''block''),
      (''/hmi/v2/debug/pprof/goroutine'', Lookup ''goroutine''),
      (''/hmi/v2/debug/pprof/heap'', Lookup ''heap''),
      (''/hmi/v2/debug/pprof/mutex'', Lookup ''mutex''),
      (''/hmi/v2/debug/pprof/threadcreate'', Lookup ''threadcreate'')]"

definition RegisterPProfHandlers_stub :: "(string \<times> pprof_handler) list" where
  "RegisterPProfHandlers_stub = []"

section \<open>Matching\<close>

datatype pprof_result = Service route_result | Pprof pprof_handler

text \<open>
  A template without variables, with the strict slash: a path that differs from it in the
  slash at the end only is redirected.
\<close>

fun pprof_match :: "string \<Rightarrow> (string \<times> pprof_handler) list \<Rightarrow> pprof_result option" where
  "pprof_match path [] = None"
| "pprof_match path ((tpl, h) # rts) =
     (if unslash path = unslash tpl
      then Some (if ends_slash path = ends_slash tpl then Pprof h
                 else Service (Moved (if ends_slash path then butlast path else path @ ''/'')))
      else pprof_match path rts)"

text \<open>
  The router with routes added. They come last and clear the error of a wrong method, so that they
  are asked exactly when none of the service's routes has answered.
\<close>

definition newRouter_with :: "(string \<times> pprof_handler) list \<Rightarrow> Route list \<Rightarrow> string \<Rightarrow> string \<Rightarrow> pprof_result" where
  "newRouter_with added routes meth path =
     (let own = newRouter routes meth path in
      if own \<in> {NotFound, MethodNotAllowed}
      then (case pprof_match path added of Some r \<Rightarrow> r | None \<Rightarrow> Service own)
      else Service own)"

section \<open>What is added\<close>

text \<open>Without the tag the router is the one of the theory Router.\<close>

lemma stub_router: "newRouter_with RegisterPProfHandlers_stub routes meth path = Service (newRouter routes meth path)"
  by (simp add: newRouter_with_def RegisterPProfHandlers_stub_def Let_def)

lemma pprof_match_paths:
  "pprof_match path added \<noteq> None \<longleftrightarrow> unslash path \<in> unslash ` fst ` set added"
  by (induction path added rule: pprof_match.induct) auto

text \<open>With it, the paths of the service are answered as before.\<close>

lemma pprof_frame:
  assumes "unslash path \<notin> unslash ` fst ` set added"
  shows "newRouter_with added routes meth path = Service (newRouter routes meth path)"
  using pprof_match_paths [of path added] assms by (simp add: newRouter_with_def Let_def)

lemma pprof_prefix:
  "u \<in> unslash ` fst ` set RegisterPProfHandlers \<Longrightarrow> prefix ''/hmi/v2/debug/pprof'' u"
  by (auto simp: RegisterPProfHandlers_def unslash_def ends_slash_def)

lemma service_paths_kept:
  assumes "\<not> prefix ''/hmi/v2/debug/pprof'' path"
  shows "newRouter_with RegisterPProfHandlers routes meth path = Service (newRouter routes meth path)"
proof (rule pprof_frame, rule notI)
  assume "unslash path \<in> unslash ` fst ` set RegisterPProfHandlers"
  then have "prefix ''/hmi/v2/debug/pprof'' (unslash path)" by (rule pprof_prefix)
  moreover have "prefix (unslash path) path" by (simp add: unslash_def prefixeq_butlast)
  ultimately show False using assms prefix_order.trans by blast
qed

text \<open>Its pages answer every method, for a path that the router of the service does not know.\<close>

lemma pprof_pages:
  assumes "(tpl, h) \<in> set RegisterPProfHandlers"
  shows "newRouter_with RegisterPProfHandlers generateRoutes meth tpl = Pprof h"
proof -
  have "\<forall>(tpl, h) \<in> set RegisterPProfHandlers. cleanPath tpl = tpl \<and>
      list_all (\<lambda>rt. path_match tpl rt = None) generateRoutes \<and> pprof_match tpl RegisterPProfHandlers = Some (Pprof h)"
    by code_simp
  then have t: "cleanPath tpl = tpl" "list_all (\<lambda>rt. path_match tpl rt = None) generateRoutes"
    "pprof_match tpl RegisterPProfHandlers = Some (Pprof h)"
    using assms by auto
  have "mux_Match meth tpl rts mis \<in> {NotFound, MethodNotAllowed}"
    if "list_all (\<lambda>rt. path_match tpl rt = None) rts" for rts mis
    using that by (induction rts arbitrary: mis) (auto simp: Let_def)
  then show ?thesis using t by (simp add: newRouter_with_def newRouter_def Let_def)
qed

end
