(* ===== verification/CacheConc.thy ===== *)
theory CacheConc
  imports ScnCache "HOL-Library.Multiset"
begin

text \<open>
  The cache of notifications with the goroutines that share it: any number of requests on /scn, the
  timer, and \<open>handleSCNs\<close>, which takes the batches from the channel \<open>scnQ\<close>. Here the channel has its
  capacity and \<open>jdcMutex\<close> is a lock that a goroutine can be holding while it waits to send.
  The theorems show that this is as good as the theory ScnCache says: the goroutines have the effect of
  the one-step handlers in the order in which they got the lock, and none of them waits for ever
  while \<open>handleSCNs\<close> goes on.
\<close>

section \<open>Steps\<close>

record qstate =
  qs_cache :: cstate
  qs_lock :: bool
  qs_max :: int

definition scnQ_cap :: nat where
  "scnQ_cap = 10000"

text \<open>What is left to do after a send: to clear the cache, or to begin it anew.\<close>

datatype after = Clear | Renew Scn

text \<open>
  Where a goroutine is: before it has looked at its request; waiting for the lock, or holding it, with the notification
  it has to take in (none for the timer); at the send; after it; before the unlock; at its end, with its answer.
\<close>

datatype cpc =
  CStart
| CLock "Scn option"
| CHeld "Scn option"
| CSend after
| CAfter after
| CUnlock "writer option"
| CDone "writer option"

definition stamp :: "string \<Rightarrow> cstate \<Rightarrow> cstate" where
  "stamp now st = st\<lparr>jdCache := (jdCache st)\<lparr>scnTimestamp := now\<rparr>\<rparr>"

definition push :: "cstate \<Rightarrow> cstate" where
  "push st = st\<lparr>scnQ := scnQ st @ [jdCache st]\<rparr>"

fun do_after :: "after \<Rightarrow> cstate \<Rightarrow> cstate" where
  "do_after Clear st = st\<lparr>jdCache := Scn0, jdCount := 0\<rparr>"
| "do_after (Renew jdata) st = st\<lparr>jdCache := jdcDeepCopy jdata (jdCache st), jdCount := 1\<rparr>"

fun time_of :: "cevent \<Rightarrow> string" where
  "time_of (Notify now r) = now"
| "time_of (Timer now) = now"

fun ok_answer :: "cevent \<Rightarrow> writer option" where
  "ok_answer (Notify now r) = Some (writeHeader 200 new_writer)"
| "ok_answer (Timer now) = None"

text \<open>
  The part between the lock and the send or the unlock. The size limit is read there, without a lock of its own.
\<close>

fun while_held :: "cevent \<Rightarrow> Scn option \<Rightarrow> int \<Rightarrow> cstate \<Rightarrow> cpc \<times> cstate" where
  "while_held ev None mx st =
     (if scnComponents (jdCache st) \<noteq> [] then (CSend Clear, stamp (time_of ev) st) else (CUnlock None, st))"
| "while_held ev (Some jdata) mx st =
     (if scnComponents (jdCache st) = [] \<or> jdCount st = 0
      then (CUnlock (Some new_writer), st\<lparr>jdCache := jdcDeepCopy jdata (jdCache st), jdCount := jdCount st + 1\<rparr>)
      else if scnCacheEqual jdata (jdCache st)
      then (let st1 = st\<lparr>jdCache := (jdCache st)\<lparr>scnComponents :=
                                     scnComponents (jdCache st) @ scnComponents jdata\<rparr>,
                         jdCount := jdCount st + 1\<rparr> in
            if mx \<le> jdCount st1 then (CSend Clear, stamp (time_of ev) st1) else (CUnlock (ok_answer ev), st1))
      else if scnComponents (jdCache st) \<noteq> [] then (CSend (Renew jdata), stamp (time_of ev) st)
      else (CUnlock (ok_answer ev), st))"

text \<open>One step of a goroutine; \<open>None\<close> when it has to wait or has come to its end.\<close>

fun scn_step :: "cevent \<Rightarrow> cpc \<Rightarrow> qstate \<Rightarrow> (cpc \<times> qstate) option" where
  "scn_step (Timer now) CStart s = Some (CLock None, s)"
| "scn_step (Notify now r) CStart s = Some
     (if rq_method r \<noteq> ''POST''
      then CDone (Some (sendProblem ''Invalid Request'' ''Only POST operations supported'' ''/scn'' 405
              (setHeader ''Allow'' ''POST'' new_writer)))
      else case unmarshal_Scn (rq_body r) of
        None \<Rightarrow> CDone (Some (sendProblem ''Internal Server Error'' ''Error unmarshalling SCN JSON'' ''/scn'' 500
                 new_writer))
      | Some jdata \<Rightarrow> CLock (Some jdata), s)"
| "scn_step ev (CLock d) s = (if qs_lock s then None else Some (CHeld d, s\<lparr>qs_lock := True\<rparr>))"
| "scn_step ev (CHeld d) s =
     (case while_held ev d (qs_max s) (qs_cache s) of (pc, st) \<Rightarrow> Some (pc, s\<lparr>qs_cache := st\<rparr>))"
| "scn_step ev (CSend a) s =
     (if length (scnQ (qs_cache s)) < scnQ_cap then Some (CAfter a, s\<lparr>qs_cache := push (qs_cache s)\<rparr>) else None)"
| "scn_step ev (CAfter a) s = Some (CUnlock (ok_answer ev), s\<lparr>qs_cache := do_after a (qs_cache s)\<rparr>)"
| "scn_step ev (CUnlock w) s = Some (CDone w, s\<lparr>qs_lock := False\<rparr>)"
| "scn_step ev (CDone w) s = None"

fun is_over :: "cpc \<Rightarrow> bool" where
  "is_over (CDone w) = True"
| "is_over _ = False"

text \<open>
  The goroutines and the batches that \<open>handleSCNs\<close> has taken. There is one timer, which begins a round after the
  one before.
\<close>

record csys =
  cs_sh :: qstate
  cs_procs :: "(cevent \<times> cpc) list"
  cs_taken :: "Scn list"

definition cs_start :: "int \<Rightarrow> csys" where
  "cs_start mx = \<lparr>cs_sh = \<lparr>qs_cache = cache_init, qs_lock = False, qs_max = mx\<rparr>, cs_procs = [], cs_taken = []\<rparr>"

definition take_batch :: "csys \<Rightarrow> csys" where
  "take_batch c =
     (case scnQ (qs_cache (cs_sh c)) of
        [] \<Rightarrow> c
      | b # bs \<Rightarrow> c\<lparr>cs_sh := (cs_sh c)\<lparr>qs_cache := (qs_cache (cs_sh c))\<lparr>scnQ := bs\<rparr>\<rparr>, cs_taken := cs_taken c @ [b]\<rparr>)"

inductive cs_go :: "csys \<Rightarrow> csys \<Rightarrow> bool" where
  go: "cs_go c (c\<lparr>cs_sh := s, cs_procs := (cs_procs c)[i := (ev, pc')]\<rparr>)"
    if "i < length (cs_procs c)" "cs_procs c ! i = (ev, pc)" "scn_step ev pc (cs_sh c) = Some (pc', s)"

inductive cs_step :: "csys \<Rightarrow> csys \<Rightarrow> bool" where
  request: "cs_step c (c\<lparr>cs_procs := cs_procs c @ [(Notify now r, CStart)]\<rparr>)"
| tick: "cs_step c (c\<lparr>cs_procs := cs_procs c @ [(Timer now, CStart)]\<rparr>)"
    if "\<forall>(ev, pc) \<in> set (cs_procs c). \<forall>t. ev = Timer t \<longrightarrow> is_over pc"
| go_on: "cs_step c c'" if "cs_go c c'"
| batch: "cs_step c (take_batch c)"
| patch: "cs_step c (c\<lparr>cs_sh := (cs_sh c)\<lparr>qs_max := mx\<rparr>\<rparr>)"

inductive_cases cs_goE: "cs_go c c'"

section \<open>The serial order\<close>

text \<open>The handlers as single steps, each with the limit that it read.\<close>

definition serial :: "(int \<times> cevent) list \<Rightarrow> cstate" where
  "serial order = fold (\<lambda>(mx, ev). cstep mx ev) order cache_init"

lemma serial_Nil [simp]: "serial [] = cache_init"
  by (simp add: serial_def)

lemma serial_snoc [simp]: "serial (order @ [(mx, ev)]) = cstep mx ev (serial order)"
  by (simp add: serial_def)

text \<open>The cache with all batches, those that have been taken first.\<close>

definition shown :: "csys \<Rightarrow> cstate" where
  "shown c = (qs_cache (cs_sh c))\<lparr>scnQ := cs_taken c @ scnQ (qs_cache (cs_sh c))\<rparr>"

definition before :: "Scn list \<Rightarrow> cstate \<Rightarrow> cstate" where
  "before ts st = st\<lparr>scnQ := ts @ scnQ st\<rparr>"

lemma shown_before: "shown c = before (cs_taken c) (qs_cache (cs_sh c))"
  by (simp add: shown_def before_def)

fun inside :: "cpc \<Rightarrow> bool" where
  "inside (CHeld d) = True"
| "inside (CSend a) = True"
| "inside (CAfter a) = True"
| "inside (CUnlock w) = True"
| "inside _ = False"

fun entered :: "cpc \<Rightarrow> bool" where
  "entered CStart = False"
| "entered (CLock d) = False"
| "entered (CHeld d) = False"
| "entered _ = True"

text \<open>What a goroutine that holds the lock is still going to do to the cache.\<close>

fun pending :: "cpc \<Rightarrow> cstate \<Rightarrow> cstate" where
  "pending (CSend a) st = do_after a (push st)"
| "pending (CAfter a) st = do_after a st"
| "pending _ st = st"

fun answer_ok :: "cevent \<Rightarrow> writer option \<Rightarrow> bool" where
  "answer_ok (Notify now r) w = (\<exists>mx st. w = Some (fst (scnHandler now mx r st)))"
| "answer_ok (Timer now) w = (w = None)"

fun pc_fits :: "cevent \<Rightarrow> cpc \<Rightarrow> bool" where
  "pc_fits ev CStart = True"
| "pc_fits (Timer now) (CLock d) = (d = None)"
| "pc_fits (Timer now) (CHeld d) = (d = None)"
| "pc_fits (Notify now r) (CLock d) = (rq_method r = ''POST'' \<and> d \<noteq> None \<and> d = unmarshal_Scn (rq_body r))"
| "pc_fits (Notify now r) (CHeld d) = (rq_method r = ''POST'' \<and> d \<noteq> None \<and> d = unmarshal_Scn (rq_body r))"
| "pc_fits ev (CUnlock w) = answer_ok ev w"
| "pc_fits ev (CDone w) = answer_ok ev w"
| "pc_fits ev _ = answer_ok ev (ok_answer ev)"

lemma ok_answer_ok: "rq_method r = ''POST'' \<Longrightarrow> unmarshal_Scn (rq_body r) \<noteq> None \<Longrightarrow> answer_ok (Notify now r) (ok_answer (Notify now r))"
  unfolding answer_ok.simps
  by (rule exI [of _ 0], rule exI [of _ "\<lparr>jdCache = Scn0\<lparr>scnComponents := [[]]\<rparr>, jdCount = 1, scnQ = []\<rparr>"])
     (auto simp: scnHandler_def Let_def)

lemma new_answer_ok: "rq_method r = ''POST'' \<Longrightarrow> unmarshal_Scn (rq_body r) \<noteq> None \<Longrightarrow> answer_ok (Notify now r) (Some new_writer)"
  unfolding answer_ok.simps
  by (rule exI [of _ 0], rule exI [of _ cache_init]) (auto simp: scnHandler_def Let_def cache_init_def Scn0_def)

lemma before_simps [simp]:
  "jdCache (before ts st) = jdCache st" "jdCount (before ts st) = jdCount st" "scnQ (before ts st) = ts @ scnQ st"
  by (simp_all add: before_def)

lemma cstate_eqI: "jdCache a = jdCache b \<Longrightarrow> jdCount a = jdCount b \<Longrightarrow> scnQ a = scnQ b \<Longrightarrow> a = (b :: cstate)"
  by simp

lemma pending_fields [simp]:
  "jdCache (push st) = jdCache st" "jdCount (push st) = jdCount st" "scnQ (push st) = scnQ st @ [jdCache st]"
  "jdCache (stamp now st) = (jdCache st)\<lparr>scnTimestamp := now\<rparr>" "jdCount (stamp now st) = jdCount st" "scnQ (stamp now st) = scnQ st"
  by (simp_all add: push_def stamp_def)

text \<open>What is done while the lock is held and what is still pending make the step of the handler.\<close>

lemma held_cache:
  assumes "while_held ev (Some jdata) mx st = (pc, st')"
  shows "pending pc (before ts st') = cache_scn (time_of ev) mx jdata (before ts st) \<and>
    (pc = CUnlock (Some new_writer) \<or> pc = CUnlock (ok_answer ev) \<or> (\<exists>a. pc = CSend a))"
proof (cases "scnComponents (jdCache st) = [] \<or> jdCount st = 0")
  case True
  then show ?thesis using assms by (auto simp: cache_scn_def intro!: cstate_eqI)
next
  case new: False
  show ?thesis
  proof (cases "scnCacheEqual jdata (jdCache st)")
    case True
    show ?thesis
    proof (cases "mx \<le> jdCount st + 1")
      case False
      then show ?thesis using assms new True by (auto simp: cache_scn_def Let_def intro!: cstate_eqI)
    next
      case full: True
      have pc: "pc = CSend Clear" "st' = stamp (time_of ev) (st\<lparr>jdCache := (jdCache st)\<lparr>scnComponents :=
          scnComponents (jdCache st) @ scnComponents jdata\<rparr>, jdCount := jdCount st + 1\<rparr>)"
        using assms new True full by (simp_all add: Let_def)
      show ?thesis
        unfolding pc using new True full by (auto simp: cache_scn_def send_cache_def Let_def intro!: cstate_eqI)
    qed
  next
    case False
    have pc: "pc = CSend (Renew jdata)" "st' = stamp (time_of ev) st" using assms new False by simp_all
    show ?thesis
      unfolding pc using new False by (auto simp: cache_scn_def send_cache_def Let_def intro!: cstate_eqI)
  qed
qed

lemma held_serial:
  assumes "while_held ev d mx st = (pc, st')" "pc_fits ev (CHeld d)"
  shows "pending pc (before ts st') = cstep mx ev (before ts st) \<and> inside pc \<and> entered pc \<and> pc_fits ev pc"
proof (cases ev)
  case (Timer now)
  then show ?thesis
    using assms by (auto simp: checkSCNCache_def send_cache_def Let_def intro!: cstate_eqI split: if_splits)
next
  case (Notify now r)
  then obtain jdata where d: "d = Some jdata" "unmarshal_Scn (rq_body r) = Some jdata" "rq_method r = ''POST''"
    using assms(2) by auto
  have step: "cstep mx ev (before ts st) = cache_scn now mx jdata (before ts st)"
    using d Notify by (simp add: scnHandler_def Let_def)
  have ok: "answer_ok ev (ok_answer ev)" "answer_ok ev (Some new_writer)"
    using ok_answer_ok [of r now] new_answer_ok [of r now] d Notify by simp_all
  show ?thesis
    unfolding step using held_cache [OF assms(1) [unfolded d(1)], of ts] ok
    by (auto simp: Notify simp del: answer_ok.simps ok_answer.simps)
qed

section \<open>The invariant\<close>

definition entered_events :: "(cevent \<times> cpc) list \<Rightarrow> cevent multiset" where
  "entered_events ps = image_mset fst (filter_mset (\<lambda>p. entered (snd p)) (mset ps))"

lemma entered_update:
  assumes "i < length ps" "ps ! i = (ev, pc)" "entered pc \<longrightarrow> entered pc'"
  shows "entered_events (ps[i := (ev, pc')]) =
    (if entered pc' \<and> \<not> entered pc then add_mset ev (entered_events ps) else entered_events ps)"
proof -
  obtain M where "mset ps = add_mset (ev, pc) M" "mset (ps[i := (ev, pc')]) = add_mset (ev, pc') M"
    using assms(1,2) by (metis add_mset_remove_trivial insert_DiffM mset_update nth_mem_mset)
  then show ?thesis using assms(3) by (simp add: entered_events_def)
qed

definition held_by :: "nat option \<Rightarrow> csys \<Rightarrow> bool" where
  "held_by h c \<longleftrightarrow> qs_lock (cs_sh c) = (h \<noteq> None) \<and>
     (\<forall>i < length (cs_procs c). inside (snd (cs_procs c ! i)) \<longleftrightarrow> h = Some i) \<and>
     (\<forall>i. h = Some i \<longrightarrow> i < length (cs_procs c))"

definition holder :: "nat option \<Rightarrow> csys \<Rightarrow> cpc" where
  "holder h c = (case h of None \<Rightarrow> CStart | Some i \<Rightarrow> snd (cs_procs c ! i))"

definition cs_inv :: "(int \<times> cevent) list \<Rightarrow> nat option \<Rightarrow> csys \<Rightarrow> bool" where
  "cs_inv order h c \<longleftrightarrow> held_by h c \<and> (\<forall>(ev, pc) \<in> set (cs_procs c). pc_fits ev pc) \<and>
     mset (map snd order) = entered_events (cs_procs c) \<and> pending (holder h c) (shown c) = serial order"

lemma cs_inv_start: "cs_inv [] None (cs_start mx)"
  by (simp add: cs_inv_def held_by_def cs_start_def entered_events_def holder_def shown_def cache_init_def)

lemma cs_inv_spawn:
  "cs_inv order h c \<Longrightarrow> cs_inv order h (c\<lparr>cs_procs := cs_procs c @ [(ev, CStart)]\<rparr>)"
  by (auto simp: cs_inv_def held_by_def holder_def shown_def entered_events_def nth_append split: option.splits)

lemma shown_take [simp]: "shown (take_batch c) = shown c" "cs_procs (take_batch c) = cs_procs c"
  "qs_lock (cs_sh (take_batch c)) = qs_lock (cs_sh c)"
  by (auto simp: take_batch_def shown_def split: list.split)

lemma cs_inv_take: "cs_inv order h c \<Longrightarrow> cs_inv order h (take_batch c)"
  by (simp add: cs_inv_def held_by_def holder_def split: option.splits)

lemma cs_inv_patch: "cs_inv order h c \<Longrightarrow> cs_inv order h (c\<lparr>cs_sh := (cs_sh c)\<lparr>qs_max := mx\<rparr>\<rparr>)"
  by (simp add: cs_inv_def held_by_def holder_def shown_def split: option.splits)

text \<open>A step of a goroutine.\<close>

lemma fits_update:
  "\<forall>(ev, pc) \<in> set ps. pc_fits ev pc \<Longrightarrow> pc_fits ev pc' \<Longrightarrow> \<forall>(ev, pc) \<in> set (ps[i := (ev, pc')]). pc_fits ev pc"
  by (auto dest!: set_update_subset_insert [THEN subsetD])

lemma error_serial:
  assumes "scn_step ev CStart s = Some (CDone w, s')"
  shows "s' = s \<and> cstep mx ev st = st \<and> answer_ok ev w"
  using assms
  by (cases ev) (auto simp: scnHandler_def Let_def split: if_splits option.splits)

definition moved :: "nat \<Rightarrow> cevent \<Rightarrow> cpc \<Rightarrow> qstate \<Rightarrow> csys \<Rightarrow> csys" where
  "moved i ev pc s c = c\<lparr>cs_sh := s, cs_procs := (cs_procs c)[i := (ev, pc)]\<rparr>"

definition held_next :: "nat \<Rightarrow> cpc \<Rightarrow> nat option \<Rightarrow> nat option" where
  "held_next i pc h = (if inside pc then Some i else if h = Some i then None else h)"

lemma held_update:
  assumes "held_by h c" "i < length (cs_procs c)" "inside pc \<longrightarrow> h \<in> {None, Some i}"
    and "qs_lock s = (held_next i pc h \<noteq> None)"
  shows "held_by (held_next i pc h) (moved i ev pc s c)"
  using assms by (auto simp: held_by_def held_next_def moved_def nth_list_update)

lemma holder_other:
  "held_by h c \<Longrightarrow> h \<noteq> Some i \<Longrightarrow> holder h (moved i ev pc s c) = holder h c"
  by (cases h) (auto simp: holder_def moved_def nth_list_update)

lemma holder_here: "i < length (cs_procs c) \<Longrightarrow> holder (Some i) (moved i ev pc s c) = pc"
  by (simp add: holder_def moved_def)

lemma shown_moved: "shown (moved i ev pc s c) = before (cs_taken c) (qs_cache s)"
  by (simp add: shown_def before_def moved_def)

lemma pending_send: "pending (CAfter a) (before ts (push st)) = pending (CSend a) (before ts st)"
  by (cases a) (auto intro!: cstate_eqI)

lemma pending_after: "before ts (do_after a st) = do_after a (before ts st)"
  by (cases a) (auto intro!: cstate_eqI)

lemma cs_inv_go:
  assumes "cs_inv order h c" "i < length (cs_procs c)" "cs_procs c ! i = (ev, pc)"
    and "scn_step ev pc (cs_sh c) = Some (pc', s)"
  shows "\<exists>order' h'. cs_inv order' h' (moved i ev pc' s c)"
proof -
  have held: "held_by h c" and fits: "\<forall>(ev, pc) \<in> set (cs_procs c). pc_fits ev pc"
    and ent: "mset (map snd order) = entered_events (cs_procs c)" and ser: "pending (holder h c) (shown c) = serial order"
    using assms(1) by (auto simp: cs_inv_def)
  have fit: "pc_fits ev pc" using fits nth_mem [OF assms(2)] assms(3) by auto
  have at: "inside pc \<longleftrightarrow> h = Some i" "qs_lock (cs_sh c) = (h \<noteq> None)" using held assms(2,3) by (auto simp: held_by_def)
  have here: "h = Some i \<Longrightarrow> pending pc (before (cs_taken c) (qs_cache (cs_sh c))) = serial order"
    using ser assms(3) by (simp add: holder_def shown_before)
  have free: "h = None \<Longrightarrow> shown c = serial order" using ser by (simp add: holder_def)
  let ?c = "moved i ev pc' s c" and ?h = "held_next i pc' h"
  \<comment> \<open>what is left to show when the serial order is known\<close>
  have goal: "cs_inv order' ?h ?c"
    if "pc_fits ev pc'" "inside pc' \<longrightarrow> h \<in> {None, Some i}" "qs_lock s = (?h \<noteq> None)"
      "entered pc \<longrightarrow> entered pc'"
      "mset (map snd order') = (if entered pc' \<and> \<not> entered pc then add_mset ev (mset (map snd order)) else mset (map snd order))"
      "pending (holder ?h ?c) (before (cs_taken c) (qs_cache s)) = serial order'" for order'
    using that held_update [OF held assms(2) that(2,3)] fits_update [OF fits that(1)]
      entered_update [OF assms(2,3) that(4)] ent
    unfolding cs_inv_def shown_moved by (simp add: moved_def)
  show ?thesis
  proof (cases pc)
    case CStart
    then have out: "h \<noteq> Some i" "\<not> inside pc" using at by auto
    have s: "s = cs_sh c" using assms(4) CStart by (cases ev) auto
    have h: "?h = h" if "\<not> inside pc'" using that out by (simp add: held_next_def)
    have same: "pending (holder h ?c) (before (cs_taken c) (qs_cache s)) = serial order"
      using ser by (simp add: holder_other [OF held out(1)] s shown_before)
    show ?thesis
    proof (cases "\<exists>w. pc' = CDone w")
      case True
      then obtain w where w: "pc' = CDone w" by blast
      note e = error_serial [OF assms(4) [unfolded CStart w]]
      have "cs_inv (order @ [(0, ev)]) ?h ?c"
        using e h same CStart at(2) s by (intro goal) (auto simp: w)
      then show ?thesis by blast
    next
      case False
      then have "(\<exists>d. pc' = CLock d) \<and> pc_fits ev pc'"
        using assms(4) CStart by (cases ev) (auto split: if_splits option.splits)
      then have "cs_inv order ?h ?c" using h same CStart at(2) s by (intro goal) auto
      then show ?thesis by blast
    qed
  next
    case (CLock d)
    then have step: "pc' = CHeld d" "s = (cs_sh c)\<lparr>qs_lock := True\<rparr>" "h = None"
      using assms(4) at by (auto split: if_splits)
    have "pc_fits ev pc'" using fit CLock step(1) by (cases ev) auto
    moreover have "?h = Some i" using step by (simp add: held_next_def)
    ultimately have "cs_inv order ?h ?c"
      using free step CLock holder_here [OF assms(2)] by (intro goal) (auto simp: shown_before)
    then show ?thesis by blast
  next
    case (CHeld d)
    then have h: "h = Some i" using at by simp
    obtain st where w: "while_held ev d (qs_max (cs_sh c)) (qs_cache (cs_sh c)) = (pc', st)" "s = (cs_sh c)\<lparr>qs_cache := st\<rparr>"
      using assms(4) CHeld by (auto split: prod.splits)
    note r = held_serial [OF w(1) fit [unfolded CHeld], of "cs_taken c"]
    have "?h = Some i" using r by (simp add: held_next_def)
    then have "cs_inv (order @ [(qs_max (cs_sh c), ev)]) ?h ?c"
      using here [OF h] CHeld h r w(2) holder_here [OF assms(2)] at(2) by (intro goal) auto
    then show ?thesis by blast
  next
    case (CSend a)
    then have h: "h = Some i" "pc' = CAfter a" "s = (cs_sh c)\<lparr>qs_cache := push (qs_cache (cs_sh c))\<rparr>"
      using at assms(4) by (auto split: if_splits)
    then have "?h = Some i" by (simp add: held_next_def)
    then have "cs_inv order ?h ?c"
      using here [OF h(1)] CSend h fit holder_here [OF assms(2)] at(2) pending_send by (intro goal) auto
    then show ?thesis by blast
  next
    case (CAfter a)
    then have h: "h = Some i" "pc' = CUnlock (ok_answer ev)" "s = (cs_sh c)\<lparr>qs_cache := do_after a (qs_cache (cs_sh c))\<rparr>"
      using at assms(4) by auto
    then have "?h = Some i" by (simp add: held_next_def)
    then have "cs_inv order ?h ?c"
      using here [OF h(1)] CAfter h fit holder_here [OF assms(2)] at(2) by (intro goal) (auto simp: pending_after)
    then show ?thesis by blast
  next
    case (CUnlock w)
    then have h: "h = Some i" "pc' = CDone w" "s = (cs_sh c)\<lparr>qs_lock := False\<rparr>" using at assms(4) by auto
    then have "?h = None" by (simp add: held_next_def)
    then have "cs_inv order ?h ?c"
      using here [OF h(1)] CUnlock h fit by (intro goal) (auto simp: holder_def)
    then show ?thesis by blast
  next
    case (CDone w)
    then show ?thesis using assms(4) by simp
  qed
qed

lemma cs_inv_step: "cs_step c c' \<Longrightarrow> cs_inv order h c \<Longrightarrow> \<exists>order' h'. cs_inv order' h' c'"
proof (induction rule: cs_step.induct)
  case (go_on c c')
  then obtain i ev pc pc' s where "i < length (cs_procs c)" "cs_procs c ! i = (ev, pc)"
    "scn_step ev pc (cs_sh c) = Some (pc', s)" "c' = moved i ev pc' s c"
    by (auto simp: moved_def elim: cs_goE)
  then show ?case using cs_inv_go go_on.prems by metis
qed (blast intro: cs_inv_spawn cs_inv_take cs_inv_patch)+

lemma cs_inv_reach: "cs_step\<^sup>*\<^sup>* (cs_start mx) c \<Longrightarrow> \<exists>order h. cs_inv order h c"
  by (induction rule: rtranclp_induct) (use cs_inv_start cs_inv_step in blast)+

text \<open>The batches of a serial order, when none of the limits that were read is above \<open>M\<close>.\<close>

lemma serial_batches:
  "\<forall>(mx, ev) \<in> set order. mx \<le> M \<Longrightarrow> cache_inv M (serial order) (concat (map (taken \<circ> snd) order))"
proof (induction order rule: rev_induct)
  case (snoc x order)
  obtain mx ev where x: "x = (mx, ev)" by force
  have "cache_inv M (serial order) (concat (map (taken \<circ> snd) order))"
    by (rule snoc.IH) (use snoc.prems in simp)
  moreover have "mx \<le> M" using snoc.prems x by simp
  ultimately show ?case unfolding x map_append concat_append serial_snoc by (simp add: cache_inv_step)
qed (simp add: cache_inv_init)

lemma limits_bounded: "\<exists>M :: int. \<forall>(mx, ev) \<in> set order. mx \<le> M"
proof -
  have "mx \<le> Max (insert 0 (fst ` set order))" if "(mx, ev) \<in> set order" for mx ev
    by (rule Max_ge) (use that in \<open>auto intro: rev_image_eqI\<close>)
  then show ?thesis by blast
qed

lemma serial_conserves:
  "concat (map scnComponents (scnQ (serial order))) @ scnComponents (jdCache (serial order)) =
     concat (map scnComponents (concat (map (taken \<circ> snd) order)))"
  using limits_bounded [of order] serial_batches cache_inv_conserves by metis

section \<open>Nobody waits for ever\<close>

lemma scn_step_None:
  "scn_step ev pc s = None \<longleftrightarrow> is_over pc \<or> (\<exists>d. pc = CLock d) \<and> qs_lock s \<or>
     (\<exists>a. pc = CSend a) \<and> scnQ_cap \<le> length (scnQ (qs_cache s))"
  by (cases pc; cases ev) (auto split: prod.split)

lemma go_step: "i < length (cs_procs c) \<Longrightarrow> scn_step (fst (cs_procs c ! i)) (snd (cs_procs c ! i)) (cs_sh c) \<noteq> None \<Longrightarrow> \<exists>c'. cs_go c c'"
  using cs_go.go [of i c "fst (cs_procs c ! i)" "snd (cs_procs c ! i)"] by fastforce

text \<open>When nobody can step, all have come to their end or the channel is full.\<close>

lemma stuck_full:
  assumes "held_by h c" "\<nexists>c'. cs_go c c'" "\<exists>(ev, pc) \<in> set (cs_procs c). \<not> is_over pc"
  shows "scnQ_cap \<le> length (scnQ (qs_cache (cs_sh c)))"
proof -
  have none: "scn_step (fst (cs_procs c ! i)) (snd (cs_procs c ! i)) (cs_sh c) = None" if "i < length (cs_procs c)" for i
    using go_step [OF that] assms(2) by blast
  show ?thesis
  proof (cases h)
    case None
    obtain i where i: "i < length (cs_procs c)" "\<not> is_over (snd (cs_procs c ! i))"
      using assms(3) by (auto simp: in_set_conv_nth)
    moreover have "\<not> qs_lock (cs_sh c)" "\<not> inside (snd (cs_procs c ! i))"
      using assms(1) None i by (auto simp: held_by_def)
    ultimately show ?thesis using none [OF i(1)] by (auto simp: scn_step_None)
  next
    case (Some i)
    then have i: "i < length (cs_procs c)" "inside (snd (cs_procs c ! i))" using assms(1) by (auto simp: held_by_def)
    then show ?thesis using none [OF i(1)] by (auto simp: scn_step_None elim: is_over.elims)
  qed
qed

fun rank :: "cpc \<Rightarrow> nat" where
  "rank CStart = 6"
| "rank (CLock d) = 5"
| "rank (CHeld d) = 4"
| "rank (CSend a) = 3"
| "rank (CAfter a) = 2"
| "rank (CUnlock w) = 1"
| "rank (CDone w) = 0"

definition work :: "csys \<Rightarrow> nat" where
  "work c = 2 * (\<Sum>p \<leftarrow> cs_procs c. rank (snd p)) + length (scnQ (qs_cache (cs_sh c)))"

lemma while_held_rank: "while_held ev d mx st = (pc, st') \<Longrightarrow> rank pc \<le> 3 \<and> length (scnQ st') = length (scnQ st)"
  by (cases d) (auto simp: Let_def split: if_splits)

lemma step_rank:
  assumes "scn_step ev pc s = Some (pc', s')"
  shows "2 * rank pc' + length (scnQ (qs_cache s')) < 2 * rank pc + length (scnQ (qs_cache s))"
proof (cases pc)
  case CStart
  then show ?thesis using assms by (cases ev) (auto split: if_splits option.splits)
next
  case (CHeld d)
  then show ?thesis using assms while_held_rank by (fastforce split: prod.splits)
next
  case (CAfter a)
  then show ?thesis using assms by (cases a) auto
qed (use assms in \<open>auto split: if_splits\<close>)

lemma sum_update: "i < length xs \<Longrightarrow> sum_list (map f (xs[i := y])) + f (xs ! i) = sum_list (map f xs) + (f y :: nat)"
  by (induction xs arbitrary: i) (auto split: nat.splits simp: nth_Cons')

lemma go_work: "cs_go c c' \<Longrightarrow> work c' < work c"
proof (erule cs_goE)
  fix i ev pc s pc'
  assume a: "c' = c\<lparr>cs_sh := s, cs_procs := (cs_procs c)[i := (ev, pc')]\<rparr>" "i < length (cs_procs c)"
    "cs_procs c ! i = (ev, pc)" "scn_step ev pc (cs_sh c) = Some (pc', s)"
  show ?thesis
    using step_rank [OF a(4)] sum_update [OF a(2), of "\<lambda>p. rank (snd p)" "(ev, pc')"] a(1,3) by (simp add: work_def)
qed

text \<open>The goroutines and \<open>handleSCNs\<close> without new arrivals.\<close>

definition drains :: "csys \<Rightarrow> csys \<Rightarrow> bool" where
  "drains c c' \<longleftrightarrow> cs_go c c' \<or> scnQ (qs_cache (cs_sh c)) \<noteq> [] \<and> c' = take_batch c"

lemma drains_work: "drains c c' \<Longrightarrow> work c' < work c"
  using go_work by (auto simp: drains_def work_def take_batch_def split: list.split)

section \<open>Properties\<close>

text \<open>
  C10: Any number of requests on /scn, the timer and the thread that takes the batches,
  interleaved step by step with the mutex, the bounded channel and changes of the size limit,
  act as the one-step handlers in some order, one for each goroutine that has got past its
  critical section: each answer that was given is one of the handler, and whenever the mutex is
  free the batches taken, the channel and the cache are those of that serial run, so that no
  component is lost, duplicated or reordered.
\<close>

theorem scn_serial:
  assumes "cs_step\<^sup>*\<^sup>* (cs_start mx) c"
  shows "\<exists>order. mset (map snd order) = entered_events (cs_procs c) \<and>
    (\<forall>(ev, pc) \<in> set (cs_procs c). \<forall>w. pc = CDone w \<longrightarrow> answer_ok ev w) \<and>
    (\<not> qs_lock (cs_sh c) \<longrightarrow> shown c = serial order \<and>
       concat (map scnComponents (scnQ (shown c))) @ scnComponents (jdCache (shown c)) =
         concat (map scnComponents (concat (map (taken \<circ> snd) order))))"
proof -
  obtain order h where inv: "cs_inv order h c" using cs_inv_reach [OF assms] by blast
  then have "\<forall>(ev, pc) \<in> set (cs_procs c). \<forall>w. pc = CDone w \<longrightarrow> answer_ok ev w"
    by (fastforce simp: cs_inv_def simp del: answer_ok.simps)
  moreover have "shown c = serial order" if "\<not> qs_lock (cs_sh c)"
    using inv that by (auto simp: cs_inv_def held_by_def holder_def)
  ultimately show ?thesis using inv serial_conserves [of order] by (auto simp: cs_inv_def simp del: answer_ok.simps)
qed

text \<open>
  C11: The mutex of the cache is held while a goroutine waits for room in the channel, but
  nobody waits for ever: without new arrivals every schedule of the goroutines and of the thread
  that takes batches is finite, a goroutine that is not at its end can step or the channel is
  full, and when nothing can step all goroutines are at their end and the channel is empty.
\<close>

theorem scn_never_stuck:
  assumes "cs_step\<^sup>*\<^sup>* (cs_start mx) c"
  shows "(\<nexists>f. f 0 = c \<and> (\<forall>n. drains (f n) (f (Suc n)))) \<and>
    ((\<nexists>c'. cs_go c c') \<longrightarrow> (\<forall>(ev, pc) \<in> set (cs_procs c). is_over pc) \<or> scnQ_cap \<le> length (scnQ (qs_cache (cs_sh c)))) \<and>
    ((\<nexists>c'. drains c c') \<longrightarrow> (\<forall>(ev, pc) \<in> set (cs_procs c). is_over pc) \<and> scnQ (qs_cache (cs_sh c)) = [])"
proof -
  obtain order h where "cs_inv order h c" using cs_inv_reach [OF assms] by blast
  then have held: "held_by h c" by (simp add: cs_inv_def)
  have fin: False if "\<forall>n. drains (f n) (f (Suc n))" for f
  proof -
    have "(f (Suc n), f n) \<in> measure work" for n using that drains_work by auto
    then show False using wf_iff_no_infinite_down_chain [of "measure work"] by blast
  qed
  have stuck: "(\<forall>(ev, pc) \<in> set (cs_procs c). is_over pc) \<or> scnQ_cap \<le> length (scnQ (qs_cache (cs_sh c)))"
    if "\<nexists>c'. cs_go c c'" using stuck_full [OF held that] by blast
  show ?thesis
  proof (intro conjI impI)
    assume no: "\<nexists>c'. drains c c'"
    then show q: "scnQ (qs_cache (cs_sh c)) = []" by (auto simp: drains_def)
    show "\<forall>(ev, pc) \<in> set (cs_procs c). is_over pc"
      using stuck no q by (auto simp: drains_def scnQ_cap_def)
  qed (use fin stuck in blast)+
qed

section \<open>An instance\<close>

text \<open>The step of a goroutine, when it can take one.\<close>

definition cs_move :: "nat \<Rightarrow> csys \<Rightarrow> csys" where
  "cs_move i c =
     (if i < length (cs_procs c)
      then (case scn_step (fst (cs_procs c ! i)) (snd (cs_procs c ! i)) (cs_sh c) of
              None \<Rightarrow> c
            | Some (pc, s) \<Rightarrow> c\<lparr>cs_sh := s, cs_procs := (cs_procs c)[i := (fst (cs_procs c ! i), pc)]\<rparr>)
      else c)"

lemma cs_move_step: "cs_step\<^sup>*\<^sup>* c (cs_move i c)"
proof (cases "i < length (cs_procs c) \<and> scn_step (fst (cs_procs c ! i)) (snd (cs_procs c ! i)) (cs_sh c) \<noteq> None")
  case True
  then obtain pc s where "scn_step (fst (cs_procs c ! i)) (snd (cs_procs c ! i)) (cs_sh c) = Some (pc, s)" by auto
  then have "cs_go c (cs_move i c)"
    using True cs_go.go [of i c "fst (cs_procs c ! i)" "snd (cs_procs c ! i)" pc s] by (simp add: cs_move_def)
  then show ?thesis by (blast intro: cs_step.go_on)
qed (auto simp: cs_move_def split: option.split)

lemma cs_moves_step: "cs_step\<^sup>*\<^sup>* c (fold cs_move ms c)"
  by (induction ms arbitrary: c) (auto intro: rtranclp_trans [OF cs_move_step])

text \<open>Two notifications and the timer. The second request and the timer wait while the first one holds the lock.\<close>

definition ex_scn_request :: "string \<Rightarrow> request" where
  "ex_scn_request xn = \<lparr>rq_method = ''POST'', rq_path = ''/hmi/v2/scn'', rq_vars = [],
     rq_body = ''{\"Components\":[\"'' @ xn @ ''\"],\"State\":\"On\"}'', rq_err = False\<rparr>"

definition ex_arrived :: csys where
  "ex_arrived = (cs_start 2)\<lparr>cs_procs := [(Notify ''t1'' (ex_scn_request ''x1''), CStart),
     (Notify ''t2'' (ex_scn_request ''x2''), CStart), (Timer ''t3'', CStart)]\<rparr>"

lemma ex_arrived_reach: "cs_step\<^sup>*\<^sup>* (cs_start 2) ex_arrived"
proof -
  let ?a = "\<lambda>ps. (cs_start 2)\<lparr>cs_procs := ps\<rparr>"
  let ?q1 = "(Notify ''t1'' (ex_scn_request ''x1''), CStart)" and ?q2 = "(Notify ''t2'' (ex_scn_request ''x2''), CStart)"
  have "cs_step (cs_start 2) (?a [?q1])" "cs_step (?a [?q1]) (?a [?q1, ?q2])"
    using cs_step.request [of "cs_start 2"] cs_step.request [of "?a [?q1]"] by (simp_all add: cs_start_def)
  moreover have "cs_step (?a [?q1, ?q2]) ex_arrived"
    using cs_step.tick [of "?a [?q1, ?q2]" "''t3''"] by (simp add: cs_start_def ex_arrived_def)
  ultimately show ?thesis by (blast intro: rtranclp.rtrancl_into_rtrancl)
qed

definition ex_sched :: "nat list" where
  "ex_sched = [0, 1, 2, 0, 1, 2, 0, 1, 0, 1, 1, 1, 2, 1, 1, 2, 2, 2]"

lemma ex_ran: "cs_step\<^sup>*\<^sup>* (cs_start 2) (fold cs_move ex_sched ex_arrived)"
  using rtranclp_trans [OF ex_arrived_reach cs_moves_step] .

lemma entered_over: "list_all (is_over \<circ> snd) ps \<Longrightarrow> entered_events ps = mset (map fst ps)"
proof (induction ps)
  case (Cons p ps)
  then have "entered (snd p)" by (cases "snd p") auto
  then show ?case using Cons by (simp add: entered_events_def)
qed (simp add: entered_events_def)

theorem scn_serial_witness:
  "\<exists>order. mset (map snd order) = {#Notify ''t1'' (ex_scn_request ''x1''), Notify ''t2'' (ex_scn_request ''x2''), Timer ''t3''#} \<and>
     map scnComponents (scnQ (serial order)) = [[''x1'', ''x2'']]"
proof -
  let ?c = "fold cs_move ex_sched ex_arrived"
  have evs: "map fst (cs_procs ?c) = [Notify ''t1'' (ex_scn_request ''x1''), Notify ''t2'' (ex_scn_request ''x2''), Timer ''t3'']"
    by code_simp
  have "list_all (is_over \<circ> snd) (cs_procs ?c)" by code_simp
  from entered_over [OF this] have e: "entered_events (cs_procs ?c) =
      {#Notify ''t1'' (ex_scn_request ''x1''), Notify ''t2'' (ex_scn_request ''x2''), Timer ''t3''#}"
    unfolding evs by simp
  have u: "\<not> qs_lock (cs_sh ?c)" by code_simp
  have "map scnComponents (scnQ (shown ?c)) = [[''x1'', ''x2'']]" by code_simp
  then show ?thesis using scn_serial [OF ex_ran] e u by metis
qed

theorem scn_never_stuck_witness:
  "\<nexists>f. f 0 = fold cs_move ex_sched ex_arrived \<and> (\<forall>n. drains (f n) (f (Suc n)))"
  using scn_never_stuck [OF ex_ran] by blast

end
