(* ===== verification/ParamsConc.thy ===== *)
theory ParamsConc
  imports Params
begin

text \<open>
  PATCH requests on /params that run at the same time. \<open>parseParamJson\<close> takes a copy of all parameters, changes the
  copy and assigns it back; then \<open>paramsPatch\<close> (cmd/hmi-nfd/api.go) reads the parameters again and stores them. None of
  this holds a lock. \<open>params_step\<close> is one access to what the requests share; the handler of the theory Params is
  the run in which the accesses of one request follow each other.
\<close>

section \<open>Steps\<close>

text \<open>
  Where a request is: at its body, with its copy of the parameters, before it reads the parameters for the answer,
  before the store, at its end.
\<close>

datatype params_pc = QBody | QCopy opParams | QGen | QStore string | QDone writer

fun params_step :: "string \<Rightarrow> request \<Rightarrow> params_pc \<Rightarrow> gstate \<times> kvs \<Rightarrow> params_pc \<times> gstate \<times> kvs" where
  "params_step perr_text r QBody (g, s) =
     (if rq_err r then QDone (invalid ''/params'' ''Error reading inbound request'' new_writer)
      else QCopy (app_params g), g, s)"
| "params_step perr_text r (QCopy tpd) (g, s) =
     (case parseParamJson (rq_body r) PARAM_PATCH (g\<lparr>app_params := tpd\<rparr>) of
        (Some e, g1) \<Rightarrow>
          (QDone (invalid ''/params'' (case e of PErr t \<Rightarrow> t | PDecodeErr \<Rightarrow> perr_text) new_writer), g, s)
      | (None, g1) \<Rightarrow> (QGen, g1, s))"
| "params_step perr_text r QGen (g, s) = (QStore (genCurParamJson g), g, s)"
| "params_step perr_text r (QStore rparams) (g, s) =
     (case kvStore ''hmnfd_params'' rparams s of (err, s1) \<Rightarrow>
        (QDone (if err then internal ''/params'' ''Failed KV service STORE operation'' new_writer
                else writeBody (Bytes rparams) (writeHeader 200 new_writer)), g, s1))"
| "params_step perr_text r (QDone w) gs = (QDone w, gs)"

definition patches_step :: "string \<Rightarrow> request list \<Rightarrow> nat \<Rightarrow> params_pc list \<times> gstate \<times> kvs \<Rightarrow> params_pc list \<times> gstate \<times> kvs" where
  "patches_step perr_text rs i c =
     (if i < length rs
      then (case params_step perr_text (rs ! i) (fst c ! i) (snd c) of (pc, gs) \<Rightarrow> ((fst c)[i := pc], gs))
      else c)"

definition patches_run :: "string \<Rightarrow> request list \<Rightarrow> nat list \<Rightarrow> gstate \<times> kvs \<Rightarrow> params_pc list \<times> gstate \<times> kvs" where
  "patches_run perr_text rs sched gs = fold (patches_step perr_text rs) sched (replicate (length rs) QBody, gs)"

text \<open>On its own, a request does what the handler does.\<close>

lemma params_alone:
  "paramsPatch perr r g s = (w, g', s') \<longleftrightarrow> patches_run perr [r] [0, 0, 0, 0] (g, s) = ([QDone w], g', s')"
  using parseParamJson_frame [of "rq_body r" g]
  by (auto simp: paramsPatch_def patches_run_def patches_step_def Let_def split: prod.splits option.splits)

section \<open>What no interleaving breaks\<close>

text \<open>The part of the parameters that a PATCH must not touch.\<close>

definition fixed_part :: "opParams \<Rightarrow> int \<times> string \<times> int" where
  "fixed_part p = (Port p, Scn_in_url p, Help p)"

definition pc_keeps :: "opParams \<Rightarrow> params_pc \<Rightarrow> bool" where
  "pc_keeps p0 pc \<longleftrightarrow> (\<forall>tpd. pc = QCopy tpd \<longrightarrow> fixed_part tpd = fixed_part p0 \<and> params_ok tpd)"

definition patches_inv :: "nat \<Rightarrow> gstate \<Rightarrow> params_pc list \<times> gstate \<times> kvs \<Rightarrow> bool" where
  "patches_inv n g0 c \<longleftrightarrow> (case c of (pcs, g, s) \<Rightarrow>
     length pcs = n \<and> fixed_part (app_params g) = fixed_part (app_params g0) \<and> params_ok (app_params g) \<and>
     g = g0\<lparr>app_params := app_params g\<rparr> \<and> (\<forall>pc \<in> set pcs. pc_keeps (app_params g0) pc))"

lemma patched_ok:
  assumes "parseParamJson body PARAM_PATCH g = (None, g')" "params_ok (app_params g)"
  shows "params_ok (app_params g') \<and> fixed_part (app_params g') = fixed_part (app_params g) \<and>
    g' = g\<lparr>app_params := app_params g'\<rparr>"
proof -
  have "params_ok (app_params (configure (Json body PARAM_PATCH) g))"
    by (rule configure_ok) (use assms in \<open>simp_all add: config_ok_def\<close>)
  then show ?thesis using assms parseParamJson_frame [of body g] by (auto simp: fixed_part_def)
qed

lemma patches_inv_step:
  assumes "patches_inv (length rs) g0 c"
  shows "patches_inv (length rs) g0 (patches_step perr rs i c)"
proof (cases "i < length rs")
  case True
  obtain pcs g s where c: "c = (pcs, g, s)" by (cases c)
  obtain pc g1 s1 where p: "params_step perr (rs ! i) (pcs ! i) (g, s) = (pc, g1, s1)" by (metis prod_cases3)
  have fits: "pc_keeps (app_params g0) (pcs ! i)" using assms True by (simp add: patches_inv_def c)
  have g0: "fixed_part (app_params g) = fixed_part (app_params g0)" "params_ok (app_params g)" "g = g0\<lparr>app_params := app_params g\<rparr>"
    using assms by (simp_all add: patches_inv_def c)
  have "fixed_part (app_params g1) = fixed_part (app_params g0) \<and> params_ok (app_params g1) \<and>
      g1 = g0\<lparr>app_params := app_params g1\<rparr> \<and> pc_keeps (app_params g0) pc"
  proof (cases "pcs ! i")
    case (QCopy tpd)
    note at = fits [unfolded QCopy pc_keeps_def, simplified]
    obtain e g' where e: "parseParamJson (rq_body (rs ! i)) PARAM_PATCH (g\<lparr>app_params := tpd\<rparr>) = (e, g')" by force
    show ?thesis
    proof (cases e)
      case None
      then have "g1 = g'" "pc = QGen" using p QCopy e by simp_all
      moreover from patched_ok [OF e [unfolded None]] at
      have "params_ok (app_params g')" "fixed_part (app_params g') = fixed_part tpd" "g' = g\<lparr>app_params := app_params g'\<rparr>"
        by simp_all
      moreover have "g' = g0\<lparr>app_params := app_params g'\<rparr>" using calculation(5) g0(3) by (metis gstate.surjective gstate.update_convs(1))
      ultimately show ?thesis using at by (simp add: pc_keeps_def)
    next
      case (Some a)
      then show ?thesis using p QCopy e g0 by (auto simp: pc_keeps_def)
    qed
  qed (use p g0 in \<open>auto simp: pc_keeps_def split: prod.splits if_splits\<close>)
  then show ?thesis using True assms p
    by (auto simp: patches_inv_def patches_step_def c dest!: set_update_subset_insert [THEN subsetD])
qed (use assms in \<open>simp add: patches_step_def\<close>)

lemma patches_inv_run: "params_ok (app_params g) \<Longrightarrow> patches_inv (length rs) g (patches_run perr rs sched (g, s))"
proof -
  assume "params_ok (app_params g)"
  then have "patches_inv (length rs) g (replicate (length rs) QBody, g, s)" by (simp add: patches_inv_def pc_keeps_def)
  moreover have "patches_inv (length rs) g (fold (patches_step perr rs) sched c)" if "patches_inv (length rs) g c" for c
    using that by (induction sched arbitrary: c) (simp_all add: patches_inv_step)
  ultimately show ?thesis by (simp add: patches_run_def)
qed

text \<open>Whatever the order of the accesses: the port and the URL stay, and every number is a Go int.\<close>

lemma patches_frame:
  assumes "params_ok (app_params g)" "patches_run perr rs sched (g, s) = (pcs, g', s')"
  shows "Port (app_params g') = Port (app_params g) \<and> Scn_in_url (app_params g') = Scn_in_url (app_params g) \<and>
    url_port g' = url_port g \<and> params_ok (app_params g')"
proof -
  have "fixed_part (app_params g') = fixed_part (app_params g)" "params_ok (app_params g')" "g' = g\<lparr>app_params := app_params g'\<rparr>"
    using patches_inv_run [OF assms(1), of rs perr sched s] assms(2) by (simp_all add: patches_inv_def)
  then show ?thesis by (metis fixed_part_def gstate.select_convs(2) gstate.surjective gstate.update_convs(1) prod.inject)
qed

section \<open>What they break\<close>

text \<open>Whether a PATCH is accepted does not depend on the parameters, and what it makes of them not on the rest.\<close>

lemma accepted_anywhere: "fst (parseParamJson body PARAM_PATCH g) = fst (parseParamJson body PARAM_PATCH h)"
  by (simp add: parseParamJson_def Let_def split: option.split)

lemma parse_copy:
  "parseParamJson body PARAM_PATCH g = (None, g') \<Longrightarrow>
   parseParamJson body PARAM_PATCH (h\<lparr>app_params := app_params g\<rparr>) = (None, h\<lparr>app_params := app_params g'\<rparr>)"
  by (auto simp: parseParamJson_def Let_def split: option.splits if_splits)

lemma stored_params:
  assumes "kv_ok s" "kv_reliable s"
  obtains s' where "kvStore k v s = (False, s')" "kv_content s' = (kv_content s)(k \<mapsto> v)" "kv_ok s'" "kv_reliable s'"
proof
  show "kvStore k v s = (False, snd (kvStore k v s))" using kv.reliable_store [OF assms(2), of k v] by (simp add: prod_eq_iff)
  show "kv_content (snd (kvStore k v s)) = (kv_content s)(k \<mapsto> v)" by (rule kv.reliable_store_content [OF assms(2)])
  show "kv_ok (snd (kvStore k v s))" "kv_reliable (snd (kvStore k v s))"
    using kv.ok_keep(3) [OF assms(1)] kv.reliable_keep(3) [OF assms(2)] by simp_all
qed

text \<open>
  C34: Two PATCH requests on /params that are accepted can run so that the first is answered
  with 200 and the parameters it asked for, the second with 200, and the parameters in force are
  those of the second alone, while the store says those of the first alone; one after the other,
  both are answered with 200, both changes are in force and the store says so.
\<close>

theorem params_race:
  assumes "\<not> rq_err r1" "\<not> rq_err r2"
    and "parseParamJson (rq_body r1) PARAM_PATCH g = (None, g1)" "parseParamJson (rq_body r2) PARAM_PATCH g = (None, g2)"
    and "kv_ok s" "kv_reliable s"
  shows "(\<exists>sched w1 w2 s'. patches_run perr [r1, r2] sched (g, s) = ([QDone w1, QDone w2], g2, s') \<and>
      w1 = writeBody (Bytes (genCurParamJson g1)) (writeHeader 200 new_writer) \<and> status_of w2 = 200 \<and>
      kv_content s' ''hmnfd_params'' = Some (genCurParamJson g1)) \<and>
    (\<exists>w1 w2 g12 s1 s'. paramsPatch perr r1 g s = (w1, g1, s1) \<and> paramsPatch perr r2 g1 s1 = (w2, g12, s') \<and>
      status_of w1 = 200 \<and> status_of w2 = 200 \<and> parseParamJson (rq_body r2) PARAM_PATCH g1 = (None, g12) \<and>
      kv_content s' ''hmnfd_params'' = Some (genCurParamJson g12))"
proof -
  let ?j1 = "genCurParamJson g1" and ?j2 = "genCurParamJson g2"
  have same: "h\<lparr>app_params := app_params h\<rparr> = h" for h :: gstate by simp
  obtain s1 where s1: "kvStore ''hmnfd_params'' ?j2 s = (False, s1)" "kv_ok s1" "kv_reliable s1"
    using stored_params [OF assms(5,6)] by blast
  obtain s2 where s2: "kvStore ''hmnfd_params'' ?j1 s1 = (False, s2)" "kv_content s2 = (kv_content s1)(''hmnfd_params'' \<mapsto> ?j1)"
    using stored_params [OF s1(2,3)] by blast
  have g2: "parseParamJson (rq_body r2) PARAM_PATCH (g1\<lparr>app_params := app_params g\<rparr>) = (None, g2)"
    using parse_copy [OF assms(4), of g1] parseParamJson_frame [of "rq_body r1" g] parseParamJson_frame [of "rq_body r2" g] assms(3,4)
    by auto
  have "patches_run perr [r1, r2] [0, 1, 0, 0, 1, 1, 1, 0] (g, s) =
      ([QDone (writeBody (Bytes ?j1) (writeHeader 200 new_writer)), QDone (writeBody (Bytes ?j2) (writeHeader 200 new_writer))], g2, s2)"
    using assms(1-3) g2 s1(1) s2(1) same [of g] by (simp add: patches_run_def patches_step_def)
  then have race: "\<exists>sched w1 w2 s'. patches_run perr [r1, r2] sched (g, s) = ([QDone w1, QDone w2], g2, s') \<and>
      w1 = writeBody (Bytes ?j1) (writeHeader 200 new_writer) \<and> status_of w2 = 200 \<and>
      kv_content s' ''hmnfd_params'' = Some ?j1"
    using s2(2) by (fastforce simp: status_of_def)
  obtain g12 where g12: "parseParamJson (rq_body r2) PARAM_PATCH g1 = (None, g12)"
    using accepted_anywhere [of "rq_body r2" g1 g] assms(4) by (metis fst_conv prod.collapse)
  obtain t1 where t1: "kvStore ''hmnfd_params'' ?j1 s = (False, t1)" "kv_ok t1" "kv_reliable t1"
    using stored_params [OF assms(5,6)] by blast
  obtain t2 where t2: "kvStore ''hmnfd_params'' (genCurParamJson g12) t1 = (False, t2)"
    "kv_content t2 = (kv_content t1)(''hmnfd_params'' \<mapsto> genCurParamJson g12)"
    using stored_params [OF t1(2,3)] by blast
  show ?thesis
    using race assms(1-3) g12 t1(1) t2 by (simp add: paramsPatch_def Let_def status_of_def)
qed

definition ex_params :: "string \<Rightarrow> request" where
  "ex_params body = \<lparr>rq_method = ''PATCH'', rq_path = ''/hmi/v2/params'', rq_vars = [], rq_body = body, rq_err = False\<rparr>"

theorem params_race_witness:
  "\<exists>sched w1 w2 g' s'.
     patches_run [] [ex_params ''{\"Debug\":3}'', ex_params ''{\"Scn_retries\":9}''] sched (initial_gstate, kv_open) =
       ([QDone w1, QDone w2], g', s') \<and> status_of w1 = 200 \<and> status_of w2 = 200 \<and>
     Debug (app_params g') = 0 \<and> Scn_retries (app_params g') = 9"
proof -
  let ?p = "\<lambda>b. parseParamJson b PARAM_PATCH initial_gstate"
  have "(case ?p ''{\"Debug\":3}'' of (e, g1) \<Rightarrow> e = None \<and> Debug (app_params g1) = 3)" by code_simp
  then obtain g1 where g1: "?p ''{\"Debug\":3}'' = (None, g1)" by (auto split: prod.splits)
  have "(case ?p ''{\"Scn_retries\":9}'' of (e, g2) \<Rightarrow> e = None \<and> Debug (app_params g2) = 0 \<and> Scn_retries (app_params g2) = 9)"
    by code_simp
  then obtain g2 where g2: "?p ''{\"Scn_retries\":9}'' = (None, g2)" "Debug (app_params g2) = 0" "Scn_retries (app_params g2) = 9"
    by (auto split: prod.splits)
  have k: "kv_ok kv_open" "kv_reliable kv_open" by code_simp+
  have b: "\<not> rq_err (ex_params x)" "rq_body (ex_params x) = x" for x by (simp_all add: ex_params_def)
  show ?thesis
    using params_race [of "ex_params ''{\"Debug\":3}''" "ex_params ''{\"Scn_retries\":9}''" initial_gstate g1 g2 kv_open "[]"]
      b g1 g2 k by (fastforce simp: status_of_def)
qed

end
