(* ===== verification/Emulator.thy ===== *)
theory Emulator
  imports Startup Fanout Router
begin

text \<open>
  The program at the other end: the fake subscriber of test/fake-subscriber/fake-subscriber.go, which stands for
  a node that subscribes to hmnfd and keeps the last notification it was sent. It has structs of its own for the
  two messages: its notification has no Flag, its subscription names the subscriber in one member only. Logging is left out.
  The last section puts it together with hmnfd: what it sends is accepted, and what it asked for reaches it.
\<close>

section \<open>Structs\<close>

record EScn =
  esComponents :: "string list"
  esEnabled :: "bool option"
  esRole :: string
  esSubRole :: string
  esSoftwareStatus :: string
  esState :: string
  esTimestamp :: string

record ESub =
  eqSubscriber :: string
  eqComponents :: "string list"
  eqUrl :: string
  eqStates :: "string list"
  eqEnabled :: "bool option"
  eqSoftwareStatus :: "string list"
  eqRoles :: "string list"
  eqSubRoles :: "string list"

definition EScn0 :: EScn where
  "EScn0 = \<lparr>esComponents = [], esEnabled = None, esRole = [], esSubRole = [], esSoftwareStatus = [], esState = [], esTimestamp = []\<rparr>"

definition escn_fields :: "EScn field_table" where
  "escn_fields = [
     (''components'', dec_into dec_strings esComponents (\<lambda>x. esComponents_update (\<lambda>_. x))),
     (''enabled'', dec_into dec_bool_ptr esEnabled (\<lambda>x. esEnabled_update (\<lambda>_. x))),
     (''role'', dec_into dec_string esRole (\<lambda>x. esRole_update (\<lambda>_. x))),
     (''subrole'', dec_into dec_string esSubRole (\<lambda>x. esSubRole_update (\<lambda>_. x))),
     (''softwarestatus'', dec_into dec_string esSoftwareStatus (\<lambda>x. esSoftwareStatus_update (\<lambda>_. x))),
     (''state'', dec_into dec_string esState (\<lambda>x. esState_update (\<lambda>_. x))),
     (''timestamp'', dec_into dec_string esTimestamp (\<lambda>x. esTimestamp_update (\<lambda>_. x)))]"

definition json_EScn :: "EScn \<Rightarrow> json" where
  "json_EScn s = JObj ((''Components'', j_strings (esComponents s)) #
     omit_bool_ptr ''Enabled'' (esEnabled s) @ omit_str ''Role'' (esRole s) @ omit_str ''SubRole'' (esSubRole s) @
     omit_str ''SoftwareStatus'' (esSoftwareStatus s) @ omit_str ''State'' (esState s) @
     omit_str ''Timestamp'' (esTimestamp s))"

definition json_ESub :: "ESub \<Rightarrow> json" where
  "json_ESub s = JObj ((''Subscriber'', JStr (eqSubscriber s)) # omit_strs ''Components'' (eqComponents s) @
     (''Url'', JStr (eqUrl s)) # omit_strs ''States'' (eqStates s) @ omit_bool_ptr ''Enabled'' (eqEnabled s) @
     omit_strs ''SoftwareStatus'' (eqSoftwareStatus s) @ omit_strs ''Roles'' (eqRoles s) @
     omit_strs ''SubRoles'' (eqSubRoles s))"

section \<open>State\<close>

record emu =
  nodename :: string
  eport :: string
  lastScnReceived :: EScn
  nfdSubscribeUrl :: string
  scnNodes :: "string list"
  scnStates :: "string list"
  scnSWStatus :: "string list"
  scnRoles :: "string list"
  scnSubRoles :: "string list"
  escnEnabled :: bool
  myHost :: string

definition emu_init :: emu where
  "emu_init = \<lparr>nodename = ''x1111c1s1b0n1'', eport = ''29000'', lastScnReceived = EScn0,
     nfdSubscribeUrl = ''https://localhost:28600/hmi/v1/subscribe'', scnNodes = [''x0c0s0b0n0'', ''x0c0s0b0n1''],
     scnStates = [''Ready''], scnSWStatus = [], scnRoles = [], scnSubRoles = [], escnEnabled = False,
     myHost = ''localhost''\<rparr>"

text \<open>The first part of \<open>main\<close>: a variable that is not empty replaces the default; lists are cut at the commas.\<close>

definition env_str :: "environ \<Rightarrow> string \<Rightarrow> string \<Rightarrow> string" where
  "env_str env k old = (if getenv env k \<noteq> [] then getenv env k else old)"

definition env_list :: "environ \<Rightarrow> string \<Rightarrow> string list \<Rightarrow> string list" where
  "env_list env k old = (if getenv env k \<noteq> [] then split_on (CHR '','') (getenv env k) else old)"

definition emu_env :: "environ \<Rightarrow> emu \<Rightarrow> emu" where
  "emu_env env e = e\<lparr>
     nodename := env_str env ''NODE'' (nodename e),
     eport := env_str env ''PORT'' (eport e),
     nfdSubscribeUrl := env_str env ''NFDSUBURL'' (nfdSubscribeUrl e),
     scnNodes := env_list env ''SUBNODES'' (scnNodes e),
     scnStates := env_list env ''SUBSTATES'' (scnStates e),
     scnSWStatus := env_list env ''SUBSWSTATUS'' (scnSWStatus e),
     scnRoles := env_list env ''ROLES'' (scnRoles e),
     scnSubRoles := env_list env ''SUBROLES'' (scnSubRoles e),
     escnEnabled := (getenv env ''ENABLED'' \<noteq> [] \<or> escnEnabled e),
     myHost := env_str env ''FAKEHOST'' (myHost e)\<rparr>"

text \<open>\<open>parse_cmd_line\<close> after \<open>flag.Parse\<close>: the flags, with the text xxx for one that was not given.\<close>

record emuFlags =
  fl_nodename :: string
  fl_port :: string
  fl_nfd_suburl :: string
  fl_scn_nodes :: string
  fl_scn_states :: string
  fl_scn_swstatus :: string
  fl_scn_roles :: string
  fl_scn_subroles :: string
  fl_scn_enable :: bool
  fl_fake_host :: string

definition flag_str :: "string \<Rightarrow> string \<Rightarrow> string" where
  "flag_str v old = (if v \<noteq> ''xxx'' then v else old)"

definition flag_list :: "string \<Rightarrow> string list \<Rightarrow> string list" where
  "flag_list v old = (if v \<noteq> ''xxx'' then split_on (CHR '','') v else old)"

definition parse_cmd_line :: "emuFlags \<Rightarrow> emu \<Rightarrow> emu" where
  "parse_cmd_line f e = e\<lparr>
     nodename := flag_str (fl_nodename f) (nodename e),
     eport := flag_str (fl_port f) (eport e),
     nfdSubscribeUrl := flag_str (fl_nfd_suburl f) (nfdSubscribeUrl e),
     scnNodes := flag_list (fl_scn_nodes f) (scnNodes e),
     scnStates := flag_list (fl_scn_states f) (scnStates e),
     scnSWStatus := flag_list (fl_scn_swstatus f) (scnSWStatus e),
     scnRoles := flag_list (fl_scn_roles f) (scnRoles e),
     scnSubRoles := flag_list (fl_scn_subroles f) (scnSubRoles e),
     escnEnabled := (fl_scn_enable f \<or> escnEnabled e),
     myHost := flag_str (fl_fake_host f) (myHost e)\<rparr>"

definition emu_start :: "environ \<Rightarrow> emuFlags \<Rightarrow> emu" where
  "emu_start env f = parse_cmd_line f (emu_env env emu_init)"

section \<open>Handlers\<close>

text \<open>An error in reading the body is overwritten: what was read is decoded.\<close>

definition subs_rcv :: "request \<Rightarrow> emu \<Rightarrow> writer \<times> emu" where
  "subs_rcv r e =
     (if rq_method r \<noteq> ''POST'' then (writeHeader 405 new_writer, e)
      else case unmarshal escn_fields EScn0 (rq_body r) of
        None \<Rightarrow> (writeHeader 400 new_writer, e)
      | Some jdata \<Rightarrow> (writeHeader 200 new_writer, e\<lparr>lastScnReceived := jdata\<rparr>))"

definition lastscn_rcv :: "request \<Rightarrow> emu \<Rightarrow> writer \<times> emu" where
  "lastscn_rcv r e =
     (if rq_method r \<noteq> ''GET'' then (writeHeader 405 new_writer, e)
      else (writeBody (Bytes (jprint (json_EScn (lastScnReceived e))))
              (writeHeader 200 (setHeader ''Content-Type'' ''application/json'' new_writer)), e))"

definition clean :: "request \<Rightarrow> emu \<Rightarrow> writer \<times> emu" where
  "clean r e = (writeHeader 200 new_writer, e\<lparr>lastScnReceived := EScn0\<rparr>)"

definition emu_url :: "emu \<Rightarrow> string" where
  "emu_url e = ''http://'' @ myHost e @ '':'' @ eport e @ ''/'' @ nodename e @ ''/scn''"

definition scnsub :: "emu \<Rightarrow> ESub" where
  "scnsub e = \<lparr>eqSubscriber = ''NodeEmulator@'' @ nodename e, eqComponents = scnNodes e, eqUrl = emu_url e,
     eqStates = scnStates e, eqEnabled = (if escnEnabled e then Some True else None),
     eqSoftwareStatus = scnSWStatus e, eqRoles = scnRoles e, eqSubRoles = scnSubRoles e\<rparr>"

text \<open>
  What a subscription comes to: a panic (the URL is shorter than five characters, or \<open>http.NewRequest\<close>, whose error is
  ignored, did not make a request of it), an error of the client, or an answer, whatever its status.
\<close>

datatype sent = SubPanic | SubError | SubDone

definition sendNFDSubscription :: "attempt \<Rightarrow> emu \<Rightarrow> (string \<times> string) option \<times> sent" where
  "sendNFDSubscription out e =
     (if length (nfdSubscribeUrl e) < 5 then (None, SubPanic)
      else case out of
        NoRequest \<Rightarrow> (None, SubPanic)
      | SendError t \<Rightarrow> (Some (nfdSubscribeUrl e, jprint (json_ESub (scnsub e))), SubError)
      | Answer code \<Rightarrow> (Some (nfdSubscribeUrl e, jprint (json_ESub (scnsub e))), SubDone))"

text \<open>The answer of a handler: it panicked, the process exited with this status, or the writer.\<close>

datatype emu_answer = EPanic | EExit int | EWriter writer

definition do_subscribe :: "attempt \<Rightarrow> request \<Rightarrow> emu \<Rightarrow> emu_answer \<times> emu" where
  "do_subscribe out r e =
     (case snd (sendNFDSubscription out e) of
        SubPanic \<Rightarrow> EPanic
      | SubError \<Rightarrow> EExit 1
      | SubDone \<Rightarrow> EWriter (writeHeader 200 new_writer), e)"

text \<open>
  The paths that \<open>main\<close> registers. Before it looks for one of them, the mux of net/http redirects a
  path that is not clean, unless the method is CONNECT; the page of the redirection is left out. Other paths are
  answered with 404.
\<close>

definition emu_path :: "emu \<Rightarrow> string \<Rightarrow> string" where
  "emu_path e s = ''/'' @ nodename e @ s"

definition emu_serve :: "attempt \<Rightarrow> request \<Rightarrow> emu \<Rightarrow> emu_answer \<times> emu" where
  "emu_serve out r e =
     (if rq_method r \<noteq> ''CONNECT'' \<and> cleanPath (rq_path r) \<noteq> rq_path r
      then (EWriter (writeHeader 301 (setHeader ''Location'' (cleanPath (rq_path r)) new_writer)), e)
      else if rq_path r = emu_path e ''/scn'' then map_prod EWriter id (subs_rcv r e)
      else if rq_path r = emu_path e ''/lastscn'' then map_prod EWriter id (lastscn_rcv r e)
      else if rq_path r = emu_path e ''/clean'' then map_prod EWriter id (clean r e)
      else if rq_path r = emu_path e ''/do_subscribe'' then do_subscribe out r e
      else (EWriter (writeHeader 404 new_writer), e))"

text \<open>
  The paths of a node with a valid name are clean. The dot in the pattern of a partition stands for any
  character, so a slash may be in such a name, but then both its parts are good.
\<close>

fun rx_chars :: "(char \<Rightarrow> bool) \<Rightarrow> rx \<Rightarrow> bool" where
  "rx_chars P (One k) = (case k of In s \<Rightarrow> list_all P s | NotNL \<Rightarrow> False)"
| "rx_chars P (Star k) = (case k of In s \<Rightarrow> list_all P s | NotNL \<Rightarrow> False)"
| "rx_chars P (Rep k lo hi) = (case k of In s \<Rightarrow> list_all P s | NotNL \<Rightarrow> False)"
| "rx_chars P (Opt qs) = list_all (rx_chars P) qs"

lemma rx_chars_lang:
  "rx_chars P p \<Longrightarrow> s \<in> rx_lang p \<Longrightarrow> list_all P s"
  "list_all (rx_chars P) ps \<Longrightarrow> s \<in> rxs_lang ps \<Longrightarrow> list_all P s"
proof (induction p and ps arbitrary: s and s rule: rx_lang_rxs_lang.induct)
  case (6 p ps)
  then show ?case by (auto simp: list_all_append)
qed (auto simp: list_all_iff split: cls.splits)

lemma some_of:
  assumes "v \<in> rxs_lang (One (In K) # [Star (In K)])"
  shows "v \<noteq> []" "set v \<subseteq> set K"
  using assms by auto

lemma valid_name_parts:
  assumes "hmsTypeValid n"
  obtains ts where "n = join CHR ''/'' ts" "ts \<noteq> []" "\<forall>t \<in> set ts. good_seg t"
proof (cases "CHR ''/'' \<in> set n")
  case False
  then have "good_seg n" using hmsTypeValid_head [OF assms] by (auto simp: good_seg_def)
  then show ?thesis using that [of "[n]"] by simp
next
  case True
  have parts: "list_all (\<lambda>e. fst e = ''Partition'' \<or> list_all (rx_chars (\<lambda>c. c \<noteq> CHR ''/'')) (snd e)) hmsCompRecognitionTable"
    by code_simp
  obtain e where e: "e \<in> set hmsCompRecognitionTable" "n \<in> rxs_lang (snd e)"
    using assms by (auto simp: hmsTypeValid_def list_ex_iff rx_match_lang)
  have "\<not> list_all (rx_chars (\<lambda>c. c \<noteq> CHR ''/'')) (snd e)"
    using rx_chars_lang(2) [OF _ e(2), of "\<lambda>c. c \<noteq> CHR ''/''"] True by (auto simp: list_all_iff)
  then have "fst e = ''Partition''" using parts e(1) by (auto simp: list_all_iff)
  moreover have "list_all (\<lambda>e. fst e = ''Partition'' \<longrightarrow> snd e = fld ''p'' @ [Opt (One NotNL # One dg # [Star dg])])
      hmsCompRecognitionTable" by code_simp
  ultimately have "snd e = fld ''p'' @ [Opt (One NotNL # One dg # [Star dg])]" using e(1) by (auto simp: list_all_iff)
  then have "n \<in> rxs_lang (fld ''p'' @ [Opt (One NotNL # One dg # [Star dg])])" using e(2) by simp
  then have "n \<in> rxs_lang (One (In [CHR ''p'']) # One (In ''0123456789'') # Star (In ''0123456789'') #
      [Opt (One NotNL # One dg # [Star dg])])" by (simp add: rx_parts del: rxs_lang.simps rx_lang.simps)
  then obtain d u where n: "n = CHR ''p'' # d @ u" "d \<noteq> []" "set d \<subseteq> set ''0123456789''"
    "u \<in> rxs_lang [Opt (One NotNL # One dg # [Star dg])]"
    unfolding field_lang by blast
  have slash: "CHR ''/'' \<notin> set v" if "set v \<subseteq> set ''0123456789''" for v using that by auto
  note nd = slash [OF n(3)]
  have "u \<noteq> []" using True nd by (auto simp: n(1))
  then have "u \<in> rxs_lang (One NotNL # One dg # [Star dg])" using n(4) by auto
  then obtain c v where u: "u = c # v" "v \<in> rxs_lang (One dg # [Star dg])" unfolding one_lang [of _ NotNL] by blast
  note v = some_of [OF u(2)]
  note nv = slash [OF v(2)]
  have "v \<noteq> ''.'' \<and> v \<noteq> ''..''" using v(2) by auto
  then have "good_seg (CHR ''p'' # d)" "good_seg v" using nd nv v(1) by (simp_all add: good_seg_def)
  moreover have "c = CHR ''/''" using True nd nv by (simp add: n(1) u(1))
  ultimately show ?thesis using that [of "[CHR ''p'' # d, v]"] n(1) u(1) by simp
qed

lemma emu_path_clean:
  assumes "hmsTypeValid (nodename e)" "good_seg t"
  shows "cleanPath (emu_path e (''/'' @ t)) = emu_path e (''/'' @ t)"
proof -
  obtain ts where ts: "nodename e = join CHR ''/'' ts" "ts \<noteq> []" "\<forall>t \<in> set ts. good_seg t"
    using valid_name_parts [OF assms(1)] .
  have "join CHR ''/'' (ts @ [t]) = join CHR ''/'' ts @ ''/'' @ t" using ts(2) by (induction ts rule: induct_list012) simp_all
  then have "emu_path e (''/'' @ t) = canon (ts @ [t]) False" by (simp add: emu_path_def ts(1) canon_def)
  then show ?thesis using cleanPath_id [of "ts @ [t]" False] ts(3) assms(2) by simp
qed

section \<open>Its messages\<close>

lemma escn_fields_lookup [simp]:
  "map_of escn_fields ''components'' = Some (dec_into dec_strings esComponents (\<lambda>x. esComponents_update (\<lambda>_. x)))"
  "map_of escn_fields ''enabled'' = Some (dec_into dec_bool_ptr esEnabled (\<lambda>x. esEnabled_update (\<lambda>_. x)))"
  "map_of escn_fields ''flag'' = None"
  "map_of escn_fields ''role'' = Some (dec_into dec_string esRole (\<lambda>x. esRole_update (\<lambda>_. x)))"
  "map_of escn_fields ''subrole'' = Some (dec_into dec_string esSubRole (\<lambda>x. esSubRole_update (\<lambda>_. x)))"
  "map_of escn_fields ''softwarestatus'' =
     Some (dec_into dec_string esSoftwareStatus (\<lambda>x. esSoftwareStatus_update (\<lambda>_. x)))"
  "map_of escn_fields ''state'' = Some (dec_into dec_string esState (\<lambda>x. esState_update (\<lambda>_. x)))"
  "map_of escn_fields ''timestamp'' = Some (dec_into dec_string esTimestamp (\<lambda>x. esTimestamp_update (\<lambda>_. x)))"
  by (simp_all add: escn_fields_def)

text \<open>A notification of hmnfd as the fake subscriber reads it.\<close>

definition escn_of :: "Scn \<Rightarrow> EScn" where
  "escn_of s = \<lparr>esComponents = scnComponents s, esEnabled = scnEnabled s, esRole = scnRole s, esSubRole = scnSubRole s,
     esSoftwareStatus = scnSoftwareStatus s, esState = scnState s, esTimestamp = scnTimestamp s\<rparr>"

lemma dec_members_unknown:
  "map_of tbl (to_lower k) = None \<Longrightarrow> dec_members tbl (omit_str k s @ ms) er = dec_members tbl ms er"
  by (cases er) (auto simp: omit_str_def)

lemma escn_heard: "unmarshal escn_fields EScn0 (marshal_Scn s) = Some (escn_of s)"
proof -
  have "dec_members escn_fields
      (omit_bool_ptr ''Enabled'' (scnEnabled s) @ omit_str ''Flag'' (scnFlag s) @
       omit_str ''Role'' (scnRole s) @ omit_str ''SubRole'' (scnSubRole s) @
       omit_str ''SoftwareStatus'' (scnSoftwareStatus s) @ omit_str ''State'' (scnState s) @
       omit_str ''Timestamp'' (scnTimestamp s))
      (False, EScn0\<lparr>esComponents := scnComponents s\<rparr>) = (False, escn_of s)"
    unfolding EScn0_def
    by (subst dec_members_omit, simp, simp, simp, subst dec_members_unknown, simp)
      ((subst dec_members_omit, simp, simp, simp)+, simp add: escn_of_def)
  then have "dec_struct escn_fields EScn0 (json_Scn s) = Some (escn_of s)"
    by (simp add: dec_struct_def json_Scn_def dec_into_def)
  then show ?thesis by (simp add: marshal_Scn_def unmarshal_jprint)
qed

text \<open>What \<open>lastscn_rcv\<close> answers, read as a notification of hmnfd.\<close>

lemma json_escn: "json_EScn (escn_of s) = json_Scn (s\<lparr>scnFlag := []\<rparr>)"
  by (simp add: json_EScn_def json_Scn_def escn_of_def omit_str_def [of "''Flag''"])

section \<open>A body in lower case\<close>

text \<open>The v1 POST lowers the whole body before it decodes it. For a printed value that is the value in lower case.\<close>

fun jlower :: "json \<Rightarrow> json" where
  "jlower (JStr s) = JStr (to_lower s)"
| "jlower (JArr js) = JArr (map jlower js)"
| "jlower (JObj ms) = JObj (map (map_prod to_lower jlower) ms)"
| "jlower (JNum t) = JNum (to_lower t)"
| "jlower j = j"

lemma lower_lits [simp]:
  "lower_char CHR 0x22 = CHR 0x22" "lower_char CHR 0x5C = CHR 0x5C" "lower_char CHR ''{'' = CHR ''{''"
  "lower_char CHR ''}'' = CHR ''}''" "lower_char CHR ''['' = CHR ''[''" "lower_char CHR '']'' = CHR '']''"
  "lower_char CHR '':'' = CHR '':''" "lower_char CHR '','' = CHR '',''" "lower_char CHR ''0'' = CHR ''0''"
  "lower_char CHR ''a'' = CHR ''a''" "lower_char CHR ''b'' = CHR ''b''" "lower_char CHR ''e'' = CHR ''e''"
  "lower_char CHR ''f'' = CHR ''f''" "lower_char CHR ''l'' = CHR ''l''" "lower_char CHR ''n'' = CHR ''n''"
  "lower_char CHR ''r'' = CHR ''r''" "lower_char CHR ''s'' = CHR ''s''" "lower_char CHR ''t'' = CHR ''t''"
  "lower_char CHR ''u'' = CHR ''u''" "lower_char CHR ''c'' = CHR ''c''" "lower_char CHR ''/'' = CHR ''/''"
  by code_simp+

lemma lower_hex:
  assumes "n < 16"
  shows "lower_char (hex_digit n) = hex_digit n"
proof -
  have "of_char (hex_digit n) = (if n < 10 then 48 + n else 87 + n)" using assms by (simp add: hex_digit_def)
  then have "of_char (hex_digit n) < (65 :: nat) \<or> (90 :: nat) < of_char (hex_digit n)" using assms by auto
  then have "\<not> (CHR ''A'' \<le> hex_digit n \<and> hex_digit n \<le> CHR ''Z'')" by (auto simp: less_eq_char_def)
  then show ?thesis unfolding lower_char_def by (rule if_not_P)
qed

lemma esc_letter:
  assumes "64 < (of_char c :: nat)" "of_char c \<noteq> (92 :: nat)"
  shows "esc_char c = [c]"
proof -
  have "c \<notin> {CHR 0x22, CHR 0x5C, CHR 0x08, CHR 0x0C, CHR 0x0A, CHR 0x0D, CHR 0x09, CHR ''<'', CHR ''>'', CHR ''&''}"
    using assms by (intro notI) (elim insertE emptyE; simp)
  moreover have "\<not> of_char c < (32 :: nat)" using assms(1) by linarith
  ultimately show ?thesis by (simp add: esc_char_def)
qed

lemma lower_esc: "to_lower (esc_char c) = esc_char (lower_char c)"
proof (cases "CHR ''A'' \<le> c \<and> c \<le> CHR ''Z''")
  case True
  then have c: "65 \<le> (of_char c :: nat)" "of_char c \<le> (90 :: nat)" by (simp_all add: less_eq_char_def)
  then have "esc_char c = [c]" "esc_char (lower_char c) = [lower_char c]"
    using True lower_char_range [of c] by (simp_all add: esc_letter)
  then show ?thesis by (simp add: to_lower_Cons)
next
  case False
  then have l: "lower_char c = c" by (auto simp: lower_char_def)
  have "(of_char c :: nat) div 16 < 16" using nat_of_char_less_256 [of c] by linarith
  then have "to_lower (esc_char c) = esc_char c"
    using l by (simp add: esc_char_def to_lower_Cons lower_hex)
  then show ?thesis by (simp add: l)
qed

lemma lower_jquote: "to_lower (jquote s) = jquote (to_lower s)"
proof -
  have "to_lower (concat (map esc_char s)) = concat (map esc_char (to_lower s))"
    by (induction s) (simp_all add: lower_esc to_lower_Cons)
  then show ?thesis by (simp add: jquote_def to_lower_Cons)
qed

lemma lower_jprint:
  "to_lower (jprint j) = jprint (jlower j)"
  "to_lower (jprint_elems js) = jprint_elems (map jlower js)"
  "to_lower (jprint_members ms) = jprint_members (map (map_prod to_lower jlower) ms)"
  by (induction j and js and ms rule: jprint_jprint_elems_jprint_members.induct)
    (simp_all add: lower_jquote to_lower_Cons)

lemma jlower_parts [simp]:
  "jlower (j_strings xs) = j_strings (map to_lower xs)"
  "map (map_prod to_lower jlower) (omit_str k s) = omit_str (to_lower k) (to_lower s)"
  "map (map_prod to_lower jlower) (omit_strs k xs) = omit_strs (to_lower k) (map to_lower xs)"
  "map (map_prod to_lower jlower) (omit_bool_ptr k b) = omit_bool_ptr (to_lower k) b"
  by (simp_all add: j_strings_def omit_str_def omit_strs_def omit_bool_ptr_def split: option.split)

section \<open>With hmnfd\<close>

text \<open>The subscription as the v1 POST reads it, and its key.\<close>

definition heard_sub :: "emu \<Rightarrow> ScnSubscribe" where
  "heard_sub e = ScnSubscribe0\<lparr>subComponents := map to_lower (scnNodes e),
     subSubscriber := ''nodeemulator@'' @ to_lower (nodename e),
     subEnabled := (if escnEnabled e then Some True else None), subRoles := map to_lower (scnRoles e),
     subSubRoles := map to_lower (scnSubRoles e), subSoftwareStatus := map to_lower (scnSWStatus e),
     subStates := map to_lower (scnStates e), subUrl := to_lower (emu_url e)\<rparr>"

definition emu_key :: "emu \<Rightarrow> string" where
  "emu_key e = makeSubscriptionKey_V2 (heard_sub e) (to_lower (nodename e)) ''nodeemulator''"

lemma lower_keys [simp]:
  "to_lower ''subscriber'' = ''subscriber''" "to_lower ''components'' = ''components''" "to_lower ''url'' = ''url''"
  "to_lower ''states'' = ''states''" "to_lower ''enabled'' = ''enabled''" "to_lower ''softwarestatus'' = ''softwarestatus''"
  "to_lower ''roles'' = ''roles''" "to_lower ''subroles'' = ''subroles''"
  "to_lower ''NodeEmulator@'' = ''nodeemulator@''"
  by code_simp+

lemma esub_heard:
  "unmarshal_ScnSubscribe (to_lower (jprint (json_ESub q))) = Some (ScnSubscribe0\<lparr>
     subComponents := map to_lower (eqComponents q), subSubscriber := to_lower (eqSubscriber q), subEnabled := eqEnabled q,
     subRoles := map to_lower (eqRoles q), subSubRoles := map to_lower (eqSubRoles q),
     subSoftwareStatus := map to_lower (eqSoftwareStatus q), subStates := map to_lower (eqStates q),
     subUrl := to_lower (eqUrl q)\<rparr>)" (is "_ = Some ?j")
proof -
  let ?L = "map to_lower"
  have last: "dec_members sub_fields (omit_strs ''subroles'' xs) (e, r) = (e, r\<lparr>subSubRoles := xs\<rparr>)" if "subSubRoles r = []"
    for xs e and r :: ScnSubscribe
    using dec_members_omit_strs [of sub_fields "''subroles''" subSubRoles "\<lambda>x. subSubRoles_update (\<lambda>_. x)" r xs "[]" e] that
    by simp
  have "dec_members sub_fields (omit_strs ''components'' (?L (eqComponents q)) @ (''url'', JStr (to_lower (eqUrl q))) #
      omit_strs ''states'' (?L (eqStates q)) @ omit_bool_ptr ''enabled'' (eqEnabled q) @
      omit_strs ''softwarestatus'' (?L (eqSoftwareStatus q)) @ omit_strs ''roles'' (?L (eqRoles q)) @
      omit_strs ''subroles'' (?L (eqSubRoles q)))
      (False, ScnSubscribe0\<lparr>subSubscriber := to_lower (eqSubscriber q)\<rparr>) = (False, ?j)"
    unfolding ScnSubscribe0_def
    by (subst dec_members_omit, simp, simp, simp)
      (simp add: dec_into_def [of dec_string], (subst dec_members_omit_strs dec_members_omit_bool_ptr, simp, simp, simp)+, simp add: last)
  then have "dec_struct sub_fields ScnSubscribe0 (jlower (json_ESub q)) = Some ?j"
    by (simp add: dec_struct_def json_ESub_def dec_into_def [of dec_string] ScnSubscribe0_def)
  moreover have "jok (jlower (json_ESub q))" by (auto simp: json_ESub_def)
  ultimately show ?thesis by (simp add: unmarshal_ScnSubscribe_def lower_jprint unmarshal_jprint)
qed

lemma emu_subscriber: "to_lower (''NodeEmulator@'' @ n) = ''nodeemulator@'' @ to_lower n"
  by (simp only: to_lower_append lower_keys)

lemma sub_heard: "unmarshal_ScnSubscribe (to_lower (jprint (json_ESub (scnsub e)))) = Some (heard_sub e)"
  by (simp only: esub_heard heard_sub_def scnsub_def ESub.select_convs emu_subscriber)

text \<open>
  A fake subscriber that hmnfd can serve: its name is a component in lower case, it asks for something about some
  component, and no name holds the separators of the keys.
\<close>

definition emu_ready :: "emu \<Rightarrow> bool" where
  "emu_ready e \<longleftrightarrow> hmsTypeValid (nodename e) \<and> to_lower (nodename e) = nodename e \<and> SVC_DELIM \<notin> set (nodename e) \<and>
     KEY_DELIM \<notin> set (nodename e) \<and> scnNodes e \<noteq> [] \<and> \<not> no_attrs (heard_sub e) \<and>
     (\<forall>x \<in> set (sub_attrs (heard_sub e)). KEY_DELIM \<notin> set x)"

lemma emu_post:
  assumes "emu_ready e" "\<not> rq_err r" "rq_body r = jprint (json_ESub (scnsub e))"
  shows "doSubscribePost r st = storeNew ''/subscribe'' (heard_sub e) (emu_key e) new_writer st"
proof -
  have e: "hmsTypeValid (nodename e)" "to_lower (nodename e) = nodename e" "scnNodes e \<noteq> []" "\<not> no_attrs (heard_sub e)"
    "SVC_DELIM \<notin> set (nodename e)" using assms(1) by (simp_all add: emu_ready_def)
  have sub: "subSubscriber (heard_sub e) = ''nodeemulator@'' @ nodename e" "subComponents (heard_sub e) \<noteq> []"
    "subUrl (heard_sub e) \<noteq> []" using e by (simp_all add: heard_sub_def emu_url_def)
  have toks: "split_on SVC_DELIM (''nodeemulator@'' @ nodename e) = [''nodeemulator'', nodename e]"
    by (simp add: split_on_no_delim [OF e(5)])
  have ix: "index_of (''nodeemulator@'' @ nodename e) [SVC_DELIM] = 12" by (simp add: Let_def)
  have "checkSubscription_v1 (heard_sub e) = None"
    unfolding checkSubscription_v1_def sub(1) toks using sub e(4) by simp
  moreover have "makeSubscriptionKey_V1 (heard_sub e) = emu_key e"
    unfolding makeSubscriptionKey_V1_def Let_def sub(1) toks by (simp add: emu_key_def e(2)) code_simp
  moreover have "slice_from (''nodeemulator@'' @ nodename e) (12 + 1) = Some (nodename e)"
    by (simp add: slice_from_def)
  ultimately show ?thesis
    unfolding doSubscribePost_def Let_def assms(3) sub_heard option.case sub(1) ix using assms(2) e(1) by simp
qed

text \<open>hmnfd calls the URL in lower case. When the name of the node is not, nobody answers there.\<close>

lemma upper_case_unheard:
  assumes "to_lower (nodename e) \<noteq> nodename e" "rq_path r = ''/'' @ to_lower (nodename e) @ ''/scn''"
    and "cleanPath (rq_path r) = rq_path r"
  shows "emu_serve out r e = (EWriter (writeHeader 404 new_writer), e)"
proof -
  have "rq_path r \<noteq> emu_path e s" if "length s \<noteq> 4 \<or> s = ''/scn''" for s
  proof
    assume "rq_path r = emu_path e s"
    then have "to_lower (nodename e) @ ''/scn'' = nodename e @ s" using assms(2) by (simp add: emu_path_def)
    moreover have "length (to_lower (nodename e)) = length (nodename e)" by simp
    ultimately have "to_lower (nodename e) = nodename e" by (metis append_eq_append_conv)
    then show False using assms(1) by simp
  qed
  then show ?thesis using assms(3) by (simp add: emu_serve_def)
qed

text \<open>A notification is kept as it was sent.\<close>

lemma emu_keeps:
  assumes "hmsTypeValid (nodename e)"
    and "rq_method p = ''POST''" "rq_path p = emu_path e ''/scn''" "rq_body p = marshal_Scn d" "scnFlag d = []"
    and "rq_method g = ''GET''" "rq_path g = emu_path e ''/lastscn''"
  shows "\<exists>w e' w' b. emu_serve out p e = (EWriter w, e') \<and> status_of w = 200 \<and>
    emu_serve out g e' = (EWriter w', e') \<and> w_body w' = [Bytes b] \<and> unmarshal_Scn b = Some d"
proof -
  have d: "jprint (json_EScn (escn_of d)) = marshal_Scn d"
    using assms(5) by (cases d) (simp add: json_escn marshal_Scn_def)
  let ?e = "e\<lparr>lastScnReceived := escn_of d\<rparr>"
  have clean: "cleanPath (emu_path e ''/scn'') = emu_path e ''/scn''" "cleanPath (emu_path e ''/lastscn'') = emu_path e ''/lastscn''"
    using emu_path_clean [OF assms(1), of "''scn''"] emu_path_clean [OF assms(1), of "''lastscn''"]
    by (simp_all add: good_seg_def)
  have "emu_serve out p e = (EWriter (writeHeader 200 new_writer), ?e)"
    using assms(2-4) clean(1) by (simp add: emu_serve_def subs_rcv_def escn_heard)
  moreover have "emu_path ?e s = emu_path e s" for s by (simp add: emu_path_def)
  then have "emu_serve out g ?e = (EWriter (writeBody (Bytes (marshal_Scn d))
      (writeHeader 200 (setHeader ''Content-Type'' ''application/json'' new_writer))), ?e)"
    using assms(6,7) clean(2) by (simp add: emu_serve_def lastscn_rcv_def d) (simp add: emu_path_def)
  ultimately show ?thesis
    by (auto simp: writeBody_def status_of_def Scn_round writeHeader_def setHeader_def new_writer_def Let_def)
qed

lemma send_at_once:
  "1 \<le> retries \<Longrightarrow> url \<noteq> [] \<Longrightarrow> \<not> gm_flag pm s \<Longrightarrow>
   fst (sendSCNToSubscriber (\<lambda>_. Answer 200) retries d s url pm) = [(url, marshal_Scn d)]"
  by (simp add: sendSCNToSubscriber_def sendLoop.simps)

text \<open>
  C18: There and back with the fake subscriber: the subscription that one with a valid node name
  in lower case sends to a hmnfd whose store answers and does not have its key yet is accepted,
  and a notification of what it asked for then leads to a job whose one request, as long as the
  node is not due to be pruned, goes to its path for notifications on its host and port, in
  lower case; posted there it is answered with 200, and what the fake subscriber lists
  afterwards is the notification that hmnfd had for it.
\<close>

theorem emulator_round_trip:
  assumes "emu_ready e" "store_up st" "deliverable st" "kv_content (ss_kv st) (emu_key e) = None"
    and "sendNFDSubscription (Answer code) e = (Some (u, body), res)"
    and "\<not> rq_err r" "rq_body r = body" "doSubscribePost r st = (Some w, st1)"
    and "doScn scn st1 = ((crashed, jobs), st2)" "asks_for (heard_sub e) scn" "\<not> isStateUnavailable scn"
    and "c \<in> set (wanted (map to_lower (scnNodes e)) (map to_lower (scnComponents scn)))"
    and "1 \<le> retries" "\<not> gm_flag pm (nodename e)"
  shows "status_of w = 200 \<and> \<not> crashed \<and>
    (\<exists>job \<in> set jobs. \<exists>d b. jobSCNData job = d \<and> c \<in> set (scnComponents d) \<and>
       fst (sendSCNToSubscriber (\<lambda>_. Answer 200) retries d (jobSubscriber job) (jobUrl job) pm) =
         [(to_lower (''http://'' @ myHost e @ '':'' @ eport e) @ emu_path e ''/scn'', b)] \<and>
       (\<forall>p g. rq_method p = ''POST'' \<and> rq_path p = emu_path e ''/scn'' \<and> rq_body p = b \<and>
          rq_method g = ''GET'' \<and> rq_path g = emu_path e ''/lastscn'' \<longrightarrow>
          (\<exists>w1 e' w2 b'. emu_serve out p e = (EWriter w1, e') \<and> status_of w1 = 200 \<and>
             emu_serve out g e' = (EWriter w2, e') \<and> w_body w2 = [Bytes b'] \<and> unmarshal_Scn b' = Some d)))"
proof -
  let ?sd = "entry_of (heard_sub e)" and ?k = "emu_key e"
  have e: "to_lower (nodename e) = nodename e" "hmsTypeValid (nodename e)" "KEY_DELIM \<notin> set (nodename e)" "scnNodes e \<noteq> []"
    "\<forall>x \<in> set (sub_attrs (heard_sub e)). KEY_DELIM \<notin> set x" using assms(1) by (simp_all add: emu_ready_def)
  have "rq_body r = jprint (json_ESub (scnsub e))"
    using assms(5,7) by (auto simp: sendNFDSubscription_def split: if_splits)
  note post = emu_post [OF assms(1,6) this, of st]
  have st1: "status_of w = 200" "subscriptions st1 = (subscriptions st)(?k \<mapsto> ?sd)"
    using storeNew_up [OF assms(2), of "''/subscribe''" "heard_sub e" ?k] post assms(4,8) by auto
  have up: "store_up st1"
    using storeNew_up_keep [OF assms(2), of "''/subscribe''" "heard_sub e" ?k new_writer] post assms(8)
    by (metis snd_conv)
  have nodes: "sdScnNodes ?sd = map to_lower (scnNodes e)" "sdUrl ?sd = to_lower (emu_url e)"
    by (simp_all add: entry_of_def heard_sub_def)
  have "kv_content (ss_kv st1) = (kv_content (ss_kv st))(?k \<mapsto> marshal_SubData ?sd)"
    using storeNew_status [of "''/subscribe''" "heard_sub e" ?k st w st1] post assms(8) st1(1) by (simp add: entry_of_def)
  then have "deliverable st1"
    using assms(3) st1(2) nodes(1) e(4) by (auto simp: deliverable_def subscriptions_def split: if_splits)
  then obtain ks where ks: "\<not> crashed" "jobs = map (\<lambda>k. job_for scn k (the (subscriptions st1 k))) ks" "set ks = recipients scn st1"
    using doScn_run [OF up, of scn] assms(9) by auto
  have comp: "key_component ?k = nodename e"
    unfolding emu_key_def e(1) by (rule key_component_makeKey) (use e in auto)
  let ?cs = "wanted (map to_lower (scnNodes e)) (scnComponents (scnToLower scn))"
  have c: "c \<in> set ?cs" using assms(12) by (simp add: scnToLower_def)
  have "?k \<in> recipients scn st1"
    using valid_key_in_range [OF e(2)] asks_for_match [OF assms(10)] assms(11) st1(2) nodes(1) c
    by (auto simp: recipients_def left_out_def emu_key_def e(1))
  then have job: "job_for scn ?k ?sd \<in> set jobs" using ks st1(2) by force
  let ?job = "job_for scn ?k ?sd" and ?d = "sendData_of scn ?cs"
  have parts: "jobSubscriber ?job = nodename e" "jobUrl ?job = to_lower (emu_url e)" "jobSCNData ?job = ?d"
    by (simp_all add: job_for_def queued_def NewJobSCNSend_def SetStatus_def comp nodes)
  have url: "to_lower (emu_url e) = to_lower (''http://'' @ myHost e @ '':'' @ eport e) @ emu_path e ''/scn''"
    using e(1) by (simp add: emu_url_def emu_path_def to_lower_append to_lower_Cons)
  then have sent: "fst (sendSCNToSubscriber (\<lambda>_. Answer 200) retries ?d (jobSubscriber ?job) (jobUrl ?job) pm) =
      [(to_lower (''http://'' @ myHost e @ '':'' @ eport e) @ emu_path e ''/scn'', marshal_Scn ?d)]"
    using send_at_once [OF assms(13), of "to_lower (emu_url e)" pm "nodename e" ?d] assms(14) parts
    by (simp add: emu_path_def)
  have "scnFlag ?d = []" "c \<in> set (scnComponents ?d)" using c by (simp_all add: sendData_of_def Scn0_def)
  then show ?thesis
    using st1(1) ks(1) job parts(3) sent emu_keeps [OF e(2), of _ ?d _ out] by blast
qed

section \<open>An instance\<close>

definition ex_emu_request :: request where
  "ex_emu_request = \<lparr>rq_method = ''POST'', rq_path = ''/hmi/v1/subscribe'', rq_vars = [],
     rq_body = jprint (json_ESub (scnsub emu_init)), rq_err = False\<rparr>"

definition ex_emu_scn :: Scn where
  "ex_emu_scn = Scn0\<lparr>scnComponents := [''x0c0s0b0n1''], scnState := ''Ready''\<rparr>"

theorem emulator_round_trip_witness:
  "\<exists>w st1 jobs st2. doSubscribePost ex_emu_request (ex_store [] []) = (Some w, st1) \<and> status_of w = 200 \<and>
     doScn ex_emu_scn st1 = ((False, jobs), st2) \<and>
     (\<exists>job \<in> set jobs. ''x0c0s0b0n1'' \<in> set (scnComponents (jobSCNData job)))"
proof -
  have e: "emu_ready emu_init" by code_simp
  have up: "store_up (ex_store [] [])" "deliverable (ex_store [] [])" "kv_content (ss_kv (ex_store [] [])) k = None" for k
    by (simp_all add: ex_up deliverable_def ex_content)
  have sent: "sendNFDSubscription (Answer 200) emu_init =
      (Some (nfdSubscribeUrl emu_init, rq_body ex_emu_request), SubDone)"
    by (simp add: sendNFDSubscription_def ex_emu_request_def emu_init_def)
  have r: "\<not> rq_err ex_emu_request" by (simp add: ex_emu_request_def)
  have scn: "asks_for (heard_sub emu_init) ex_emu_scn" "\<not> isStateUnavailable ex_emu_scn"
    "''x0c0s0b0n1'' \<in> set (wanted (map to_lower (scnNodes emu_init)) (map to_lower (scnComponents ex_emu_scn)))"
    by code_simp+
  have "doSubscribePost ex_emu_request (ex_store [] []) =
      storeNew ''/subscribe'' (heard_sub emu_init) (emu_key emu_init) new_writer (ex_store [] [])"
    by (rule emu_post [OF e r]) (simp add: ex_emu_request_def)
  then obtain w st1 where post: "doSubscribePost ex_emu_request (ex_store [] []) = (Some w, st1)"
    using storeNew_up [OF up(1), of "''/subscribe''" "heard_sub emu_init" "emu_key emu_init"] by auto
  obtain crashed jobs st2 where scnd: "doScn ex_emu_scn st1 = ((crashed, jobs), st2)" by (metis prod.collapse)
  show ?thesis
    using emulator_round_trip [OF e up sent r refl post scnd scn order_refl, of "[]"] post scnd by force
qed

end
