(* ===== verification/MemStore.thy ===== *)
theory MemStore
  imports KvStore Proc
begin

text \<open>
  The memory back end of the store, \<open>Kvs_mem\<close> of vendor/.../hms-hmetcd/kvs_etcd.go, one access to the
  map \<open>memStorage\<close> at a time. Get, Store and Delete hold \<open>kvs.mutex\<close>, GetRange goes over the map without it.
  A Go map is not safe for concurrent use: a write sets a flag while it is under way, and whoever
  comes upon that flag, a reader, another writer or the next step of a \<open>range\<close>, ends the process with a
  fatal error that nothing recovers from. The theory KvStore has every call as one step; this
  is what a call does when nobody else is about (\<open>mem_alone\<close>), and what the calls do in any order as
  long as no GetRange meets a Store or a Delete.
\<close>

section \<open>The map and its mutex\<close>

record memstate =
  ms_map :: "(string, string) gomap"
  ms_lock :: bool
  ms_writing :: bool

datatype mem_end = MGot "string option" | MRanged "(string \<times> string) list" | MDone | MFatal

type_synonym memgo = "(memstate, mem_end) proc"

definition mem_Lock :: "memgo \<Rightarrow> memgo" where
  "mem_Lock = await (\<lambda>s. \<not> ms_lock s) (\<lambda>s. s\<lparr>ms_lock := True\<rparr>)"

definition mem_Unlock :: "memgo \<Rightarrow> memgo" where
  "mem_Unlock k = act (\<lambda>s. ((), s\<lparr>ms_lock := False\<rparr>)) (\<lambda>_. k)"

text \<open>A read of the map; a write is two steps, between which the flag is set.\<close>

definition map_read :: "((string, string) gomap \<Rightarrow> memgo) \<Rightarrow> memgo" where
  "map_read k = Act Some (\<lambda>s. if ms_writing s then Ret MFatal else k (ms_map s))"

definition map_write :: "((string, string) gomap \<Rightarrow> (string, string) gomap) \<Rightarrow> memgo \<Rightarrow> memgo" where
  "map_write f k = Act (\<lambda>s. Some (s\<lparr>ms_writing := True\<rparr>)) (\<lambda>s.
     if ms_writing s then Ret MFatal
     else act (\<lambda>s. ((), s\<lparr>ms_map := f (ms_map s), ms_writing := False\<rparr>)) (\<lambda>_. k))"

section \<open>The calls\<close>

definition mem_Get :: "string \<Rightarrow> memgo" where
  "mem_Get key = mem_Lock (map_read (\<lambda>m. mem_Unlock (Ret (MGot (gm_get m key)))))"

definition mem_Store :: "string \<Rightarrow> string \<Rightarrow> memgo" where
  "mem_Store key val = mem_Lock (map_write (gm_put key val) (mem_Unlock (Ret MDone)))"

definition mem_Delete :: "string \<Rightarrow> memgo" where
  "mem_Delete key = mem_Lock (map_read (\<lambda>m.
     if gm_get m key \<noteq> None then map_write (gm_del key) (mem_Unlock (Ret MDone))
     else mem_Unlock (Ret MDone)))"

text \<open>
  The keys that are there when the loop begins, in the order of the map; what has gone by
  the time its turn comes is not seen, and what has come since is not either, which the language
  leaves open.
\<close>

fun rangeLoop :: "string \<Rightarrow> string \<Rightarrow> string list \<Rightarrow> (string \<times> string) list \<Rightarrow> memgo" where
  "rangeLoop keystart keyend [] svals = Ret (MRanged svals)"
| "rangeLoop keystart keyend (key # rest) svals =
     map_read (\<lambda>m. case gm_get m key of
         None \<Rightarrow> rangeLoop keystart keyend rest svals
       | Some val \<Rightarrow> rangeLoop keystart keyend rest
           (if key \<ge> keystart \<and> key \<le> keyend then svals @ [(key, val)] else svals))"

definition mem_GetRange :: "string \<Rightarrow> string \<Rightarrow> memgo" where
  "mem_GetRange keystart keyend = map_read (\<lambda>m. rangeLoop keystart keyend (map fst m) [])"

datatype mem_call = MemGet string | MemStore string string | MemDelete string | MemRange string string

primrec mem_steps :: "mem_call \<Rightarrow> memgo" where
  "mem_steps (MemGet k) = mem_Get k"
| "mem_steps (MemStore k v) = mem_Store k v"
| "mem_steps (MemDelete k) = mem_Delete k"
| "mem_steps (MemRange lo hi) = mem_GetRange lo hi"

primrec is_range :: "mem_call \<Rightarrow> bool" where
  "is_range (MemGet k) = False"
| "is_range (MemStore k v) = False"
| "is_range (MemDelete k) = False"
| "is_range (MemRange lo hi) = True"

lemmas mem_defs = mem_Get_def mem_Store_def mem_Delete_def mem_GetRange_def map_read_def map_write_def
  mem_Lock_def mem_Unlock_def

section \<open>Goroutines that call it\<close>

text \<open>A schedule is the list of the goroutines that take the next step; one that has to wait or has ended passes.\<close>

fun mem_run :: "nat list \<Rightarrow> memgo list \<Rightarrow> memstate \<Rightarrow> memgo list \<times> memstate" where
  "mem_run [] ps s = (ps, s)"
| "mem_run (i # is) ps s =
     (if i < length ps
      then case proc_step (ps ! i) s of
          None \<Rightarrow> mem_run is ps s
        | Some (p, s') \<Rightarrow> mem_run is (ps[i := p]) s'
      else mem_run is ps s)"

definition mem_free :: "(string, string) gomap \<Rightarrow> memstate" where
  "mem_free m = \<lparr>ms_map = m, ms_lock = False, ms_writing = False\<rparr>"

definition mem_dies :: "mem_call list \<Rightarrow> nat list \<Rightarrow> (string, string) gomap \<Rightarrow> bool" where
  "mem_dies calls is m \<longleftrightarrow> Ret MFatal \<in> set (fst (mem_run is (map mem_steps calls) (mem_free m)))"

section \<open>Alone\<close>

lemma mem_free_fields [simp]:
  "ms_map (mem_free m) = m" "ms_lock (mem_free m) = False" "ms_writing (mem_free m) = False"
  "mem_free m\<lparr>ms_lock := True, ms_lock := False\<rparr> = mem_free m"
  by (simp_all add: mem_free_def)

lemma rangeLoop_alone:
  "(\<And>k v. (k, v) \<in> set kvs \<Longrightarrow> gm_get m k = Some v) \<Longrightarrow>
   proc_run (rangeLoop lo hi (map fst kvs) acc) (mem_free m) =
     Some (MRanged (acc @ filter (\<lambda>kv. lo \<le> fst kv \<and> fst kv \<le> hi) kvs), mem_free m)"
proof (induction kvs arbitrary: acc)
  case (Cons kv kvs)
  have "gm_get m (fst kv) = Some (snd kv)" using Cons.prems [of "fst kv" "snd kv"] by simp
  moreover have "proc_run (rangeLoop lo hi (map fst kvs) acc) (mem_free m) =
      Some (MRanged (acc @ filter (\<lambda>kv. lo \<le> fst kv \<and> fst kv \<le> hi) kvs), mem_free m)" for acc
    by (rule Cons.IH) (use Cons.prems in simp)
  ultimately show ?case by (simp add: map_read_def)
qed simp

fun mem_result :: "mem_call \<Rightarrow> kvs \<Rightarrow> mem_end \<times> kvs" where
  "mem_result (MemGet k) s = (case kvGet k s of (r, s') \<Rightarrow> (case r of Inl _ \<Rightarrow> MFatal | Inr v \<Rightarrow> MGot v, s'))"
| "mem_result (MemStore k v) s = (MDone, snd (kvStore k v s))"
| "mem_result (MemDelete k) s = (MDone, snd (kvDelete k s))"
| "mem_result (MemRange lo hi) s =
     (case kvGetRange lo hi s of (r, s') \<Rightarrow> (case r of Inl _ \<Rightarrow> MFatal | Inr kvs \<Rightarrow> MRanged kvs, s'))"

lemma gm_del_absent: "gm_get m k = None \<Longrightarrow> gm_del k m = m"
  by (simp add: map_of_eq_None_iff)

lemma mem_alone:
  assumes "gm_ok (kv_mem s)" "kv_script s = []"
  shows "proc_run (mem_steps c) (mem_free (kv_mem s)) =
    Some (fst (mem_result c s), mem_free (kv_mem (snd (mem_result c s))))"
proof (cases c)
  case (MemRange lo hi)
  have "gm_get (kv_mem s) k = Some v" if "(k, v) \<in> set (kv_mem s)" for k v
    using that assms(1) by (simp add: gm_ok_def)
  then show ?thesis
    using rangeLoop_alone [of "kv_mem s" "kv_mem s" lo hi "[]"] assms(2)
    by (simp add: MemRange mem_GetRange_def map_read_def kvGetRange_def kv_next_def)
next
  case (MemDelete k)
  then show ?thesis
    using assms(2) gm_del_absent [of "kv_mem s" k]
    by (cases "gm_get (kv_mem s) k") (simp_all add: mem_defs mem_free_def kvDelete_def kv_next_def)
qed (use assms(2) in \<open>simp_all add: mem_defs mem_free_def kvGet_def kvStore_def kv_next_def\<close>)

section \<open>Without a range, or without a write\<close>

text \<open>
  \<open>calm p h w\<close>: \<open>p\<close>, which holds the mutex if \<open>h\<close> and is in the middle of a write if \<open>w\<close>, touches the map
  only with the mutex, ends each of its writes before it gives the mutex back, and does not die.
\<close>

primrec calm :: "memgo \<Rightarrow> bool \<Rightarrow> bool \<Rightarrow> bool" where
  "calm (Ret a) h w = (a \<noteq> MFatal \<and> \<not> h \<and> \<not> w)"
| "calm (Act f k) h w =
     (if h then \<forall>s. ms_lock s \<longrightarrow> ms_writing s = w \<longrightarrow>
        (\<exists>s'. f s = Some s' \<and> (ms_writing s' \<longrightarrow> ms_lock s') \<and> calm (k s) (ms_lock s') (ms_writing s'))
      else \<not> w \<and> (\<forall>s s'. f s = Some s' \<longrightarrow> \<not> ms_lock s \<and>
        (\<not> ms_writing s \<longrightarrow> \<not> ms_writing s' \<and> calm (k s) (ms_lock s') False)))"

lemma calm_Lock: "calm k True False \<Longrightarrow> calm (mem_Lock k) False False"
  by (simp add: mem_Lock_def await_def)

lemma calm_Unlock: "calm k False False \<Longrightarrow> calm (mem_Unlock k) True False"
  by (simp add: mem_Unlock_def act_def)

lemma calm_read: "(\<And>m. calm (k m) True False) \<Longrightarrow> calm (map_read k) True False"
  by (simp add: map_read_def)

lemma calm_write: "calm k True False \<Longrightarrow> calm (map_write f k) True False"
  by (simp add: map_write_def act_def)

lemma calm_call: "\<not> is_range c \<Longrightarrow> calm (mem_steps c) False False"
  by (cases c) (auto simp: mem_Get_def mem_Store_def mem_Delete_def intro!: calm_Lock calm_read calm_write calm_Unlock)

text \<open>At most one of them is between its \<open>Lock\<close> and its \<open>Unlock\<close>, and only that one may be writing.\<close>

definition one_in :: "memgo list \<Rightarrow> memstate \<Rightarrow> bool" where
  "one_in ps s \<longleftrightarrow>
     (if ms_lock s then \<exists>i < length ps. calm (ps ! i) True (ms_writing s) \<and>
          (\<forall>j < length ps. j \<noteq> i \<longrightarrow> calm (ps ! j) False False)
      else \<not> ms_writing s \<and> (\<forall>p \<in> set ps. calm p False False))"

lemma calm_step:
  assumes "calm p h w" "proc_step p s = Some (q, s')" "ms_lock s = h" "ms_writing s = w"
  shows "(ms_writing s' \<longrightarrow> ms_lock s') \<and> calm q (ms_lock s') (ms_writing s')"
  using assms by (cases p) (auto split: if_splits)

lemma calm_blocked: "calm p False False \<Longrightarrow> ms_lock s \<Longrightarrow> proc_step p s = None"
  by (cases p) (auto simp: not_Some_eq [symmetric] simp del: not_Some_eq)

lemma one_in_step:
  assumes "one_in ps s" "i < length ps" "proc_step (ps ! i) s = Some (q, s')"
  shows "one_in (ps[i := q]) s'"
proof -
  have "calm (ps ! i) (ms_lock s) (ms_writing s) \<and> (\<forall>j < length ps. j \<noteq> i \<longrightarrow> calm (ps ! j) False False)"
  proof (cases "ms_lock s")
    case True
    then obtain m where m: "m < length ps" "calm (ps ! m) True (ms_writing s)"
      "\<forall>j < length ps. j \<noteq> m \<longrightarrow> calm (ps ! j) False False" using assms(1) by (auto simp: one_in_def)
    then have "i = m" using calm_blocked [OF _ True] assms(2,3) by fastforce
    then show ?thesis using m True by simp
  qed (use assms in \<open>simp add: one_in_def\<close>)
  then have "(ms_writing s' \<longrightarrow> ms_lock s') \<and> calm q (ms_lock s') (ms_writing s')"
    and o: "\<And>j. j < length ps \<Longrightarrow> j \<noteq> i \<Longrightarrow> calm (ps ! j) False False"
    using calm_step [OF _ assms(3)] by blast+
  note q = this
  show ?thesis
  proof (cases "ms_lock s'")
    case True
    then show ?thesis using q o assms(2) unfolding one_in_def by (auto intro!: exI [of _ i])
  next
    case False
    then have "\<forall>p \<in> set (ps[i := q]). calm p False False"
      using q o assms(2) by (auto simp: in_set_conv_nth nth_list_update)
    then show ?thesis using q False by (simp add: one_in_def)
  qed
qed

lemma one_in_alive: "one_in ps s \<Longrightarrow> Ret MFatal \<notin> set ps"
proof
  assume o: "one_in ps s" and "Ret MFatal \<in> set ps"
  then obtain j where j: "j < length ps" "ps ! j = Ret MFatal" by (auto simp: in_set_conv_nth)
  have "\<exists>h w. calm (ps ! j) h w" using o j(1) unfolding one_in_def by (metis nth_mem)
  then show False using j(2) by simp
qed

lemma mem_run_keeps:
  assumes step: "\<And>ps s i q s'. P ps s \<Longrightarrow> i < length ps \<Longrightarrow> proc_step (ps ! i) s = Some (q, s') \<Longrightarrow> P (ps[i := q]) s'"
  shows "P ps s \<Longrightarrow> P (fst (mem_run is ps s)) (snd (mem_run is ps s))"
proof (induction "is" arbitrary: ps s)
  case (Cons i "is")
  then show ?case using step [OF Cons.prems, of i] by (simp split: option.split)
qed simp

lemma no_range_no_death: "\<forall>c \<in> set calls. \<not> is_range c \<Longrightarrow> \<not> mem_dies calls is m"
  unfolding mem_dies_def
  by (rule one_in_alive, rule mem_run_keeps [of one_in, OF one_in_step]) (auto simp: one_in_def calm_call)

text \<open>Calls that find nothing to write leave the map alone.\<close>

definition idle :: "(string, string) gomap \<Rightarrow> memgo \<Rightarrow> bool" where
  "idle m = keeps (\<lambda>s. ms_map s = m \<and> \<not> ms_writing s) (\<lambda>_ s. ms_map s = m \<and> \<not> ms_writing s) (\<lambda>a. a \<noteq> MFatal)"

lemma idle_rules:
  "idle m k \<Longrightarrow> idle m (mem_Lock k)" "idle m k \<Longrightarrow> idle m (mem_Unlock k)"
  "idle m (f m) \<Longrightarrow> idle m (map_read f)" "a \<noteq> MFatal \<Longrightarrow> idle m (Ret a)"
  by (simp_all add: idle_def mem_Lock_def mem_Unlock_def map_read_def)

lemma idle_rangeLoop: "idle m (rangeLoop lo hi ks acc)"
  by (induction ks arbitrary: acc) (auto split: option.split intro!: idle_rules)

definition writes_to :: "(string, string) gomap \<Rightarrow> mem_call \<Rightarrow> bool" where
  "writes_to m c \<longleftrightarrow> (case c of MemStore k v \<Rightarrow> True | MemDelete k \<Rightarrow> gm_get m k \<noteq> None | _ \<Rightarrow> False)"

lemma idle_call: "\<not> writes_to m c \<Longrightarrow> idle m (mem_steps c)"
  by (cases c) (auto simp: writes_to_def mem_Get_def mem_Delete_def mem_GetRange_def
      intro!: idle_rules idle_rangeLoop)

lemma no_write_no_death:
  assumes "\<forall>c \<in> set calls. \<not> writes_to m c"
  shows "\<not> mem_dies calls is m"
proof -
  let ?P = "\<lambda>ps s. (\<forall>p \<in> set ps. idle m p) \<and> ms_map s = m \<and> \<not> ms_writing s"
  have "?P (ps[i := q]) s'" if "?P ps s" "i < length ps" "proc_step (ps ! i) s = Some (q, s')" for ps s i q s'
  proof -
    have "ms_map s' = m \<and> \<not> ms_writing s' \<and> idle m q"
      using keeps_step [OF _ _ that(3)] that(1) nth_mem [OF that(2)] unfolding idle_def by blast
    then show ?thesis using that(1) set_update_subset_insert [of ps i q] by blast
  qed
  note step = this
  have "?P (fst (mem_run is (map mem_steps calls) (mem_free m))) (snd (mem_run is (map mem_steps calls) (mem_free m)))"
    by (rule mem_run_keeps [of ?P, OF step]) (use assms idle_call in auto)
  then have "\<forall>p \<in> set (fst (mem_run is (map mem_steps calls) (mem_free m))). idle m p"
    by blast
  then show ?thesis unfolding mem_dies_def by (auto simp: idle_def)
qed

section \<open>A range beside a write\<close>

lemma range_meets_write:
  assumes "MemRange lo hi \<in> set calls" "c \<in> set calls" "writes_to m c"
  shows "\<exists>is. mem_dies calls is m"
proof -
  obtain i where i: "i < length calls" "calls ! i = MemRange lo hi" using assms(1) by (auto simp: in_set_conv_nth)
  obtain j where j: "j < length calls" "calls ! j = c" using assms(2) by (auto simp: in_set_conv_nth)
  have ne: "i \<noteq> j" using i j assms(3) by (auto simp: writes_to_def)
  show ?thesis
  proof (cases c)
    case (MemStore k v)
    have "mem_dies calls [j, j, i] m"
      using i j ne by (simp add: MemStore mem_dies_def mem_defs await_def set_update_memI)
    then show ?thesis by blast
  next
    case (MemDelete k)
    have "mem_dies calls [j, j, j, i] m"
      using i j ne assms(3)
      by (auto simp add: MemDelete writes_to_def mem_dies_def mem_defs await_def set_update_memI)
    then show ?thesis by blast
  qed (use assms(3) in \<open>auto simp: writes_to_def\<close>)
qed

text \<open>
  C24: With the memory back end (the default URL of the store is mem:), goroutines that each
  make one call of the store at the same time can run so that the process dies on its map
  exactly when one of them reads a range and another one stores a key or deletes one that is
  there: GetRange goes over the map without the mutex that the other calls hold. Any number of
  Get, Store and Delete, or of Get and GetRange, never dies, in whatever order they take their
  steps.
\<close>

theorem mem_range_fatal:
  "(\<exists>is. mem_dies calls is m) \<longleftrightarrow>
     (\<exists>lo hi. MemRange lo hi \<in> set calls) \<and>
     ((\<exists>k v. MemStore k v \<in> set calls) \<or> (\<exists>k. MemDelete k \<in> set calls \<and> gm_get m k \<noteq> None))"
proof -
  have r: "is_range c \<longleftrightarrow> (\<exists>lo hi. c = MemRange lo hi)" for c by (cases c) simp_all
  have w: "writes_to m c \<longleftrightarrow> (\<exists>k v. c = MemStore k v) \<or> (\<exists>k. c = MemDelete k \<and> gm_get m k \<noteq> None)" for c
    by (cases c) (auto simp: writes_to_def)
  have "(\<exists>is. mem_dies calls is m) \<longleftrightarrow> (\<exists>c \<in> set calls. is_range c) \<and> (\<exists>c \<in> set calls. writes_to m c)"
    using no_range_no_death no_write_no_death range_meets_write r by metis
  then show ?thesis unfolding r w by blast
qed

end
