(* ===== verification/Spec2Isabelle.thy ===== *)
theory Spec2Isabelle
  imports Lifecycle Backoff Profiling CacheConc ParamsConc Emulator MemStore
begin

text \<open>
  The Cray HMS notification fan-out daemon, hmnfd, in Isabelle/HOL.

  The program. Services subscribe to state changes of hardware components, through the v1 API
  (cmd/hmi-nfd/api.go) or the v2 API (api_v2.go). A subscription is one entry of a key/value
  store: its key packs the component of the subscriber, the attributes it asks for and the
  agent, its value the URL to call and the components of interest. Subscriptions also go,
  through a channel, to the thread that subscribes to the hardware state manager HSM
  (fanout.go). HSM posts its notifications to /scn; they are merged in a cache and queued in
  batches; a thread takes each batch, finds the subscriptions whose key holds one of its
  attributes and whose components it names, and queues one job per subscription to a pool of
  workers (worker_jobs.go, and worker-pool.go of hms-base). A worker posts the notification to
  the URL, with retries. Subscribers that are deleted, become unavailable or do not answer are
  put into the prune map, and a thread removes their subscriptions every ten seconds.

  The theories, in the order in which they build on each other:

  \<^item> GoLib: the prelude. Go strings are lists of bytes, maps are association lists without
    duplicates, a slice expression out of range is \<open>None\<close>. Json:
    \<open>encoding/json\<close>, a parser, a printer, and the decoding of objects into records.
    Http: requests and response writers.
  \<^item> KvStore: the store, with every call as one step. The contents and operations are those
    of the memory back end of hms-hmetcd; a script says which calls are lost or answered too late.
    The locales \<open>kv_iface\<close>, \<open>codec\<close> and \<open>kv_records\<close>
    state what the clients rely on and are interpreted on the model of the code. MemStore: the
    memory back end one access to its map at a time.
  \<^item> Xname: which component names are valid, with the table of regular expressions of
    hms-xname.
  \<^item> ScnTypes: the structs of api.go and their JSON. SubKey: building the key of a
    subscription and the three different ways in which the program takes it apart.
  \<^item> Subscribe and SubscribeV2: the handlers that list, make, change and delete
    subscriptions.
  \<^item> Posts: the POST handlers cut into the steps between which other requests run.
  \<^item> Jobs: the send job, the interface of jobs (locale \<open>job_iface\<close>), the
    retry loop. Backoff: the pauses between its attempts. WorkerPool: the pool as a step
    relation, whose events are the atomic steps of its goroutines. Fanout: \<open>doScn\<close>.
    ScnCache: \<open>scnHandler\<close> and the cache timer. CacheConc: the same with the mutex
    of the cache and the bounded channel \<open>scnQ\<close>, in any interleaving. Prune: the
    pruning thread. Deadwood: the check of dead nodes at the start.
  \<^item> Hsm: the tracker of what HSM has been asked for, the request, the subscriber loop,
    the mandatory subscription. Params: parameters from the environment, the command line and
    /params. ParamsConc: PATCH requests on /params at the same time. Telemetry: the copy of each
    notification to Kafka. Health: the three probes. Startup: the first part of
    \<open>main\<close>. Router: the table of routes and the router of gorilla/mux. Profiling:
    the routes that the build tag pprof adds.
  \<^item> StoreInv: what each operation can do to the store. Service: the abstract service, a
    map of subscriptions with one rule per operation (\<open>service_step\<close>), and the
    locale \<open>simulation\<close>, interpreted on the handlers and rounds of the program.
    Server: the state of one process, the request handlers on it, and the goroutines that do not
    share the prune map.
  \<^item> Proc: goroutines as resumptions, with what every schedule keeps
    (\<open>keeps\<close>), a discipline for one lock (\<open>disciplined\<close>) and the end
    of every schedule (\<open>progress\<close>). Steps: the subscription handlers,
    \<open>prune\<close>, \<open>doScn\<close>, \<open>pruneDeadWood\<close> and the jobs of the
    workers as resumptions, whose steps are their calls of the store and their accesses to the
    prune map and its lock; the health and readiness probes, with their two looks at
    \<open>msgbusHandle\<close>. Conc: the process with any number of them interleaved. Lifecycle:
    the end of \<open>main\<close>, from the start of the HTTP server to the exit of the
    process.
  \<^item> Emulator: the fake subscriber of test/fake-subscriber, which subscribes to hmnfd and
    keeps the last notification it was sent; its messages and those of hmnfd fit each other.

  What the lemmas show. Each handler has its behaviour on a store that answers, as an equation
  between maps of subscriptions (\<open>subscriptions\<close>), and what remains true of it when
  the store loses calls or answers late. The fan-out is exact: its jobs are those of the set
  \<open>recipients\<close>, which is defined without the loops of the code, and the pool runs
  every job it was given once; a theorem of this file puts both together. The cache neither
  loses nor reorders, and its batches are homogeneous; CacheConc shows that its goroutines,
  which hold the mutex while they wait for room in the channel, act as the handlers in the order
  in which they got it (\<open>cs_inv\<close>), and that each comes to its end. Service puts the
  handlers and the rounds that work on subscriptions together: on a store that answers every run
  of them is a run of the abstract service (\<open>sub_step_sim\<close>), on which is decided
  which subscriptions stay. Emulator goes once round, from a subscription that a client sends to
  the notification it gets.

  The theories up to Server have a handler or a round of a goroutine as one step. Steps proves
  that this is what its resumption does when nobody else is about (\<open>runs_as\<close>), and
  Conc lets them take their steps in every order: with clean subscriptions and a store behind
  etcd nothing panics but a probe (\<open>conc_safe\<close>), the prune map is only written under
  its lock and nobody waits for ever (\<open>conc_fair\<close>), and every schedule is finite.
  What the interleavings do break is shown on POST (Posts), on PATCH and DELETE and on the probes
  (Conc), on /params (ParamsConc) and on the map of the memory back end (MemStore), and what a
  signal cuts short in Lifecycle. The theorems of this file span components; several of them are
  runs in which the program does what it should not.

  Conventions. A panic is \<open>None\<close> in a handler, where net/http catches it, and the
  flag \<open>crashed\<close> in a goroutine, where it ends the process. Loops over a list are
  recursions over it; the retry loops end by a measure; the parser of Json gets as fuel the
  length of its input, and the number of steps of the pool is bounded by
  \<open>pool_work\<close>. A loop that waits for the outside world (for HSM, for the store)
  gets the outcomes of its attempts as a list or a function, over which the theorems quantify.
  Integers are \<open>int\<close> where the program cannot get them out of range and 64-bit
  words where it can (\<open>env_parse_int\<close>). Nil and empty slices are the same value.
  Strings stand for valid UTF-8 where they are printed as JSON; \<open>strings.ToLower\<close> is
  the one of ASCII. Map iteration order is the order of
  insertion, where it shows (\<open>makeHSMSubInfo\<close>).

  Simplifications. Every channel has its bound (the channel of notifications in CacheConc; in
  Conc it holds any number), except that the HSM thread itself can always put back what HSM
  refused. In Conc the handlers of /scn (by CacheConc they have the effect of single steps), of
  /params (ParamsConc has their steps, none of which touches a subscription) and a round of the
  HSM thread are one step each, and a job uses the number of retries that was
  in force when it began. A call of the store is one step in Conc, which is what etcd gives:
  nothing is said there of the memory back end, whose ranges read a map that others write and can
  end the process (MemStore). Variables of several words that goroutines read and write without a
  lock, the parameters and \<open>msgbusHandle\<close> among them, are never seen half written. The
  range of keys includes its end, as in the memory back end, while
  etcd leaves the end out; no key that the program builds is there. An error of
  \<open>http.NewRequest\<close> counts as a request that HSM does not accept. The query part of
  a path and the text of the pages that net/http makes for redirections are left out, and so are
  the texts of errors of the JSON decoder, which are parameters.

  Not modelled. Logging. The etcd client, the network, Kafka and HSM, which are parameters or
  events. What the pages of net/http/pprof hold. Of the vendored libraries only what hmnfd
  calls.
\<close>

definition scn_post :: "string \<Rightarrow> request" where
  "scn_post body = \<lparr>rq_method = ''POST'', rq_path = ''/hmi/v1/scn'', rq_vars = [], rq_body = body, rq_err = False\<rparr>"

definition stale_events :: "cevent list" where
  "stale_events =
     [Notify ''t1'' (scn_post ''{\"Components\":[\"x0c0s0b0n0\"],\"Enabled\":false,\"State\":\"Ready\"}''),
      Notify ''t2'' (scn_post ''{\"Components\":[\"x0c0s0b0n1\"],\"State\":\"On\"}''),
      Timer ''t3'']"

text \<open>
  C39: When the first notification taken in says that its components are disabled, a second one
  of another state that has no Enabled member goes out with the timer, whatever the limit, in a
  batch that says its components are disabled, and the fan-out puts all of them into the prune
  map: the cache kept the Enabled of the batch before.
\<close>

theorem stale_enabled:
  assumes "rq_method r1 = ''POST''" "rq_method r2 = ''POST''"
    and "unmarshal_Scn (rq_body r1) = Some s1" "unmarshal_Scn (rq_body r2) = Some s2"
    and "scnEnabled s1 = Some False" "scnEnabled s2 = None" "scnState s1 \<noteq> scnState s2"
    and "scnComponents s1 \<noteq> []" "scnComponents s2 \<noteq> []"
  shows "\<exists>b1 b2. scnQ (crun mx [Notify t1 r1, Notify t2 r2, Timer t3]) = [b1, b2] \<and>
    scnComponents b2 = scnComponents s2 \<and> scnState b2 = scnState s2 \<and> scnEnabled b2 = Some False \<and>
    (\<forall>st. \<forall>c \<in> set (scnComponents s2). gm_flag (ss_prune (snd (doScn b2 st))) (to_lower c))"
proof -
  let ?b2 = "(jdcDeepCopy s2 ((jdcDeepCopy s1 Scn0)\<lparr>scnTimestamp := t2\<rparr>))\<lparr>scnTimestamp := t3\<rparr>"
  have q: "scnQ (crun mx [Notify t1 r1, Notify t2 r2, Timer t3]) = [(jdcDeepCopy s1 Scn0)\<lparr>scnTimestamp := t2\<rparr>, ?b2]"
    using assms by (simp add: crun_def scnHandler_def cache_scn_def checkSCNCache_def send_cache_def cache_init_def
        Scn0_def Let_def jdcDeepCopy_def scnCacheEqual_def)
  have b2: "scnComponents ?b2 = scnComponents s2" "scnState ?b2 = scnState s2" "scnEnabled ?b2 = Some False"
    using assms(5,6) by (simp_all add: jdcDeepCopy_def)
  then have "isStateUnavailable ?b2" by (simp add: isStateUnavailable_def)
  then have "gm_flag (ss_prune (snd (doScn ?b2 st))) (to_lower c)" if "c \<in> set (scnComponents s2)" for st c
    using that b2(1) by (auto simp: doScn_def Let_def gm_flag_fold_put scnToLower_def split: prod.split sum.split)
  then show ?thesis using q b2 by blast
qed

theorem stale_enabled_witness:
  "\<exists>b1 b2. scnQ (crun 100 stale_events) = [b1, b2] \<and> scnComponents b2 = [''x0c0s0b0n1''] \<and> scnState b2 = ''On'' \<and>
     scnEnabled b2 = Some False"
proof -
  let ?r1 = "scn_post ''{\"Components\":[\"x0c0s0b0n0\"],\"Enabled\":false,\"State\":\"Ready\"}''"
    and ?r2 = "scn_post ''{\"Components\":[\"x0c0s0b0n1\"],\"State\":\"On\"}''"
  have m: "rq_method (scn_post b) = ''POST''" for b by (simp add: scn_post_def)
  have u: "unmarshal_Scn (rq_body ?r1) = Some (Scn0\<lparr>scnComponents := [''x0c0s0b0n0''], scnEnabled := Some False, scnState := ''Ready''\<rparr>)"
    "unmarshal_Scn (rq_body ?r2) = Some (Scn0\<lparr>scnComponents := [''x0c0s0b0n1''], scnState := ''On''\<rparr>)"
    by code_simp+
  show ?thesis
    using stale_enabled [OF m m u, of 100 "''t1''" "''t2''" "''t3''"] by (auto simp: stale_events_def Scn0_def)
qed

definition bare_body :: string where
  "bare_body = ''{\"Subscriber\":\"mon@x0c0s0b0n0\",\"States\":[\"ready\"],\"Url\":\"http://b\"}''"

definition bare_sub :: ScnSubscribe where
  "bare_sub = ScnSubscribe0\<lparr>subSubscriber := ''mon@x0c0s0b0n0'', subStates := [''ready''], subUrl := ''http://b''\<rparr>"

definition ex_ready :: Scn where
  "ex_ready = Scn0\<lparr>scnComponents := [''x0c0s9b0n0''], scnState := ''Ready''\<rparr>"

text \<open>
  C38: A v2 PATCH without Components that meets one subscription is answered with 204, on any
  store that answers and whose subscriptions can be delivered to; any notification it asks for,
  whose subscriber is not being pruned, then makes the fan-out panic on the empty list, which
  ends the process.
\<close>

theorem bare_patch_crash:
  assumes "store_up st" "deliverable st" "\<not> rq_err r" "VerifyNormalizeCompID (rq_var r ''xname'') = xn" "hmsTypeValid xn"
    and "unmarshal_ScnSubscribe (to_lower (rq_body r)) = Some j" "subComponents j = []"
    and "KEY_DELIM \<notin> set xn" "KEY_DELIM \<notin> set (rq_var r ''agent'')" "\<forall>x \<in> set (sub_attrs j). KEY_DELIM \<notin> set x"
    and "patchRange j = Some (lo, hi)" "entries_patchable lo hi st"
    and "patch_hits (patch_hit_v2 xn (rq_var r ''agent'')) lo hi st = {key}"
    and "asks_for j scn" "xn \<notin> left_out scn st"
  shows "\<exists>w st1. subscriptionsAgentPatchHandler r st = (Some w, st1) \<and> status_of w = 204 \<and> fst (fst (doScn scn st1))"
proof -
  let ?k = "makeSubscriptionKey_V2 j xn (rq_var r ''agent'')"
  have xn: "xn \<noteq> []" using hmsTypeValid_head [OF assms(5)] by auto
  obtain st1 where p: "subscriptionsAgentPatchHandler r st = (Some (writeHeader 204 new_writer), st1)" "store_up st1"
    "ss_prune st1 = ss_prune st"
    "kv_content (ss_kv st1) = ((kv_content (ss_kv st))(key := None))(?k \<mapsto> marshal_SubData (entry_of j))"
    using agent_patch_content [OF assms(1,3,4) xn assms(6,11-13)] by blast
  have "subscriptions st1 k \<noteq> None" if "k \<in> dom (kv_content (ss_kv st1))" "in_range k" for k
  proof (cases "k = ?k")
    case False
    then have "k \<in> dom (kv_content (ss_kv st))" "kv_content (ss_kv st1) k = kv_content (ss_kv st) k"
      using that(1) by (auto simp: p(4) split: if_splits)
    then show ?thesis using assms(2) that(2) by (fastforce simp: deliverable_def subscriptions_def)
  qed (simp add: subscriptions_def p(4) SubData_round)
  moreover have "subscriptions st1 ?k = Some (entry_of j)" "sdScnNodes (entry_of j) = []"
    using assms(7) by (simp_all add: subscriptions_def p(4) SubData_round entry_of_def)
  moreover have "key_component ?k \<notin> left_out scn st1"
    using assms(15) key_component_makeKey [OF assms(8-10)] p(3) by (simp add: left_out_def split: if_splits)
  ultimately have "fst (fst (doScn scn st1))"
    using doScn_crashes [OF p(2)] valid_key_in_range [OF assms(5)] asks_for_match [OF assms(14)] by fast
  then show ?thesis using p(1) by (auto simp: status_of_def)
qed

theorem bare_patch_crash_witness:
  "\<exists>w st1. subscriptionsAgentPatchHandler (ex_request ''PATCH'' bare_body) ex_one = (Some w, st1) \<and>
     status_of w = 204 \<and> fst (fst (doScn ex_ready st1))"
proof -
  have u: "unmarshal_ScnSubscribe (to_lower (rq_body (ex_request ''PATCH'' bare_body))) = Some bare_sub"
    unfolding ex_var by code_simp
  have p: "patchRange bare_sub = Some (''sub#x0c0s0b0n0'', ''sub#x0c0s0b0n0z'')" by code_simp
  have b: "hmsTypeValid ''x0c0s0b0n0''" "subComponents bare_sub = []" "KEY_DELIM \<notin> set ''x0c0s0b0n0''" "KEY_DELIM \<notin> set ''mon''"
    "\<forall>x \<in> set (sub_attrs bare_sub). KEY_DELIM \<notin> set x" "asks_for bare_sub ex_ready" "\<not> isStateUnavailable ex_ready"
    by code_simp+
  have e: "entries_patchable ''sub#x0c0s0b0n0'' ''sub#x0c0s0b0n0z'' ex_one"
    by (simp add: entries_patchable_def ex_content ex_values ex_subscriptions)
  have n: "''x0c0s0b0n0'' \<notin> left_out ex_ready ex_one" using b(7) by (simp add: left_out_def)
  show ?thesis
    by (rule bare_patch_crash [OF ex_up(2) ex_deliverable _ ex_var(1) b(1) u b(2,3) _ b(5) p e _ b(6) n])
      (use ex_patch_hits b(4) in \<open>simp_all add: ex_var\<close>)
qed

text \<open>
  A subscription made again between its deletion and the next round of pruning is accepted with
  200 and then removed by that round.
\<close>

lemma resubscribe_lost:
  "\<exists>w1 st1 w2 st2 st3.
     subscriptionsAgentDeleteHandler (ex_request ''DELETE'' []) ex_one = (Some w1, st1) \<and>
     subscriptionsAgentPostHandler (ex_request ''POST'' ex_body) st1 = (Some w2, st2) \<and>
     status_of w2 = 200 \<and> kv_mem (ss_kv st2) \<noteq> [] \<and>
     prune_round st2 = (False, st3) \<and> kv_mem (ss_kv st3) = []"
proof -
  have "(case subscriptionsAgentDeleteHandler (ex_request ''DELETE'' []) ex_one of
      (Some w1, st1) \<Rightarrow>
        (case subscriptionsAgentPostHandler (ex_request ''POST'' ex_body) st1 of
           (Some w2, st2) \<Rightarrow> status_of w2 = 200 \<and> kv_mem (ss_kv st2) \<noteq> [] \<and>
             (case prune_round st2 of (c, st3) \<Rightarrow> \<not> c \<and> kv_mem (ss_kv st3) = []) | _ \<Rightarrow> False)
      | _ \<Rightarrow> False)"
    by code_simp
  then show ?thesis by (auto split: prod.splits option.splits)
qed

definition svc_body :: string where
  "svc_body = ''{\"Subscriber\":\"x0c0s0b0n0\",\"Components\":[\"x0c0s1b0n0\"],\"Roles\":[\"svc\"],\"Url\":\"http://b\"}''"

definition svc_sub :: ScnSubscribe where
  "svc_sub = ScnSubscribe0\<lparr>subSubscriber := ''x0c0s0b0n0'', subComponents := [''x0c0s1b0n0''], subRoles := [''svc''],
     subUrl := ''http://b''\<rparr>"

text \<open>
  C40: A v1 POST of a subscription whose key has its first svc at the very end, as one to the
  role svc without sub-roles, is accepted; as long as the entry is in the store, whatever else
  is, every round of pruning that has something in its map panics on that key.
\<close>

theorem svc_role_crash:
  assumes "store_up st" "\<not> rq_err r" "unmarshal_ScnSubscribe (to_lower (rq_body r)) = Some j" "checkSubscription_v1 j = None"
    and "subSubscriber j = xn" "SVC_DELIM \<notin> set xn" "to_lower xn = xn" "hmsTypeValid xn"
    and "makeSubscriptionKey_V2 j xn [] = key" "index_of key ''svc'' + 3 = int (length key)" "kv_content (ss_kv st) key = None"
  shows "\<exists>w st1. doSubscribePost r st = (Some w, st1) \<and> status_of w = 200 \<and> kv_content (ss_kv st1) key \<noteq> None \<and>
    (\<forall>st2. store_up st2 \<and> kv_content (ss_kv st2) key \<noteq> None \<and> ss_prune st2 \<noteq> [] \<longrightarrow> fst (prune_round st2))"
proof -
  have k: "makeSubscriptionKey_V1 j = key"
    using assms(5-7,9) by (simp add: makeSubscriptionKey_V1_def split_on_no_delim)
  have "doSubscribePost r st = storeNew ''/subscribe'' j key new_writer st"
    using assms(2-8) k index_of_char [OF assms(6)] by (simp add: doSubscribePost_def Let_def)
  then obtain w st1 where p: "doSubscribePost r st = (Some w, st1)" "storeNew ''/subscribe'' j key new_writer st = (Some w, st1)"
    "status_of w = 200"
    using storeNew_up [OF assms(1), of "''/subscribe''" j key] assms(11) by auto
  have "kv_content (ss_kv st1) key \<noteq> None" using storeNew_status [OF p(2)] p(3) by auto
  moreover have "in_range key" using valid_key_in_range [OF assms(8)] assms(9) by blast
  ultimately show ?thesis using p(1,3) prune_round_panics svc_at_end assms(10) by blast
qed

theorem svc_role_crash_witness:
  "\<exists>w st1. doSubscribePost (ex_request ''POST'' svc_body) (ex_store [] []) = (Some w, st1) \<and> status_of w = 200 \<and>
     kv_content (ss_kv st1) ''sub#x0c0s0b0n0#roles.svc'' \<noteq> None"
proof -
  have u: "unmarshal_ScnSubscribe (to_lower (rq_body (ex_request ''POST'' svc_body))) = Some svc_sub"
    unfolding ex_var by code_simp
  have c: "checkSubscription_v1 svc_sub = None" "to_lower ''x0c0s0b0n0'' = ''x0c0s0b0n0''" "hmsTypeValid ''x0c0s0b0n0''"
    "makeSubscriptionKey_V2 svc_sub ''x0c0s0b0n0'' [] = ''sub#x0c0s0b0n0#roles.svc''"
    "index_of ''sub#x0c0s0b0n0#roles.svc'' ''svc'' + 3 = int (length ''sub#x0c0s0b0n0#roles.svc'')"
    by code_simp+
  show ?thesis
    using svc_role_crash [OF ex_up(1) _ u c(1) _ _ c(2,3,4,5)] by (auto simp: ex_var svc_sub_def ex_content)
qed

definition monitor_key :: string where
  "monitor_key = ''sub#x0c0s0b0n0#hs.ready#svc.monitor''"

text \<open>
  The match on attributes is a search for a substring in the whole key: an agent named monitor
  that asked for the state Ready only is sent a notification of the state On.
\<close>

lemma over_match:
  "makeSubscriptionKey_V2 (ScnSubscribe0\<lparr>subStates := [''Ready'']\<rparr>) ''x0c0s0b0n0'' ''monitor'' = monitor_key \<and>
   \<not> asks_for (ScnSubscribe0\<lparr>subStates := [''Ready'']\<rparr>) ex_scn \<and> scnState ex_scn = ''On'' \<and>
   (\<exists>jb. fst (doScn ex_scn (ex_store [] [(monitor_key, ex_val)])) = (False, [jb]) \<and>
      jobSCNData jb = sendData_of ex_scn [''x0c0s1b0n0''] \<and> jobSubscriber jb = ''x0c0s0b0n0'')"
proof -
  have "makeSubscriptionKey_V2 (ScnSubscribe0\<lparr>subStates := [''Ready'']\<rparr>) ''x0c0s0b0n0'' ''monitor'' = monitor_key"
    "\<not> asks_for (ScnSubscribe0\<lparr>subStates := [''Ready'']\<rparr>) ex_scn" "scnState ex_scn = ''On''"
    by code_simp+
  moreover have "case fst (doScn ex_scn (ex_store [] [(monitor_key, ex_val)])) of (False, [jb]) \<Rightarrow>
      jobSCNData jb = sendData_of ex_scn [''x0c0s1b0n0''] \<and> jobSubscriber jb = ''x0c0s0b0n0'' | _ \<Rightarrow> False"
    by code_simp
  ultimately show ?thesis by (auto split: prod.splits bool.splits list.splits)
qed

text \<open>
  C30: Once HSM has accepted what is in the queue after the start, the program hears of
  everything it prunes for: whenever a notification makes its components unavailable, HSM has
  accepted a subscription to its state, or the notification says that they are not enabled and
  HSM has accepted a subscription to that.
\<close>

theorem unavailability_heard:
  assumes "Nosm p = 0" "\<forall>r \<in> set replies. hsm_accepts r" "length replies = length queue + 1"
    and "st = hsm_rounds host p replies (subscribeMandatoryScn p (hsm_start queue kv))"
    and "isStateUnavailable scn"
  shows "(\<exists>s \<in> set (h_subscribed st). (KState, to_lower (scnState scn)) \<in> wants s) \<or>
    scnEnabled scn = Some False \<and> (\<exists>s \<in> set (h_subscribed st). subEnabled s = Some True)"
proof -
  let ?q = "queue @ [mandatory_scn p]"
  have "subscribeMandatoryScn p (hsm_start queue kv) = hsm_start ?q kv"
    by (simp add: subscribeMandatoryScn_def hsm_start_def)
  then have "h_subscribed st = cover ?q []"
    using hsm_rounds_cover [OF hsm_inv_start assms(1,2), of ?q kv host] assms(3,4) by (simp add: hsm_start_def)
  then have "hsm_covered (mandatory_scn p) (h_subscribed st)" using cover_covers by simp
  moreover have "(KState, to_lower (scnState scn)) \<in> wants (mandatory_scn p) \<or>
      scnEnabled scn = Some False \<and> subEnabled (mandatory_scn p) = Some True"
    using assms(5) by (auto simp: isStateUnavailable_def wants_def mandatory_scn_def ScnSubscribe0_def)
  ultimately show ?thesis unfolding hsm_covered_def by blast
qed

theorem unavailability_heard_witness:
  "\<exists>st s. st = hsm_rounds ''pod'' (default_params\<lparr>Nosm := 0\<rparr>) [HsmStatus 200, HsmStatus 202]
       (subscribeMandatoryScn (default_params\<lparr>Nosm := 0\<rparr>) (hsm_start [ex_sub_on] kv_open)) \<and>
     s \<in> set (h_subscribed st) \<and> (KState, ''off'') \<in> wants s"
proof -
  have "isStateUnavailable ex_off" "to_lower (scnState ex_off) = ''off''" "scnEnabled ex_off = None"
    by code_simp+
  then show ?thesis
    using unavailability_heard [of "default_params\<lparr>Nosm := 0\<rparr>" "[HsmStatus 200, HsmStatus 202]" "[ex_sub_on]"
        _ "''pod''" kv_open ex_off]
    by (auto simp: hsm_accepts_def)
qed

text \<open>What \<open>doScn\<close> hands to the pool for a job.\<close>

definition job_event :: "JobSCNSend \<Rightarrow> pool_event" where
  "job_event jb = Submit (jobSCNData jb) (jobSubscriber jb) (jobUrl jb)"

lemma submitted_jobs: "submitted (map job_event jobs) = map payload jobs"
  by (induction jobs) (simp_all add: job_event_def payload_def)

text \<open>
  C8: From the notification to the workers: a pool that was given the jobs of a notification and
  has nothing left to do has started, in order, and finished one job for each recipient of the
  notification, with the URL, the subscriber and the filtered notification that the fan-out
  computed for it, and no other job.
\<close>

theorem every_match_is_sent:
  assumes "store_up st" "deliverable st" "doScn jdata st = ((crashed, jobs), st')"
    and "pool_run es (NewWorkerPool n m) = Some p" "\<forall>e \<in> set es. hmnfd_event e" "0 < n"
    and "submitted es = map payload jobs" "\<forall>e. internal_event e \<longrightarrow> pool_step e p = None"
  shows "\<exists>ks. distinct ks \<and> set ks = recipients jdata st \<and>
    map (\<lambda>a. payload (pl_jobs p a)) (pl_started p) =
      map (\<lambda>k. payload (job_for jdata k (the (subscriptions st k)))) ks \<and>
    mset (pl_done p) = mset (pl_started p) \<and> distinct (pl_started p)"
proof -
  obtain ks where ks: "jobs = map (\<lambda>k. job_for jdata k (the (subscriptions st k))) ks" "distinct ks"
    "set ks = recipients jdata st"
    using doScn_run [OF assms(1,2), of jdata] assms(3) by auto
  have "pool_reach n m hmnfd_event p" by (rule pool_reach_run [OF pool_reach.fresh assms(5,4)])
  note fin = pool_stuck [OF this assms(6,8)]
  have "map (\<lambda>a. payload (pl_jobs p a)) [0..<pl_next p] = map payload jobs"
    using payload_run [OF assms(4)] assms(7) by (simp add: NewWorkerPool_def)
  then show ?thesis using ks fin by (intro exI [of _ ks]) (simp add: o_def del: mset_upt)
qed

theorem every_match_is_sent_witness:
  "\<exists>jobs st' p. doScn ex_scn ex_one = ((False, jobs), st') \<and> length jobs = 1 \<and>
     pool_run (map job_event jobs @ ex_run) (NewWorkerPool 1 5) = Some p \<and> mset (pl_done p) = mset (pl_started p) \<and>
     length (pl_started p) = card (recipients ex_scn ex_one)"
proof -
  have "case doScn ex_scn ex_one of ((c, jobs), st') \<Rightarrow> \<not> c \<and> length jobs = 1 \<and>
      (case pool_run (map job_event jobs @ ex_run) (NewWorkerPool 1 5) of
         Some p \<Rightarrow> pl_queue p = [] \<and> pl_disp p = DIdle \<and> pl_marks p = [] \<and> pl_stops p = 0 \<and>
           pl_workers p = replicate 1 WWait
       | None \<Rightarrow> False)"
    by code_simp
  then obtain jobs st' p where d: "doScn ex_scn ex_one = ((False, jobs), st')" "length jobs = 1"
    and p: "pool_run (map job_event jobs @ ex_run) (NewWorkerPool 1 5) = Some p"
      "pl_queue p = []" "pl_disp p = DIdle" "pl_marks p = []" "pl_stops p = 0" "pl_workers p = replicate 1 WWait"
    by (auto split: prod.splits option.splits)
  have s: "submitted (map job_event jobs @ ex_run) = map payload jobs"
    by (induction jobs) (simp_all add: job_event_def ex_run_def payload_def)
  have e: "\<forall>e \<in> set (map job_event jobs @ ex_run). hmnfd_event e"
    by (auto simp: job_event_def ex_run_def)
  have i: "\<forall>e. internal_event e \<longrightarrow> pool_step e p = None" using pool_idle [OF p(2-6)] by blast
  obtain ks where k: "distinct ks" "set ks = recipients ex_scn ex_one" "mset (pl_done p) = mset (pl_started p)"
    "map (\<lambda>a. payload (pl_jobs p a)) (pl_started p) =
       map (\<lambda>k. payload (job_for ex_scn k (the (subscriptions ex_one k)))) ks"
    using every_match_is_sent [OF ex_up(2) ex_deliverable d(1) p(1) e zero_less_one s i] by blast
  have "length (pl_started p) = length ks" using arg_cong [OF k(4), of length] by simp
  then show ?thesis using d p(1) k(1-3) distinct_card by metis
qed

end
